(* ===== verification/Prelude.thy ===== *)
theory Prelude
  imports Main "HOL-Library.Word"
begin

text \<open>
  Shared vocabulary of the development: the machine integer types of the C++ sources, the
  lemmas that move a 64-bit word computation to the natural numbers, the "does not overflow"
  test the code writes as a comparison with the largest value, power-of-two alignment by
  masking, and small list facts. The collection \<open>nat_of_word\<close> turns word comparisons
  into comparisons of \<^const>\<open>unat\<close>; component proofs add it to the simplifier and finish by linear
  arithmetic.
\<close>

unbundle bit_operations_syntax

section \<open>Machine integers\<close>

type_synonym u8 = "8 word"
type_synonym u16 = "16 word"
type_synonym u32 = "32 word"
type_synonym u64 = "64 word"

text \<open>The largest value of \<open>std::uint64_t\<close>.\<close>

abbreviation u64_max :: u64 where
  "u64_max \<equiv> - 1"

named_theorems nat_of_word "word comparisons as comparisons of natural numbers"

declare word_less_nat_alt [nat_of_word]
declare word_le_nat_alt [nat_of_word]

lemma unat_u64_less: "unat (a :: u64) < 18446744073709551616"
  using unsigned_less [of a] by simp

lemma unat_u64_max [simp]: "unat u64_max = 18446744073709551615"
  by (simp add: unsigned_minus_1_eq_mask mask_eq_exp_minus_1)

lemma unat_eq_iff: "(a :: 'a::len word) = b \<longleftrightarrow> unat a = unat b"
  by (simp add: word_unat_eq_iff)

lemma unat_add_exact:
  "unat (a :: u64) + unat b < 18446744073709551616 \<Longrightarrow> unat (a + b) = unat a + unat b"
  by (simp add: unat_word_ariths)

lemma unat_sub_exact:
  "unat (b :: u64) \<le> unat a \<Longrightarrow> unat (a - b) = unat a - unat b"
  by (simp add: unat_sub_if')

text \<open>A subtraction of the larger value from the smaller one wraps.\<close>

lemma unat_sub_wraps:
  "unat (a :: u64) < unat b \<Longrightarrow> unat (a - b) = unat a + 18446744073709551616 - unat b"
  by (simp add: unat_sub_if')

text \<open>The overflow test of the sources: \<open>a > max - b\<close>.\<close>

lemma u64_overflow_test:
  "(a :: u64) > u64_max - b \<longleftrightarrow> unat a + unat b \<ge> 18446744073709551616"
proof -
  have "unat (u64_max - b) = 18446744073709551615 - unat b"
    using unat_u64_less [of b] by (subst unat_sub_exact) auto
  then show ?thesis
    using unat_u64_less [of b] unfolding word_less_nat_alt by linarith
qed

lemma u64_no_overflow_test:
  "(a :: u64) \<le> u64_max - b \<longleftrightarrow> unat a + unat b < 18446744073709551616"
  using u64_overflow_test [of b a] by (simp add: not_less [symmetric])

lemma unat_u64_succ: "(h :: u64) \<noteq> u64_max \<Longrightarrow> unat (h + 1) = unat h + 1"
proof -
  assume "h \<noteq> u64_max"
  then have "unat h \<noteq> 18446744073709551615" by (simp add: unat_eq_iff)
  then have "unat h + unat (1 :: u64) < 18446744073709551616"
    using unat_u64_less [of h] by simp
  then show ?thesis by (subst unat_add_exact) simp_all
qed

lemma u64_less_succ: "(h :: u64) \<noteq> u64_max \<Longrightarrow> h < h + 1"
  by (simp add: word_less_nat_alt unat_u64_succ)

lemma unat_max [simp]: "unat (max (a :: 'a::len word) b) = max (unat a) (unat b)"
  by (simp add: max_def word_le_nat_alt)

lemma unat_min [simp]: "unat (min (a :: 'a::len word) b) = min (unat a) (unat b)"
  by (simp add: min_def word_le_nat_alt)

section \<open>Powers of two and alignment by masking\<close>

text \<open>
  \<open>std::has_single_bit\<close> as the sources write it: the value is not zero and has no bit in
  common with its predecessor.
\<close>

definition is_power_of_two :: "u64 \<Rightarrow> bool" where
  "is_power_of_two v \<longleftrightarrow> v \<noteq> 0 \<and> (v AND (v - 1)) = 0"

lemma nat_and_pred_zero:
  "n \<noteq> 0 \<Longrightarrow> (n AND (n - 1)) = (0::nat) \<Longrightarrow> \<exists>k. n = 2 ^ k"
proof (induction n rule: less_induct)
  case (less n)
  show ?case
  proof (cases "even n")
    case True
    then obtain m where m: "n = 2 * m" by blast
    with less.prems have m0: "m \<noteq> 0" by simp
    have "(n AND (n - 1)) = (2 * m AND Suc (2 * (m - 1)))"
      using m m0 by (intro arg_cong2 [where f = "(AND)"]) linarith+
    also have "\<dots> = 2 * (m AND (m - 1))"
      by (subst and_nat_rec) simp
    finally have e: "(n AND (n - 1)) = 2 * (m AND (m - 1))" .
    with less.prems have "(m AND (m - 1)) = 0" by linarith
    with less.IH [of m] m m0 obtain k where "m = 2 ^ k" by auto
    with m have "n = 2 ^ Suc k" by simp
    then show ?thesis by blast
  next
    case False
    then obtain m where m: "n = 2 * m + 1" by (blast elim: oddE)
    then have "(n AND (n - 1)) = 2 * m"
      by (simp add: and_nat_rec [of "Suc (2 * m)"])
    with less.prems m have "n = 2 ^ 0" by simp
    then show ?thesis by blast
  qed
qed

lemma unat_and: "unat ((a :: 'a::len word) AND b) = (unat a AND unat b)"
  by (rule unsigned_and_eq)

lemma is_power_of_two_cases:
  assumes "is_power_of_two v"
  obtains k where "k < 64" "v = 2 ^ k" "unat v = 2 ^ k"
proof -
  from assms have v0: "v \<noteq> 0" and a: "(v AND (v - 1)) = 0"
    by (auto simp: is_power_of_two_def)
  have "unat (v - 1) = unat v - 1"
    using v0 by (simp add: unat_minus_one)
  then have "(unat v AND (unat v - 1)) = 0"
    using a unat_and [of v "v - 1"] by simp
  moreover have "unat v \<noteq> 0" using v0 by (simp add: unat_eq_0)
  ultimately obtain k where k: "unat v = 2 ^ k"
    using nat_and_pred_zero by blast
  have "(2::nat) ^ k < 2 ^ 64"
    using unat_u64_less [of v] k by simp
  then have k64: "k < 64" by (rule power_less_imp_less_exp [rotated]) simp
  have "v = of_nat (unat v)" by simp
  then have "v = 2 ^ k" using k by simp
  with k64 k that show thesis by blast
qed

lemma mask_below_power:
  fixes x v :: u64
  assumes v: "v = 2 ^ k" and k: "k < 64"
  shows "unat (x AND NOT (v - 1)) = unat x div 2 ^ k * 2 ^ k"
proof -
  have m: "v - 1 = mask k" using v by (simp add: mask_eq_exp_minus_1)
  have "x AND NOT (mask k) = push_bit k (drop_bit k x)"
    by (rule bit_word_eqI) (auto simp: bit_simps)
  then have "unat (x AND NOT (v - 1)) = unat (push_bit k (drop_bit k x))"
    by (simp add: m)
  also have "\<dots> = take_bit 64 (push_bit k (unat (drop_bit k x)))"
    by (simp add: unsigned_push_bit_eq)
  also have "unat (drop_bit k x) = unat x div 2 ^ k"
    by (subst unsigned_drop_bit_eq) (use unat_u64_less [of x] in \<open>simp add: drop_bit_eq_div take_bit_nat_eq_self\<close>)
  also have "take_bit 64 (push_bit k (unat x div 2 ^ k)) = unat x div 2 ^ k * 2 ^ k"
  proof -
    have "unat x div 2 ^ k * 2 ^ k \<le> unat x" by simp
    then have "unat x div 2 ^ k * 2 ^ k < 2 ^ 64"
      by (rule le_less_trans) (use unat_u64_less [of x] in simp)
    then show ?thesis by (simp add: push_bit_eq_mult take_bit_nat_eq_self)
  qed
  finally show ?thesis .
qed

lemma and_below_power:
  assumes "is_power_of_two v"
  shows "unat (x AND (v - 1)) = unat x mod unat v"
proof -
  from assms obtain k where k: "k < 64" "v = 2 ^ k" "unat v = 2 ^ k" by (rule is_power_of_two_cases)
  have "v - 1 = mask k" using k by (simp add: mask_eq_exp_minus_1)
  then have "x AND (v - 1) = take_bit k x" by (simp add: take_bit_eq_mask)
  then have "unat (x AND (v - 1)) = take_bit k (unat x)" by (simp only: unsigned_take_bit_eq)
  then show ?thesis by (simp only: take_bit_eq_mod k(3))
qed

text \<open>Rounding up to a multiple: \<open>(x + mask) & ~mask\<close> with the overflow test in front.\<close>

definition align_up_mask :: "u64 \<Rightarrow> u64 \<Rightarrow> u64 option" where
  "align_up_mask alignment address =
     (let m = alignment - 1 in
      if address > u64_max - m then None else Some ((address + m) AND NOT m))"

lemma nat_round_up:
  fixes x p :: nat
  assumes p: "0 < p"
  shows "x \<le> (x + (p - 1)) div p * p" "(x + (p - 1)) div p * p < x + p"
    "p dvd y \<Longrightarrow> x \<le> y \<Longrightarrow> (x + (p - 1)) div p * p \<le> y"
proof -
  let ?q = "(x + (p - 1)) div p"
  have e: "?q * p + (x + (p - 1)) mod p = x + (p - 1)" by simp
  have l: "(x + (p - 1)) mod p < p" using p by simp
  show "x \<le> ?q * p" using e l by linarith
  show u: "?q * p < x + p" using e l p by linarith
  show "?q * p \<le> y" if "p dvd y" "x \<le> y"
  proof -
    from that(1) obtain c where c: "y = p * c" by blast
    have "?q * p < y + p" using u that(2) by linarith
    then have "?q * p < Suc c * p" using c by (simp add: mult.commute)
    then have "?q < Suc c" using p by (simp only: mult_less_cancel2)
    then have "?q * p \<le> c * p" by (intro mult_le_mono1) simp
    then show ?thesis using c by (simp only: mult.commute [of c])
  qed
qed

lemma align_up_mask_Some:
  assumes "is_power_of_two alignment" "align_up_mask alignment a = Some b"
  shows "unat a \<le> unat b" "unat alignment dvd unat b"
    "unat alignment dvd y \<Longrightarrow> unat a \<le> y \<Longrightarrow> unat b \<le> y"
proof -
  from assms(1) obtain k where k: "k < 64" "alignment = 2 ^ k" "unat alignment = 2 ^ k"
    by (rule is_power_of_two_cases)
  have al0: "0 < unat alignment" by (simp add: k(3))
  have m: "unat (alignment - 1) = unat alignment - 1"
    using al0 by (simp add: unat_minus_one unat_gt_0)
  from assms(2) have nov: "unat a + unat (alignment - 1) < 18446744073709551616"
    and b: "b = (a + (alignment - 1)) AND NOT (alignment - 1)"
    by (auto simp: align_up_mask_def Let_def u64_overflow_test split: if_splits)
  have ub: "unat b = (unat a + (unat alignment - 1)) div unat alignment * unat alignment"
    using mask_below_power [OF k(2,1), of "a + (alignment - 1)"] b unat_add_exact [OF nov] m k(3)
    by simp
  show "unat a \<le> unat b" "unat alignment dvd unat b"
    "unat alignment dvd y \<Longrightarrow> unat a \<le> y \<Longrightarrow> unat b \<le> y"
    unfolding ub by (rule nat_round_up [OF al0] dvd_triv_right | assumption)+
qed

lemma align_up_mask_None:
  assumes "is_power_of_two alignment" "align_up_mask alignment a = None"
    "unat alignment dvd y" "unat a \<le> y"
  shows "18446744073709551616 \<le> y"
proof -
  from assms(1) obtain k where k: "k < 64" "alignment = 2 ^ k" "unat alignment = 2 ^ k"
    by (rule is_power_of_two_cases)
  have al0: "0 < unat alignment" by (simp add: k(3))
  have m: "unat (alignment - 1) = unat alignment - 1"
    using al0 by (simp add: unat_minus_one unat_gt_0)
  from assms(2) have ov: "18446744073709551616 \<le> unat a + (unat alignment - 1)"
    by (auto simp: align_up_mask_def Let_def u64_overflow_test m split: if_splits)
  from assms(3) obtain c where c: "y = 2 ^ k * c" using k(3) by (auto elim: dvdE)
  have e: "(18446744073709551616::nat) = 2 ^ k * 2 ^ (64 - k)"
    using k(1) by (simp flip: power_add)
  have "2 ^ k * 2 ^ (64 - k) < 2 ^ k * (c + 1)"
    using ov assms(4) c al0 e k(3) by simp
  then have "2 ^ (64 - k) < c + 1" by (simp only: mult_less_cancel1)
  then have "2 ^ (64 - k) \<le> c" by simp
  then have "2 ^ k * 2 ^ (64 - k) \<le> 2 ^ k * c" by (intro mult_le_mono2)
  then show ?thesis by (simp only: c e)
qed

section \<open>Lists\<close>

text \<open>Overwriting a run of a byte vector, as \<open>std::copy_n\<close> into a \<open>std::vector\<close> does.\<close>

definition overwrite :: "'a list \<Rightarrow> nat \<Rightarrow> 'a list \<Rightarrow> 'a list" where
  "overwrite xs off ys = take off xs @ ys @ drop (off + length ys) xs"

lemma length_overwrite [simp]:
  "off + length ys \<le> length xs \<Longrightarrow> length (overwrite xs off ys) = length xs"
  by (simp add: overwrite_def)

lemma nth_overwrite:
  "off + length ys \<le> length xs \<Longrightarrow> i < length xs \<Longrightarrow>
   overwrite xs off ys ! i = (if off \<le> i \<and> i < off + length ys then ys ! (i - off) else xs ! i)"
  by (auto simp: overwrite_def nth_append min_def)

lemma overwrite_Nil [simp]: "overwrite xs off [] = xs"
  by (simp add: overwrite_def)

end
