(* ===== verification/Ordered_Map.thy ===== *)
theory Ordered_Map
  imports Prelude
begin

text \<open>
  \<open>std::map\<close> with its iteration order: an association list sorted strictly by key. The
  operations are the ones the sources use (\<open>find\<close>, \<open>emplace\<close>, assignment through a found
  iterator, \<open>erase\<close>, \<open>lower_bound\<close>, \<open>upper_bound\<close>); iteration is the list itself. The
  locale \<open>dictionary\<close> states what a client may rely on, and is interpreted on these
  operations.
\<close>

section \<open>Operations\<close>

type_synonym ('k, 'v) omap = "('k \<times> 'v) list"

definition om_ok :: "('k::linorder, 'v) omap \<Rightarrow> bool" where
  "om_ok m \<longleftrightarrow> sorted_wrt (<) (map fst m)"

definition om_find :: "('k, 'v) omap \<Rightarrow> 'k \<Rightarrow> 'v option" where
  "om_find m k = map_of m k"

fun om_set :: "'k::linorder \<Rightarrow> 'v \<Rightarrow> ('k, 'v) omap \<Rightarrow> ('k, 'v) omap" where
  "om_set k v [] = [(k, v)]"
| "om_set k v ((k', v') # m) =
     (if k < k' then (k, v) # (k', v') # m
      else if k = k' then (k, v) # m
      else (k', v') # om_set k v m)"

text \<open>\<open>emplace\<close> leaves an existing entry alone.\<close>

definition om_emplace :: "'k::linorder \<Rightarrow> 'v \<Rightarrow> ('k, 'v) omap \<Rightarrow> ('k, 'v) omap" where
  "om_emplace k v m = (case om_find m k of None \<Rightarrow> om_set k v m | Some _ \<Rightarrow> m)"

definition om_erase :: "'k \<Rightarrow> ('k, 'v) omap \<Rightarrow> ('k, 'v) omap" where
  "om_erase k m = filter (\<lambda>p. fst p \<noteq> k) m"

definition om_update :: "'k \<Rightarrow> ('v \<Rightarrow> 'v) \<Rightarrow> ('k, 'v) omap \<Rightarrow> ('k, 'v) omap" where
  "om_update k f m = map (\<lambda>(k', v). if k' = k then (k', f v) else (k', v)) m"

text \<open>Iterators are positions in the list; the past-the-end iterator is its length.\<close>

definition om_lower_bound :: "('k::linorder, 'v) omap \<Rightarrow> 'k \<Rightarrow> nat" where
  "om_lower_bound m k = length (takeWhile (\<lambda>p. fst p < k) m)"

definition om_upper_bound :: "('k::linorder, 'v) omap \<Rightarrow> 'k \<Rightarrow> nat" where
  "om_upper_bound m k = length (takeWhile (\<lambda>p. fst p \<le> k) m)"

definition om_keys :: "('k, 'v) omap \<Rightarrow> 'k set" where
  "om_keys m = set (map fst m)"

section \<open>Lemmas\<close>

lemma om_ok_Nil [simp]: "om_ok []"
  by (simp add: om_ok_def)

lemma om_ok_Cons: "om_ok ((k, v) # m) \<longleftrightarrow> (\<forall>k' \<in> om_keys m. k < k') \<and> om_ok m"
  by (auto simp: om_ok_def om_keys_def)

lemma om_ok_distinct: "om_ok m \<Longrightarrow> distinct (map fst m)"
  by (auto simp: om_ok_def strict_sorted_iff)

lemma om_find_Nil [simp]: "om_find [] k = None"
  by (simp add: om_find_def)

lemma om_find_Cons: "om_find ((k', v) # m) k = (if k = k' then Some v else om_find m k)"
  by (auto simp: om_find_def)

lemma om_find_None_iff: "om_find m k = None \<longleftrightarrow> k \<notin> om_keys m"
  by (simp add: om_find_def om_keys_def map_of_eq_None_iff image_image)

lemma om_find_Some_keys: "om_find m k = Some v \<Longrightarrow> k \<in> om_keys m"
  using om_find_None_iff [of m k] by auto

lemma om_keys_find: "k \<in> om_keys m \<longleftrightarrow> (\<exists>v. om_find m k = Some v)"
  using om_find_None_iff [of m k] by auto

lemma om_find_SomeD: "om_find m k = Some v \<Longrightarrow> (k, v) \<in> set m"
  by (simp add: om_find_def map_of_SomeD)

lemma om_find_Some_iff: "om_ok m \<Longrightarrow> om_find m k = Some v \<longleftrightarrow> (k, v) \<in> set m"
  by (simp add: om_find_def om_ok_distinct)

lemma om_find_set: "om_find (om_set k v m) k' = (if k' = k then Some v else om_find m k')"
  by (induction k v m rule: om_set.induct) (auto simp: om_find_Cons)

lemma om_keys_set [simp]: "om_keys (om_set k v m) = insert k (om_keys m)"
  by (auto simp: om_keys_find om_find_set split: if_splits)

lemma om_ok_set [intro, simp]: "om_ok m \<Longrightarrow> om_ok (om_set k v m)"
  by (induction k v m rule: om_set.induct) (auto simp: om_ok_Cons, auto simp: om_keys_def)

lemma om_find_erase: "om_find (om_erase k m) k' = (if k' = k then None else om_find m k')"
  by (induction m) (auto simp: om_erase_def om_find_Cons)

lemma om_keys_erase [simp]: "om_keys (om_erase k m) = om_keys m - {k}"
  by (auto simp: om_keys_find om_find_erase split: if_splits)

lemma om_ok_erase [intro, simp]: "om_ok m \<Longrightarrow> om_ok (om_erase k m)"
  by (simp add: om_ok_def om_erase_def sorted_wrt_map sorted_wrt_filter)

lemma om_erase_absent: "om_find m k = None \<Longrightarrow> om_erase k m = m"
  by (induction m) (auto simp: om_erase_def om_find_Cons split: if_splits)

lemma om_update_fst [simp]: "map fst (om_update k f m) = map fst m"
  by (auto simp: om_update_def)

lemma om_keys_update [simp]: "om_keys (om_update k f m) = om_keys m"
  by (simp only: om_keys_def om_update_fst)

lemma om_ok_update [simp]: "om_ok (om_update k f m) = om_ok m"
  by (simp only: om_ok_def om_update_fst)

lemma om_find_update:
  "om_find (om_update k f m) k' = (if k' = k then map_option f (om_find m k) else om_find m k')"
  by (induction m) (auto simp: om_update_def om_find_Cons)

lemma om_find_emplace:
  "om_find (om_emplace k v m) k' =
     (if k' = k \<and> om_find m k = None then Some v else om_find m k')"
  by (auto simp: om_emplace_def om_find_set split: option.splits)

lemma om_ok_emplace [intro, simp]: "om_ok m \<Longrightarrow> om_ok (om_emplace k v m)"
  by (auto simp: om_emplace_def split: option.splits)

lemma om_keys_emplace [simp]: "om_keys (om_emplace k v m) = insert k (om_keys m)"
  by (auto simp: om_keys_find om_find_emplace split: if_splits)

text \<open>Length, for the bounded tables.\<close>

lemma length_om_set: "om_find m k = None \<Longrightarrow> length (om_set k v m) = Suc (length m)"
  by (induction k v m rule: om_set.induct) (auto simp: om_find_Cons split: if_splits)

lemma length_om_update [simp]: "length (om_update k f m) = length m"
  by (simp add: om_update_def)

lemma length_om_erase_le: "length (om_erase k m) \<le> length m"
  by (simp add: om_erase_def)

lemma length_om_erase:
  "om_ok m \<Longrightarrow> om_find m k = Some v \<Longrightarrow> Suc (length (om_erase k m)) = length m"
proof (induction m)
  case Nil
  then show ?case by simp
next
  case (Cons p m)
  obtain k' v' where p: "p = (k', v')" by fastforce
  show ?case
  proof (cases "k = k'")
    case True
    with Cons.prems p have "k \<notin> om_keys m" by (auto simp: om_ok_Cons)
    then have "om_erase k m = m" by (simp add: om_erase_absent om_find_None_iff)
    with True p show ?thesis by (simp add: om_erase_def)
  next
    case False
    with Cons p show ?thesis by (auto simp: om_erase_def om_ok_Cons om_find_Cons)
  qed
qed

section \<open>The dictionary interface\<close>

locale dictionary =
  fixes empty :: "'m"
    and find :: "'m \<Rightarrow> 'k \<Rightarrow> 'v option"
    and assign :: "'k \<Rightarrow> 'v \<Rightarrow> 'm \<Rightarrow> 'm"
    and erase :: "'k \<Rightarrow> 'm \<Rightarrow> 'm"
    and ok :: "'m \<Rightarrow> bool"
  assumes find_empty: "find empty k = None"
    and find_assign: "ok m \<Longrightarrow> find (assign k v m) k' = (if k' = k then Some v else find m k')"
    and find_erase: "ok m \<Longrightarrow> find (erase k m) k' = (if k' = k then None else find m k')"
    and ok_empty: "ok empty"
    and ok_assign: "ok m \<Longrightarrow> ok (assign k v m)"
    and ok_erase: "ok m \<Longrightarrow> ok (erase k m)"
begin

lemma find_assign_same: "ok m \<Longrightarrow> find (assign k v m) k = Some v"
  by (simp add: find_assign)

lemma erase_assign: "ok m \<Longrightarrow> find m k = None \<Longrightarrow> find (erase k (assign k v m)) = find m"
  by (rule ext) (simp add: find_assign find_erase ok_assign)

lemma erase_then_assign_swap:
  "ok m \<Longrightarrow> k \<noteq> j \<Longrightarrow> find (erase k (assign j v m)) = find (assign j v (erase k m))"
  by (rule ext) (simp add: find_assign find_erase ok_assign ok_erase)

end

interpretation om: dictionary "[]" om_find om_set om_erase om_ok
  by unfold_locales (auto simp: om_find_set om_find_erase)

section \<open>Iterator positions\<close>

lemma sorted_takeWhile_less:
  "sorted_wrt (<) xs \<Longrightarrow> i < length xs \<Longrightarrow>
   i < length (takeWhile (\<lambda>x. x < (k::'a::linorder)) xs) \<longleftrightarrow> xs ! i < k"
proof (induction xs arbitrary: i)
  case Nil
  then show ?case by simp
next
  case (Cons x xs)
  show ?case
  proof (cases i)
    case 0
    then show ?thesis by simp
  next
    case (Suc j)
    with Cons.prems have "x < xs ! j" by simp
    with Cons Suc show ?thesis by (auto dest: less_trans)
  qed
qed

lemma om_upper_bound_nth:
  assumes "om_ok m" "i < length m"
  shows "i < om_upper_bound m k \<longleftrightarrow> fst (m ! i) \<le> k"
  using assms
proof (induction m arbitrary: i)
  case Nil
  then show ?case by simp
next
  case (Cons p m)
  show ?case
  proof (cases i)
    case 0
    then show ?thesis by (simp add: om_upper_bound_def)
  next
    case (Suc j)
    have "fst p < fst (m ! j)" using Cons.prems Suc by (simp add: om_ok_def)
    moreover have "om_ok m" using Cons.prems by (simp add: om_ok_def)
    ultimately show ?thesis
      using Cons.IH [of j] Cons.prems Suc by (auto simp: om_upper_bound_def)
  qed
qed

lemma om_lower_bound_nth:
  assumes "om_ok m" "i < length m"
  shows "i < om_lower_bound m k \<longleftrightarrow> fst (m ! i) < k"
proof -
  have "i < length (takeWhile (\<lambda>x. x < k) (map fst m)) \<longleftrightarrow> map fst m ! i < k"
    using assms by (intro sorted_takeWhile_less) (auto simp: om_ok_def)
  then show ?thesis using assms by (simp add: om_lower_bound_def takeWhile_map o_def)
qed

lemma om_upper_bound_le: "om_upper_bound m k \<le> length m"
  by (simp add: om_upper_bound_def length_takeWhile_le)

lemma om_lower_bound_le: "om_lower_bound m k \<le> length m"
  by (simp add: om_lower_bound_def length_takeWhile_le)

end
