(* ===== verification/Handle_Table.thy ===== *)
theory Handle_Table
  imports Ordered_Map
begin

text \<open>
  The kernel's typed handle table (\<open>kernel/handle_table\<close>, \<open>kernel/object.h\<close>,
  \<open>kernel/status.h\<close>) and the data of the objects it holds (the fields of \<open>EventFlag\<close>,
  \<open>Semaphore\<close>, \<open>EventQueue\<close>, \<open>File\<close> and \<open>Directory\<close>). A table entry owns its object's
  fields; a \<open>shared_ptr\<close> obtained from the table and mutated is modelled by storing the mutated
  object back under its handle. A \<open>GuestThread\<close> is held by the scheduler as well, whose
  map keeps its fields, so the table holds only its type.
\<close>

section \<open>Status codes and objects\<close>

datatype kernel_status =
    kOk | kInvalidArgument | kNotFound | kNoSuchEntry | kBusy | kWouldBlock
  | kPermissionDenied | kNoResources | kTimedOut

datatype kernel_object_type =
    kDirectory | kEventQueue | kEventFlag | kFile | kSemaphore | kThread | kTimer

record event_flag =
  ef_name :: string
  ef_attributes :: u32
  ef_bits :: u64

text \<open>\<open>std::int32_t\<close> counts are integers; the component proves that they stay in range.\<close>

record semaphore =
  sm_name :: string
  sm_attributes :: u32
  sm_maximum_count :: int
  sm_count :: int

record kernel_event =
  ev_ident :: u64
  ev_filter :: int
  ev_flags :: u16
  ev_fflags :: u32
  ev_data :: u64
  ev_user_data :: u64

record registered_kernel_event =
  re_event :: kernel_event
  re_registration_generation :: u64
  re_persistent :: bool

record registration =
  rg_ident :: u64
  rg_filter :: int
  rg_flags :: u16
  rg_user_data :: u64
  rg_generation :: u64

record event_queue =
  eq_name :: string
  eq_registrations :: "registration list"
  eq_pending_events :: "registered_kernel_event list"
  eq_next_generation :: u64
  eq_generation_exhausted :: bool

record file_object =
  fl_path :: string
  fl_contents :: "u8 list"
  fl_position :: u64

record directory_entry =
  de_name :: string
  de_is_file :: bool
  de_inode :: u32

record directory_object =
  dr_path :: string
  dr_entries :: "directory_entry list"
  dr_next_index :: nat

datatype kernel_object =
    EventFlagObject event_flag
  | SemaphoreObject semaphore
  | EventQueueObject event_queue
  | FileObject file_object
  | DirectoryObject directory_object
  | ThreadObject

fun object_type :: "kernel_object \<Rightarrow> kernel_object_type" where
  "object_type (EventFlagObject _) = kEventFlag"
| "object_type (SemaphoreObject _) = kSemaphore"
| "object_type (EventQueueObject _) = kEventQueue"
| "object_type (FileObject _) = kFile"
| "object_type (DirectoryObject _) = kDirectory"
| "object_type ThreadObject = kThread"

section \<open>The table\<close>

text \<open>\<open>kInvalidKernelHandle\<close>.\<close>

abbreviation kInvalidKernelHandle :: u64 where
  "kInvalidKernelHandle \<equiv> 0"

record handle_table =
  objects :: "(u64, kernel_object) omap"
  next_handle :: u64
  exhausted :: bool

definition empty_handle_table :: handle_table where
  "empty_handle_table = \<lparr>objects = [], next_handle = 1, exhausted = False\<rparr>"

text \<open>\<open>None\<close> for the argument is a null pointer.\<close>

definition HandleTable_Insert ::
  "kernel_object option \<Rightarrow> handle_table \<Rightarrow> u64 option \<times> handle_table" where
  "HandleTable_Insert object t =
     (case object of
        None \<Rightarrow> (None, t)
      | Some ob \<Rightarrow>
          if exhausted t then (None, t)
          else
            let handle = next_handle t;
                t1 = (if next_handle t = u64_max then t\<lparr>exhausted := True\<rparr>
                      else t\<lparr>next_handle := next_handle t + 1\<rparr>)
            in (Some handle, t1\<lparr>objects := om_emplace handle ob (objects t1)\<rparr>))"

definition HandleTable_Find ::
  "u64 \<Rightarrow> kernel_object_type \<Rightarrow> handle_table \<Rightarrow> kernel_object option" where
  "HandleTable_Find handle expected_type t =
     (if handle = kInvalidKernelHandle then None
      else case om_find (objects t) handle of
          None \<Rightarrow> None
        | Some ob \<Rightarrow> if object_type ob \<noteq> expected_type then None else Some ob)"

definition HandleTable_Remove ::
  "u64 \<Rightarrow> kernel_object_type \<Rightarrow> handle_table \<Rightarrow> kernel_object option \<times> handle_table" where
  "HandleTable_Remove handle expected_type t =
     (if handle = kInvalidKernelHandle then (None, t)
      else case om_find (objects t) handle of
          None \<Rightarrow> (None, t)
        | Some ob \<Rightarrow>
            if object_type ob \<noteq> expected_type then (None, t)
            else (Some ob, t\<lparr>objects := om_erase handle (objects t)\<rparr>))"

definition HandleTable_size :: "handle_table \<Rightarrow> nat" where
  "HandleTable_size t = length (objects t)"

text \<open>Mutation of the object behind a \<open>shared_ptr\<close> that the table still holds.\<close>

definition store_object :: "u64 \<Rightarrow> kernel_object \<Rightarrow> handle_table \<Rightarrow> handle_table" where
  "store_object handle ob t = t\<lparr>objects := om_update handle (\<lambda>_. ob) (objects t)\<rparr>"

text \<open>A sequence of insertions and removals, with the handles it issues.\<close>

datatype table_op =
    Table_Insert "kernel_object option"
  | Table_Remove u64 kernel_object_type

fun run_table :: "table_op list \<Rightarrow> handle_table \<Rightarrow> u64 list \<times> handle_table" where
  "run_table [] t = ([], t)"
| "run_table (Table_Insert ob # ops) t =
     (let (h, t1) = HandleTable_Insert ob t;
          (hs, t2) = run_table ops t1
      in (case h of None \<Rightarrow> hs | Some h' \<Rightarrow> h' # hs, t2))"
| "run_table (Table_Remove h ty # ops) t = run_table ops (snd (HandleTable_Remove h ty t))"

section \<open>Invariant\<close>

text \<open>
  The table is sorted, the null handle is never a key, and every key was issued before the
  next one; once the largest handle has been issued the table is exhausted.
\<close>

definition handle_table_ok :: "handle_table \<Rightarrow> bool" where
  "handle_table_ok t \<longleftrightarrow>
     om_ok (objects t) \<and> next_handle t \<noteq> 0 \<and>
     (exhausted t \<longrightarrow> next_handle t = u64_max) \<and>
     (\<forall>h \<in> om_keys (objects t). h \<noteq> 0 \<and> (h < next_handle t \<or> exhausted t))"

lemma empty_handle_table_ok [simp]: "handle_table_ok empty_handle_table"
  by (simp add: handle_table_ok_def empty_handle_table_def om_keys_def)

lemma HandleTable_Insert_cases:
  assumes "HandleTable_Insert (Some ob) t = (r, t')"
  obtains "exhausted t" "r = None" "t' = t"
  | "\<not> exhausted t" "r = Some (next_handle t)" "next_handle t = u64_max"
    "t' = t\<lparr>exhausted := True, objects := om_emplace (next_handle t) ob (objects t)\<rparr>"
  | "\<not> exhausted t" "r = Some (next_handle t)" "next_handle t \<noteq> u64_max"
    "t' = t\<lparr>next_handle := next_handle t + 1,
             objects := om_emplace (next_handle t) ob (objects t)\<rparr>"
  using assms by (auto simp: HandleTable_Insert_def Let_def split: if_splits)

lemma HandleTable_Insert_None [simp]: "HandleTable_Insert None t = (None, t)"
  by (simp add: HandleTable_Insert_def)

lemma next_handle_fresh:
  "handle_table_ok t \<Longrightarrow> \<not> exhausted t \<Longrightarrow> om_find (objects t) (next_handle t) = None"
  by (auto simp: handle_table_ok_def om_find_None_iff)

lemma HandleTable_Insert_ok:
  assumes ok: "handle_table_ok t" and ins: "HandleTable_Insert ob t = (r, t')"
  shows "handle_table_ok t'"
proof (cases ob)
  case None
  with ins ok show ?thesis by simp
next
  case (Some x)
  with ins have "HandleTable_Insert (Some x) t = (r, t')" by simp
  then show ?thesis
  proof (cases rule: HandleTable_Insert_cases)
    case 1
    with ok show ?thesis by simp
  next
    case 2
    with ok show ?thesis by (auto simp: handle_table_ok_def)
  next
    case 3
    then have "next_handle t < next_handle t + 1" by (simp add: u64_less_succ)
    moreover from this have "next_handle t + 1 \<noteq> 0"
      by (metis word_not_simps(1))
    ultimately show ?thesis
      using ok 3 by (auto simp: handle_table_ok_def dest: less_trans)
  qed
qed

lemma HandleTable_Insert_SomeD:
  assumes "HandleTable_Insert (Some ob) t = (Some h, t')"
  shows "\<not> exhausted t" "h = next_handle t" "objects t' = om_emplace h ob (objects t)"
  using assms by (auto elim: HandleTable_Insert_cases)

lemma HandleTable_Insert_find:
  assumes ok: "handle_table_ok t" and ins: "HandleTable_Insert (Some ob) t = (Some h, t')"
  shows "om_find (objects t') k = (if k = h then Some ob else om_find (objects t) k)"
    and "h \<noteq> 0" and "om_find (objects t) h = None"
proof -
  note d = HandleTable_Insert_SomeD [OF ins]
  show fresh: "om_find (objects t) h = None"
    using next_handle_fresh [OF ok d(1)] d(2) by simp
  show "h \<noteq> 0" using ok d(2) by (simp add: handle_table_ok_def)
  show "om_find (objects t') k = (if k = h then Some ob else om_find (objects t) k)"
    using fresh by (simp add: d(3) om_find_emplace)
qed

lemma HandleTable_Remove_ok:
  "handle_table_ok t \<Longrightarrow> handle_table_ok (snd (HandleTable_Remove h ty t))"
  by (auto simp: HandleTable_Remove_def handle_table_ok_def split: option.splits)

lemma store_object_ok [simp]: "handle_table_ok (store_object h ob t) = handle_table_ok t"
  by (simp add: store_object_def handle_table_ok_def)

lemma om_find_store_object:
  "om_find (objects (store_object h ob t)) k =
     (if k = h then map_option (\<lambda>_. ob) (om_find (objects t) h) else om_find (objects t) k)"
  by (simp add: store_object_def om_find_update)

lemma HandleTable_Find_Some:
  "HandleTable_Find h ty t = Some ob \<longleftrightarrow>
     h \<noteq> 0 \<and> om_find (objects t) h = Some ob \<and> object_type ob = ty"
  by (auto simp: HandleTable_Find_def split: option.splits if_splits)

lemma HandleTable_Remove_Some:
  "HandleTable_Remove h ty t = (Some ob, t') \<longleftrightarrow>
     HandleTable_Find h ty t = Some ob \<and> t' = t\<lparr>objects := om_erase h (objects t)\<rparr>"
  by (auto simp: HandleTable_Remove_def HandleTable_Find_def split: option.splits)

lemma HandleTable_Remove_NoneD:
  "HandleTable_Remove h ty t = (None, t') \<Longrightarrow> HandleTable_Find h ty t = None \<and> t' = t"
  by (auto simp: HandleTable_Remove_def HandleTable_Find_def split: option.splits if_splits)

section \<open>The typed object table interface\<close>

text \<open>
  What the kernel services rely on: a created object is found under its handle and its own
  type only, and nothing else changes; a removal takes exactly the named object away.
\<close>

locale object_table =
  fixes insert :: "'o \<Rightarrow> 't \<Rightarrow> 'h option \<times> 't"
    and find :: "'h \<Rightarrow> 'ty \<Rightarrow> 't \<Rightarrow> 'o option"
    and remove :: "'h \<Rightarrow> 'ty \<Rightarrow> 't \<Rightarrow> 'o option \<times> 't"
    and otype :: "'o \<Rightarrow> 'ty"
    and ok :: "'t \<Rightarrow> bool"
  assumes insert_ok: "ok t \<Longrightarrow> insert x t = (r, t') \<Longrightarrow> ok t'"
    and insert_find: "ok t \<Longrightarrow> insert x t = (Some h, t') \<Longrightarrow>
        find k ty t' = (if k = h then (if otype x = ty then Some x else None) else find k ty t)"
    and insert_fresh: "ok t \<Longrightarrow> insert x t = (Some h, t') \<Longrightarrow> find h ty t = None"
    and insert_fails: "insert x t = (None, t') \<Longrightarrow> t' = t"
    and remove_ok: "ok t \<Longrightarrow> remove h ty t = (q, t') \<Longrightarrow> ok t'"
    and remove_found: "ok t \<Longrightarrow> remove h ty t = (q, t') \<Longrightarrow> q = find h ty t"
    and remove_fails: "remove h ty t = (None, t') \<Longrightarrow> t' = t"
    and remove_find: "ok t \<Longrightarrow> remove h ty t = (Some x, t') \<Longrightarrow>
        find k ty' t' = (if k = h then None else find k ty' t)"
begin

lemma create_then_find: "ok t \<Longrightarrow> insert x t = (Some h, t') \<Longrightarrow> find h (otype x) t' = Some x"
  by (simp add: insert_find)

lemma create_then_wrong_type:
  "ok t \<Longrightarrow> insert x t = (Some h, t') \<Longrightarrow> ty \<noteq> otype x \<Longrightarrow> find h ty t' = None"
  by (simp add: insert_find)

lemma create_then_delete:
  assumes "ok t" "insert x t = (Some h, t1)"
  obtains t2 where "remove h (otype x) t1 = (Some x, t2)" "ok t2"
    "\<And>k ty. find k ty t2 = find k ty t"
proof -
  obtain r t2 where r: "remove h (otype x) t1 = (r, t2)" by fastforce
  have ok1: "ok t1" using assms by (rule insert_ok)
  have "r = Some x"
    using remove_found [OF ok1 r] create_then_find [OF assms] by simp
  with r have rs: "remove h (otype x) t1 = (Some x, t2)" by simp
  have "find k ty t2 = find k ty t" for k ty
    using remove_find [OF ok1 rs] insert_find [OF assms] insert_fresh [OF assms] by simp
  with rs remove_ok [OF ok1 rs] that show thesis by blast
qed

end

interpretation ht: object_table "\<lambda>x. HandleTable_Insert (Some x)" HandleTable_Find
  HandleTable_Remove object_type handle_table_ok
proof (unfold_locales, goal_cases)
  case (1 t x r t')
  then show ?case by (rule HandleTable_Insert_ok)
next
  case (2 t x h t' k ty)
  then show ?case
    using HandleTable_Insert_find(1) [OF 2, of k] HandleTable_Insert_find(2) [OF 2] by (auto simp: HandleTable_Find_def)
next
  case (3 t x h t' ty)
  then show ?case
    using HandleTable_Insert_find(3) [OF 3] by (simp add: HandleTable_Find_def)
next
  case (4 x t t')
  then show ?case by (auto elim: HandleTable_Insert_cases)
next
  case (5 t h ty r t')
  then show ?case using HandleTable_Remove_ok [of t h ty] by simp
next
  case (6 t h ty r t')
  then show ?case
    by (cases r) (auto simp: HandleTable_Remove_Some dest: HandleTable_Remove_NoneD)
next
  case (7 h ty t t')
  then show ?case by (auto dest: HandleTable_Remove_NoneD)
next
  case (8 t h ty x t' k ty')
  then show ?case
    by (auto simp: HandleTable_Remove_Some HandleTable_Find_def om_find_erase)
qed

section \<open>Handles are never reused\<close>

lemma run_table_exhausted:
  "exhausted t \<Longrightarrow> fst (run_table ops t) = []"
proof (induction ops t rule: run_table.induct)
  case (1 t)
  then show ?case by simp
next
  case (2 ob ops t)
  then show ?case
    by (cases ob) (auto simp: HandleTable_Insert_def Let_def split: prod.splits)
next
  case (3 h ty ops t)
  have "exhausted (snd (HandleTable_Remove h ty t))"
    using 3 by (auto simp: HandleTable_Remove_def split: option.splits)
  with 3 show ?case by simp
qed

lemma run_table_sorted:
  "handle_table_ok t \<Longrightarrow> run_table ops t = (hs, t') \<Longrightarrow>
   sorted_wrt (<) hs \<and> (\<forall>h \<in> set hs. next_handle t \<le> h) \<and> handle_table_ok t'"
proof (induction ops t arbitrary: hs t' rule: run_table.induct)
  case (1 t)
  then show ?case by simp
next
  case (2 ob ops t)
  obtain r t1 where ins: "HandleTable_Insert ob t = (r, t1)" by fastforce
  obtain ks t2 where run: "run_table ops t1 = (ks, t2)" by fastforce
  have ok1: "handle_table_ok t1" using 2(2) ins by (rule HandleTable_Insert_ok)
  have IH: "sorted_wrt (<) ks \<and> (\<forall>h \<in> set ks. next_handle t1 \<le> h) \<and> handle_table_ok t2"
    using 2(1) [OF refl ins [symmetric] ok1 run] .
  have hs: "hs = (case r of None \<Rightarrow> ks | Some h \<Rightarrow> h # ks)" and t': "t' = t2"
    using 2(3) ins run by (auto simp: Let_def)
  show ?case
  proof (cases r)
    case None
    then have "t1 = t"
      using ins by (cases ob) (auto elim: HandleTable_Insert_cases)
    with None hs t' IH show ?thesis by simp
  next
    case (Some h)
    then obtain x where "HandleTable_Insert (Some x) t = (Some h, t1)"
      using ins by (cases ob) auto
    then show ?thesis
    proof (cases rule: HandleTable_Insert_cases)
      case 2
      then have "ks = []"
        using run_table_exhausted [of t1 ops] run by simp
      with 2 Some hs t' IH show ?thesis by simp
    next
      case 3
      then have lt: "next_handle t < next_handle t1" by (simp add: u64_less_succ)
      then have "\<forall>k \<in> set ks. h < k" using IH 3 by (metis option.inject less_le_trans)
      with 3 lt Some hs t' IH show ?thesis by (auto dest: less_imp_le order.trans)
    qed simp
  qed
next
  case (3 h ty ops t)
  have "next_handle (snd (HandleTable_Remove h ty t)) = next_handle t"
    by (auto simp: HandleTable_Remove_def split: option.splits)
  with 3 HandleTable_Remove_ok [of t h ty] show ?case by simp
qed

section \<open>Properties\<close>

text \<open>
  C5: whatever objects are inserted and removed, in whatever order, the handles that the table
  issues are pairwise distinct and never the invalid handle: a handle is not reused, also
  not when the 64-bit counter is used up.
\<close>

theorem handles_never_reused:
  "distinct (fst (run_table ops empty_handle_table)) \<and>
   kInvalidKernelHandle \<notin> set (fst (run_table ops empty_handle_table))"
proof -
  obtain hs t where r: "run_table ops empty_handle_table = (hs, t)" by fastforce
  from run_table_sorted [OF empty_handle_table_ok r] show ?thesis
    by (auto simp: r strict_sorted_iff) (force simp: empty_handle_table_def)
qed

text \<open>
  C6: an inserted object is found under its handle and its own type only, every other lookup
  is unchanged, and removing it restores every lookup of the table before the insertion.
\<close>

theorem insert_find_remove:
  assumes ok: "handle_table_ok t" and ins: "HandleTable_Insert (Some ob) t = (Some h, t1)"
  shows "HandleTable_Find k ty t1 =
      (if k = h then (if ty = object_type ob then Some ob else None) else HandleTable_Find k ty t) \<and>
    HandleTable_Find k ty (snd (HandleTable_Remove h (object_type ob) t1)) = HandleTable_Find k ty t \<and>
    fst (HandleTable_Remove h (object_type ob) t1) = Some ob"
proof -
  obtain t2 where "HandleTable_Remove h (object_type ob) t1 = (Some ob, t2)"
    "\<And>k ty. HandleTable_Find k ty t2 = HandleTable_Find k ty t"
    using ht.create_then_delete [OF ok ins] by blast
  with ht.insert_find [OF ok ins, of k ty] show ?thesis by simp
qed

theorem insert_find_remove_witness:
  "handle_table_ok empty_handle_table \<and>
   HandleTable_Find 1 kThread (snd (HandleTable_Insert (Some ThreadObject) empty_handle_table)) =
     Some ThreadObject"
proof -
  have "HandleTable_Insert (Some ThreadObject) empty_handle_table =
      (Some 1, snd (HandleTable_Insert (Some ThreadObject) empty_handle_table))"
    by (simp add: HandleTable_Insert_def empty_handle_table_def)
  from insert_find_remove [OF empty_handle_table_ok this, of 1 kThread] show ?thesis by simp
qed

end
