(* ===== verification/Scheduler.thy ===== *)
theory Scheduler
  imports Handle_Table
begin

text \<open>
  The cooperative guest scheduler (\<open>kernel/guest_scheduler\<close>). Its state is the ordered map of
  guest threads, the ready queue and the running thread; every operation runs under the
  scheduler's mutex, so it is one atomic step. The monotonic clock is read through the
  argument \<open>now\<close>. The invariant \<open>sched_ok\<close> says that the ready queue holds every ready thread
  once, that at most one thread runs and that it is the current one, and that exactly the
  blocked threads have a wait key; every operation keeps it. The locale \<open>wait_queue\<close> is
  the contract the synchronisation services use.
\<close>

section \<open>Data\<close>

datatype guest_thread_state = kReady | kRunning | kBlocked | kExited

record guest_thread =
  th_name :: string
  th_priority :: int
  th_state :: guest_thread_state
  th_wait_key :: string
  th_exit_value :: u64
  th_entry_address :: u64
  th_argument :: u64
  th_wait_deadline :: "u64 option"
  th_timed_out_wait_key :: string

definition new_thread :: "string \<Rightarrow> int \<Rightarrow> u64 \<Rightarrow> u64 \<Rightarrow> guest_thread" where
  "new_thread name priority entry_address argument =
     \<lparr>th_name = name, th_priority = priority, th_state = kReady, th_wait_key = '''',
      th_exit_value = 0, th_entry_address = entry_address, th_argument = argument,
      th_wait_deadline = None, th_timed_out_wait_key = ''''\<rparr>"

record guest_scheduler =
  threads :: "(u64, guest_thread) omap"
  ready_threads :: "u64 list"
  current_thread :: "u64 option"

text \<open>The handle table and the scheduler that every kernel service shares.\<close>

record kernel =
  handles :: handle_table
  sched :: guest_scheduler

definition empty_kernel :: kernel where
  "empty_kernel =
     \<lparr>handles = empty_handle_table,
      sched = \<lparr>threads = [], ready_threads = [], current_thread = None\<rparr>\<rparr>"

record thread_create_result =
  tc_status :: kernel_status
  tc_handle :: u64

record thread_join_result =
  tj_status :: kernel_status
  tj_exit_value :: u64

record thread_snapshot =
  ts_handle :: u64
  ts_name :: string
  ts_priority :: int
  ts_state :: guest_thread_state
  ts_wait_key :: string
  ts_exit_value :: u64
  ts_entry_address :: u64
  ts_argument :: u64

abbreviation kMaximumGuestThreadNameLength :: nat where
  "kMaximumGuestThreadNameLength \<equiv> 31"

text \<open>\<open>std::to_string\<close> of an unsigned integer, and \<open>std::to_chars\<close> in base 16.\<close>

definition digit_char :: "nat \<Rightarrow> char" where
  "digit_char d = ''0123456789abcdef'' ! d"

fun digits_base :: "nat \<Rightarrow> nat \<Rightarrow> string" where
  "digits_base b n =
     (if n < b \<or> b < 2 then [digit_char n] else digits_base b (n div b) @ [digit_char (n mod b)])"

declare digits_base.simps [simp del]

definition to_string :: "u64 \<Rightarrow> string" where
  "to_string v = digits_base 10 (unat v)"

definition to_hex :: "u64 \<Rightarrow> string" where
  "to_hex v = digits_base 16 (unat v)"

definition ThreadExitWaitKey :: "u64 \<Rightarrow> string" where
  "ThreadExitWaitKey handle = ''thread-exit:'' @ to_string handle"

section \<open>Operations\<close>

definition CreateThread ::
  "string \<Rightarrow> int \<Rightarrow> u64 \<Rightarrow> u64 \<Rightarrow> kernel \<Rightarrow> thread_create_result \<times> kernel" where
  "CreateThread name priority entry_address argument k =
     (if length name > kMaximumGuestThreadNameLength
      then (\<lparr>tc_status = kInvalidArgument, tc_handle = kInvalidKernelHandle\<rparr>, k)
      else
        case HandleTable_Insert (Some ThreadObject) (handles k) of
          (None, t) \<Rightarrow>
            (\<lparr>tc_status = kNoResources, tc_handle = kInvalidKernelHandle\<rparr>, k\<lparr>handles := t\<rparr>)
        | (Some handle, t) \<Rightarrow>
            (\<lparr>tc_status = kOk, tc_handle = handle\<rparr>,
             k\<lparr>handles := t,
               sched := (sched k)
                 \<lparr>threads := om_emplace handle (new_thread name priority entry_address argument)
                                (threads (sched k)),
                  ready_threads := ready_threads (sched k) @ [handle]\<rparr>\<rparr>))"

definition DiscardReadyThread :: "u64 \<Rightarrow> kernel \<Rightarrow> bool \<times> kernel" where
  "DiscardReadyThread handle k =
     (case om_find (threads (sched k)) handle of
        None \<Rightarrow> (False, k)
      | Some thread \<Rightarrow>
          if th_state thread \<noteq> kReady then (False, k)
          else case HandleTable_Remove handle kThread (handles k) of
              (None, _) \<Rightarrow> (False, k)
            | (Some _, t) \<Rightarrow>
                (True,
                 k\<lparr>handles := t,
                   sched := (sched k)
                     \<lparr>ready_threads := filter (\<lambda>h. h \<noteq> handle) (ready_threads (sched k)),
                      threads := om_erase handle (threads (sched k))\<rparr>\<rparr>))"

text \<open>\<open>WakeExpiredThreadsLocked\<close>: the loop visits the threads in handle order.\<close>

definition wait_expired :: "u64 \<Rightarrow> guest_thread \<Rightarrow> bool" where
  "wait_expired now thread \<longleftrightarrow>
     th_state thread = kBlocked \<and>
     (case th_wait_deadline thread of None \<Rightarrow> False | Some d \<Rightarrow> \<not> d > now)"

definition expire_thread :: "guest_thread \<Rightarrow> guest_thread" where
  "expire_thread thread =
     thread\<lparr>th_state := kReady, th_timed_out_wait_key := th_wait_key thread,
            th_wait_key := '''', th_wait_deadline := None\<rparr>"

fun WakeExpired_loop ::
  "u64 \<Rightarrow> (u64, guest_thread) omap \<Rightarrow> (u64, guest_thread) omap \<times> u64 list" where
  "WakeExpired_loop now [] = ([], [])"
| "WakeExpired_loop now ((handle, thread) # rest) =
     (let (rest', woken) = WakeExpired_loop now rest in
      if \<not> wait_expired now thread then ((handle, thread) # rest', woken)
      else ((handle, expire_thread thread) # rest', handle # woken))"

definition WakeExpiredThreadsLocked :: "u64 \<Rightarrow> guest_scheduler \<Rightarrow> guest_scheduler" where
  "WakeExpiredThreadsLocked now s =
     (let (threads', woken) = WakeExpired_loop now (threads s) in
      s\<lparr>threads := threads', ready_threads := ready_threads s @ woken\<rparr>)"

text \<open>\<open>SelectNext\<close>: entries of the queue that are not ready any more are dropped.\<close>

fun SelectNext_loop :: "(u64, guest_thread) omap \<Rightarrow> u64 list \<Rightarrow> u64 option \<times> u64 list" where
  "SelectNext_loop ts [] = (None, [])"
| "SelectNext_loop ts (handle # rest) =
     (case om_find ts handle of
        None \<Rightarrow> SelectNext_loop ts rest
      | Some thread \<Rightarrow>
          if th_state thread \<noteq> kReady then SelectNext_loop ts rest else (Some handle, rest))"

definition SelectNext :: "u64 \<Rightarrow> guest_scheduler \<Rightarrow> u64 option \<times> guest_scheduler" where
  "SelectNext now s =
     (if current_thread s \<noteq> None then (None, s)
      else
        let s1 = WakeExpiredThreadsLocked now s in
        case SelectNext_loop (threads s1) (ready_threads s1) of
          (None, rest) \<Rightarrow> (None, s1\<lparr>ready_threads := rest\<rparr>)
        | (Some handle, rest) \<Rightarrow>
            (Some handle,
             s1\<lparr>ready_threads := rest,
                threads := om_update handle (\<lambda>t. t\<lparr>th_state := kRunning\<rparr>) (threads s1),
                current_thread := Some handle\<rparr>))"

text \<open>The running thread the guards of the remaining operations look up.\<close>

definition running_thread :: "guest_scheduler \<Rightarrow> (u64 \<times> guest_thread) option" where
  "running_thread s =
     (case current_thread s of
        None \<Rightarrow> None
      | Some h \<Rightarrow>
          (case om_find (threads s) h of
             None \<Rightarrow> None
           | Some t \<Rightarrow> if th_state t \<noteq> kRunning then None else Some (h, t)))"

definition YieldCurrent :: "guest_scheduler \<Rightarrow> bool \<times> guest_scheduler" where
  "YieldCurrent s =
     (case running_thread s of
        None \<Rightarrow> (False, s)
      | Some (h, _) \<Rightarrow>
          (True,
           s\<lparr>threads := om_update h (\<lambda>t. t\<lparr>th_state := kReady\<rparr>) (threads s),
             ready_threads := ready_threads s @ [h],
             current_thread := None\<rparr>))"

definition block_thread :: "string \<Rightarrow> u64 option \<Rightarrow> guest_thread \<Rightarrow> guest_thread" where
  "block_thread wait_key deadline t =
     t\<lparr>th_state := kBlocked, th_wait_key := wait_key, th_wait_deadline := deadline,
       th_timed_out_wait_key := ''''\<rparr>"

definition BlockCurrentLocked ::
  "string \<Rightarrow> u64 option \<Rightarrow> guest_scheduler \<Rightarrow> bool \<times> guest_scheduler" where
  "BlockCurrentLocked wait_key deadline s =
     (if wait_key = '''' then (False, s)
      else case running_thread s of
          None \<Rightarrow> (False, s)
        | Some (h, _) \<Rightarrow>
            (True,
             s\<lparr>threads := om_update h (block_thread wait_key deadline) (threads s),
               current_thread := None\<rparr>))"

definition BlockCurrent :: "string \<Rightarrow> guest_scheduler \<Rightarrow> bool \<times> guest_scheduler" where
  "BlockCurrent wait_key s = BlockCurrentLocked wait_key None s"

definition BlockCurrentUntil ::
  "string \<Rightarrow> u64 \<Rightarrow> guest_scheduler \<Rightarrow> bool \<times> guest_scheduler" where
  "BlockCurrentUntil wait_key deadline_nanoseconds s =
     BlockCurrentLocked wait_key (Some deadline_nanoseconds) s"

definition awaken_thread :: "guest_thread \<Rightarrow> guest_thread" where
  "awaken_thread t =
     t\<lparr>th_state := kReady, th_wait_key := '''', th_wait_deadline := None,
       th_timed_out_wait_key := ''''\<rparr>"

definition blocked_on :: "string \<Rightarrow> guest_thread \<Rightarrow> bool" where
  "blocked_on wait_key t \<longleftrightarrow> th_state t = kBlocked \<and> th_wait_key t = wait_key"

text \<open>The wake loop stops after \<open>remaining\<close> threads; it visits them in handle order.\<close>

fun WakeBlocked_loop ::
  "string \<Rightarrow> nat \<Rightarrow> (u64, guest_thread) omap \<Rightarrow> (u64, guest_thread) omap \<times> u64 list" where
  "WakeBlocked_loop wait_key remaining [] = ([], [])"
| "WakeBlocked_loop wait_key remaining ((handle, thread) # rest) =
     (if remaining = 0 then ((handle, thread) # rest, [])
      else if \<not> blocked_on wait_key thread
      then let (rest', woken) = WakeBlocked_loop wait_key remaining rest
           in ((handle, thread) # rest', woken)
      else let (rest', woken) = WakeBlocked_loop wait_key (remaining - 1) rest
           in ((handle, awaken_thread thread) # rest', handle # woken))"

definition WakeBlockedThreads ::
  "u64 \<Rightarrow> string \<Rightarrow> u64 \<Rightarrow> guest_scheduler \<Rightarrow> nat \<times> guest_scheduler" where
  "WakeBlockedThreads now wait_key maximum_count s =
     (if wait_key = '''' \<or> maximum_count = 0 then (0, s)
      else
        let s1 = WakeExpiredThreadsLocked now s;
            (threads', woken) = WakeBlocked_loop wait_key (unat maximum_count) (threads s1)
        in (length woken,
            s1\<lparr>threads := threads', ready_threads := ready_threads s1 @ woken\<rparr>))"

definition WakeBlockedThread ::
  "u64 \<Rightarrow> u64 \<Rightarrow> string \<Rightarrow> guest_scheduler \<Rightarrow> bool \<times> guest_scheduler" where
  "WakeBlockedThread now handle wait_key s =
     (if handle = kInvalidKernelHandle \<or> wait_key = '''' then (False, s)
      else
        let s1 = WakeExpiredThreadsLocked now s in
        case om_find (threads s1) handle of
          None \<Rightarrow> (False, s1)
        | Some t \<Rightarrow>
            if \<not> blocked_on wait_key t then (False, s1)
            else (True,
                  s1\<lparr>threads := om_update handle awaken_thread (threads s1),
                     ready_threads := ready_threads s1 @ [handle]\<rparr>))"

definition JoinThread :: "u64 \<Rightarrow> guest_scheduler \<Rightarrow> thread_join_result \<times> guest_scheduler" where
  "JoinThread handle s =
     (case om_find (threads s) handle of
        None \<Rightarrow> (\<lparr>tj_status = kNotFound, tj_exit_value = 0\<rparr>, s)
      | Some target \<Rightarrow>
          if th_state target = kExited
          then (\<lparr>tj_status = kOk, tj_exit_value = th_exit_value target\<rparr>, s)
          else case current_thread s of
              None \<Rightarrow> (\<lparr>tj_status = kBusy, tj_exit_value = 0\<rparr>, s)
            | Some caller \<Rightarrow>
                if caller = handle
                then (\<lparr>tj_status = kInvalidArgument, tj_exit_value = 0\<rparr>, s)
                else case running_thread s of
                    None \<Rightarrow> (\<lparr>tj_status = kBusy, tj_exit_value = 0\<rparr>, s)
                  | Some _ \<Rightarrow>
                      (\<lparr>tj_status = kWouldBlock, tj_exit_value = 0\<rparr>,
                       s\<lparr>threads := om_update caller
                                       (block_thread (ThreadExitWaitKey handle) None) (threads s),
                         current_thread := None\<rparr>))"

definition exit_thread :: "u64 \<Rightarrow> guest_thread \<Rightarrow> guest_thread" where
  "exit_thread exit_value t =
     t\<lparr>th_state := kExited, th_wait_key := '''', th_wait_deadline := None,
       th_timed_out_wait_key := '''', th_exit_value := exit_value\<rparr>"

text \<open>The wake loop of \<open>ExitCurrent\<close> has no count.\<close>

fun ExitWake_loop ::
  "string \<Rightarrow> (u64, guest_thread) omap \<Rightarrow> (u64, guest_thread) omap \<times> u64 list" where
  "ExitWake_loop wait_key [] = ([], [])"
| "ExitWake_loop wait_key ((handle, thread) # rest) =
     (let (rest', woken) = ExitWake_loop wait_key rest in
      if \<not> blocked_on wait_key thread then ((handle, thread) # rest', woken)
      else ((handle, awaken_thread thread) # rest', handle # woken))"

definition ExitCurrent :: "u64 \<Rightarrow> guest_scheduler \<Rightarrow> bool \<times> guest_scheduler" where
  "ExitCurrent exit_value s =
     (case running_thread s of
        None \<Rightarrow> (False, s)
      | Some (h, _) \<Rightarrow>
          let threads1 = om_update h (exit_thread exit_value) (threads s);
              (threads2, woken) = ExitWake_loop (ThreadExitWaitKey h) threads1
          in (True,
              s\<lparr>threads := threads2, ready_threads := ready_threads s @ woken,
                current_thread := None\<rparr>))"

definition CurrentThreadTimedOut :: "string \<Rightarrow> guest_scheduler \<Rightarrow> bool" where
  "CurrentThreadTimedOut wait_key s \<longleftrightarrow>
     wait_key \<noteq> '''' \<and>
     (case running_thread s of None \<Rightarrow> False | Some (_, t) \<Rightarrow> th_timed_out_wait_key t = wait_key)"

definition ConsumeCurrentThreadTimeout ::
  "string \<Rightarrow> guest_scheduler \<Rightarrow> bool \<times> guest_scheduler" where
  "ConsumeCurrentThreadTimeout wait_key s =
     (if wait_key = '''' then (False, s)
      else case running_thread s of
          None \<Rightarrow> (False, s)
        | Some (h, t) \<Rightarrow>
            if th_timed_out_wait_key t \<noteq> wait_key then (False, s)
            else (True,
                  s\<lparr>threads := om_update h (\<lambda>t. t\<lparr>th_timed_out_wait_key := ''''\<rparr>) (threads s)\<rparr>))"

definition MakeSnapshot :: "u64 \<Rightarrow> guest_thread \<Rightarrow> thread_snapshot" where
  "MakeSnapshot handle t =
     \<lparr>ts_handle = handle, ts_name = th_name t, ts_priority = th_priority t,
      ts_state = th_state t, ts_wait_key = th_wait_key t, ts_exit_value = th_exit_value t,
      ts_entry_address = th_entry_address t, ts_argument = th_argument t\<rparr>"

definition Snapshot :: "u64 \<Rightarrow> guest_scheduler \<Rightarrow> thread_snapshot option" where
  "Snapshot handle s = map_option (MakeSnapshot handle) (om_find (threads s) handle)"

definition SnapshotAll :: "guest_scheduler \<Rightarrow> thread_snapshot list" where
  "SnapshotAll s = map (\<lambda>(handle, t). MakeSnapshot handle t) (threads s)"

section \<open>The invariant\<close>

definition thread_ok :: "guest_thread \<Rightarrow> bool" where
  "thread_ok t \<longleftrightarrow>
     (if th_state t = kBlocked then th_wait_key t \<noteq> ''''
      else th_wait_key t = '''' \<and> th_wait_deadline t = None)"

definition sched_ok :: "guest_scheduler \<Rightarrow> bool" where
  "sched_ok s \<longleftrightarrow>
     om_ok (threads s) \<and> om_find (threads s) kInvalidKernelHandle = None \<and>
     distinct (ready_threads s) \<and>
     (\<forall>h. h \<in> set (ready_threads s) \<longleftrightarrow>
        (\<exists>t. om_find (threads s) h = Some t \<and> th_state t = kReady)) \<and>
     (\<forall>h. current_thread s = Some h \<longleftrightarrow>
        (\<exists>t. om_find (threads s) h = Some t \<and> th_state t = kRunning)) \<and>
     (\<forall>h t. om_find (threads s) h = Some t \<longrightarrow> thread_ok t)"

text \<open>
  The kernel state: the threads are exactly the table's thread objects, so a fresh handle is
  never the handle of a thread.
\<close>

definition kernel_ok :: "kernel \<Rightarrow> bool" where
  "kernel_ok k \<longleftrightarrow>
     handle_table_ok (handles k) \<and> sched_ok (sched k) \<and>
     (\<forall>h. om_find (objects (handles k)) h = Some ThreadObject \<longleftrightarrow>
        om_find (threads (sched k)) h \<noteq> None)"

lemma sched_okD:
  assumes "sched_ok s"
  shows "om_ok (threads s)" "distinct (ready_threads s)"
    "h \<in> set (ready_threads s) \<longleftrightarrow>
       (\<exists>t. om_find (threads s) h = Some t \<and> th_state t = kReady)"
    "current_thread s = Some h \<longleftrightarrow>
       (\<exists>t. om_find (threads s) h = Some t \<and> th_state t = kRunning)"
    "om_find (threads s) h = Some t \<Longrightarrow> thread_ok t"
    "om_find (threads s) 0 = None"
  using assms unfolding sched_ok_def by blast+

lemma empty_kernel_ok: "kernel_ok empty_kernel"
  by (simp add: kernel_ok_def empty_kernel_def sched_ok_def) (simp add: empty_handle_table_def)

lemma running_thread_Some:
  "running_thread s = Some (h, t) \<longleftrightarrow>
     current_thread s = Some h \<and> om_find (threads s) h = Some t \<and> th_state t = kRunning"
  by (auto simp: running_thread_def split: option.splits if_splits)

lemma running_thread_current:
  "sched_ok s \<Longrightarrow> current_thread s = Some h \<Longrightarrow> \<exists>t. running_thread s = Some (h, t)"
  by (auto simp: running_thread_Some sched_okD(4))

lemma running_thread_None: "sched_ok s \<Longrightarrow> running_thread s = None \<longleftrightarrow> current_thread s = None"
  using running_thread_current [of s] by (auto simp: running_thread_def split: option.splits)

subsection \<open>Waking\<close>

text \<open>
  What every wake loop does: it turns the threads named by \<open>woken\<close>, all of them blocked,
  into ready ones, and leaves the others.
\<close>

definition wake_spec ::
  "(guest_thread \<Rightarrow> guest_thread) \<Rightarrow> (guest_thread \<Rightarrow> bool) \<Rightarrow> (u64, guest_thread) omap \<Rightarrow>
   (u64, guest_thread) omap \<Rightarrow> u64 list \<Rightarrow> bool" where
  "wake_spec upd p ts ts' woken \<longleftrightarrow>
     map fst ts' = map fst ts \<and> sorted_wrt (<) woken \<and>
     (\<forall>h \<in> set woken. \<exists>t. om_find ts h = Some t \<and> p t) \<and>
     (\<forall>h. om_find ts' h = (if h \<in> set woken then map_option upd (om_find ts h) else om_find ts h))"

lemma wake_spec_skip:
  assumes "wake_spec upd p ts ts' woken" "om_ok ((h, t) # ts)"
  shows "wake_spec upd p ((h, t) # ts) ((h, t) # ts') woken"
proof -
  have "h \<notin> set woken"
    using assms by (force simp: wake_spec_def om_ok_Cons dest: om_find_Some_keys)
  with assms show ?thesis
    by (auto simp: wake_spec_def om_find_Cons om_ok_Cons dest!: om_find_Some_keys)
qed

lemma wake_spec_take:
  assumes "wake_spec upd p ts ts' woken" "om_ok ((h, t) # ts)" "p t"
  shows "wake_spec upd p ((h, t) # ts) ((h, upd t) # ts') (h # woken)"
proof -
  have "\<forall>k \<in> set woken. h < k"
    using assms(1,2) by (force simp: wake_spec_def om_ok_Cons dest: om_find_Some_keys)
  with assms show ?thesis
    by (auto simp: wake_spec_def om_find_Cons om_ok_Cons)
qed

lemma wake_spec_refl: "wake_spec upd p ts ts []"
  by (simp add: wake_spec_def)

lemma WakeExpired_loop_spec:
  "om_ok ts \<Longrightarrow> WakeExpired_loop now ts = (ts', woken) \<Longrightarrow>
   wake_spec expire_thread (wait_expired now) ts ts' woken \<and>
   (\<forall>h t. om_find ts h = Some t \<longrightarrow> wait_expired now t \<longrightarrow> h \<in> set woken)"
proof (induction now ts arbitrary: ts' woken rule: WakeExpired_loop.induct)
  case (1 now)
  then show ?case by (simp add: wake_spec_refl)
next
  case (2 now h t ts)
  obtain rest' w where r: "WakeExpired_loop now ts = (rest', w)" by fastforce
  have IH: "wake_spec expire_thread (wait_expired now) ts rest' w"
    "\<forall>h t. om_find ts h = Some t \<longrightarrow> wait_expired now t \<longrightarrow> h \<in> set w"
    using 2(1) [OF _ r] 2(2) by (auto simp: om_ok_Cons)
  show ?case
  proof (cases "wait_expired now t")
    case True
    with 2(3) r have "ts' = (h, expire_thread t) # rest'" "woken = h # w" by auto
    with wake_spec_take [OF IH(1) 2(2) True] IH(2) show ?thesis by (auto simp: om_find_Cons)
  next
    case False
    with 2(3) r have "ts' = (h, t) # rest'" "woken = w" by auto
    with wake_spec_skip [OF IH(1) 2(2)] IH(2) False show ?thesis by (auto simp: om_find_Cons)
  qed
qed

lemma ExitWake_loop_spec:
  "om_ok ts \<Longrightarrow> ExitWake_loop key ts = (ts', woken) \<Longrightarrow>
   wake_spec awaken_thread (blocked_on key) ts ts' woken \<and>
   (\<forall>h t. om_find ts h = Some t \<longrightarrow> blocked_on key t \<longrightarrow> h \<in> set woken)"
proof (induction key ts arbitrary: ts' woken rule: ExitWake_loop.induct)
  case (1 key)
  then show ?case by (simp add: wake_spec_refl)
next
  case (2 key h t ts)
  obtain rest' w where r: "ExitWake_loop key ts = (rest', w)" by fastforce
  have IH: "wake_spec awaken_thread (blocked_on key) ts rest' w"
    "\<forall>h t. om_find ts h = Some t \<longrightarrow> blocked_on key t \<longrightarrow> h \<in> set w"
    using 2(1) [OF _ r] 2(2) by (auto simp: om_ok_Cons)
  show ?case
  proof (cases "blocked_on key t")
    case True
    with 2(3) r have "ts' = (h, awaken_thread t) # rest'" "woken = h # w" by auto
    with wake_spec_take [OF IH(1) 2(2) True] IH(2) show ?thesis by (auto simp: om_find_Cons)
  next
    case False
    with 2(3) r have "ts' = (h, t) # rest'" "woken = w" by auto
    with wake_spec_skip [OF IH(1) 2(2)] IH(2) False show ?thesis by (auto simp: om_find_Cons)
  qed
qed

lemma WakeBlocked_loop_spec:
  "om_ok ts \<Longrightarrow> WakeBlocked_loop key n ts = (ts', woken) \<Longrightarrow>
   wake_spec awaken_thread (blocked_on key) ts ts' woken \<and> length woken \<le> n \<and>
   (length woken < n \<longrightarrow> (\<forall>h t. om_find ts h = Some t \<longrightarrow> blocked_on key t \<longrightarrow> h \<in> set woken)) \<and>
   (\<forall>h t. om_find ts h = Some t \<longrightarrow> blocked_on key t \<longrightarrow> h \<notin> set woken \<longrightarrow>
      (\<forall>w \<in> set woken. w < h))"
proof (induction key n ts arbitrary: ts' woken rule: WakeBlocked_loop.induct)
  case (1 key n)
  then show ?case by (simp add: wake_spec_refl)
next
  case (2 key n h t ts)
  have ok: "om_ok ts" using 2(3) by (simp add: om_ok_Cons)
  have gt: "om_find ts k = Some x \<Longrightarrow> h < k" for k x
    using 2(3) by (auto simp: om_ok_Cons dest: om_find_Some_keys)
  consider "n = 0" | "0 < n" "\<not> blocked_on key t" | "0 < n" "blocked_on key t" by blast
  then show ?case
  proof cases
    case 1
    with 2(4) show ?thesis by (auto simp: wake_spec_refl)
  next
    case 2
    obtain rest' w where r: "WakeBlocked_loop key n ts = (rest', w)" by fastforce
    from 2 "2.prems"(2) r have e: "ts' = (h, t) # rest'" "woken = w" by auto
    from "2.IH"(1) [OF _ _ ok r] 2 have IH:
      "wake_spec awaken_thread (blocked_on key) ts rest' w"
      "length w \<le> n"
      "length w < n \<longrightarrow> (\<forall>h t. om_find ts h = Some t \<longrightarrow> blocked_on key t \<longrightarrow> h \<in> set w)"
      "\<forall>h t. om_find ts h = Some t \<longrightarrow> blocked_on key t \<longrightarrow> h \<notin> set w \<longrightarrow> (\<forall>k \<in> set w. k < h)"
      by auto
    show ?thesis
      using wake_spec_skip [OF IH(1) "2.prems"(1)] IH(2-4) 2 by (simp add: e om_find_Cons)
  next
    case 3
    obtain rest' w where r: "WakeBlocked_loop key (n - 1) ts = (rest', w)" by fastforce
    from 3 "2.prems"(2) r have e: "ts' = (h, awaken_thread t) # rest'" "woken = h # w" by auto
    from "2.IH"(2) [OF _ _ ok r] 3 have IH:
      "wake_spec awaken_thread (blocked_on key) ts rest' w"
      "length w \<le> n - 1"
      "length w < n - 1 \<longrightarrow> (\<forall>h t. om_find ts h = Some t \<longrightarrow> blocked_on key t \<longrightarrow> h \<in> set w)"
      "\<forall>h t. om_find ts h = Some t \<longrightarrow> blocked_on key t \<longrightarrow> h \<notin> set w \<longrightarrow> (\<forall>k \<in> set w. k < h)"
      by auto
    show ?thesis
      using wake_spec_take [OF IH(1) "2.prems"(1) 3(2)] IH(2-4) 3(1)
      by (auto simp: e om_find_Cons dest: gt)
  qed
qed

lemma sched_okI:
  assumes "om_ok (threads s)" "om_find (threads s) 0 = None" "distinct (ready_threads s)"
    "\<And>h. h \<in> set (ready_threads s) \<longleftrightarrow>
       (\<exists>t. om_find (threads s) h = Some t \<and> th_state t = kReady)"
    "\<And>h. current_thread s = Some h \<longleftrightarrow>
       (\<exists>t. om_find (threads s) h = Some t \<and> th_state t = kRunning)"
    "\<And>h t. om_find (threads s) h = Some t \<Longrightarrow> thread_ok t"
  shows "sched_ok s"
  using assms unfolding sched_ok_def by blast

lemma sched_ok_wake:
  assumes ok: "sched_ok s" and w: "wake_spec upd p (threads s) ts' woken"
    and p: "\<And>t. p t \<Longrightarrow> th_state t = kBlocked"
    and u: "\<And>t. thread_ok t \<Longrightarrow> p t \<Longrightarrow> th_state (upd t) = kReady \<and> thread_ok (upd t)"
  shows "sched_ok (s\<lparr>threads := ts', ready_threads := ready_threads s @ woken\<rparr>)"
proof -
  have out: "om_find ts' h = om_find (threads s) h" if "h \<notin> set woken" for h
    using w that by (simp add: wake_spec_def)
  have inn: "\<exists>t. om_find (threads s) h = Some t \<and> th_state t = kBlocked \<and>
      om_find ts' h = Some (upd t) \<and> th_state (upd t) = kReady \<and> thread_ok (upd t)"
    if h: "h \<in> set woken" for h
  proof -
    from w h obtain t where t: "om_find (threads s) h = Some t" "p t"
      by (auto simp: wake_spec_def)
    moreover have "om_find ts' h = Some (upd t)" using w h t by (simp add: wake_spec_def)
    moreover have "thread_ok t" using sched_okD(5) [OF ok t(1)] .
    ultimately show ?thesis using p u by blast
  qed
  have d1: "om_ok ts'" using w sched_okD(1) [OF ok] by (simp add: wake_spec_def om_ok_def)
  have d2: "distinct (ready_threads s @ woken)"
    using w sched_okD(2) [OF ok] inn
    by (force simp: wake_spec_def strict_sorted_iff sched_okD(3) [OF ok])
  have d3: "h \<in> set (ready_threads s @ woken) \<longleftrightarrow>
      (\<exists>t. om_find ts' h = Some t \<and> th_state t = kReady)" for h
    by (cases "h \<in> set woken") (auto simp: out sched_okD(3) [OF ok] dest: inn)
  have d4: "current_thread s = Some h \<longleftrightarrow>
      (\<exists>t. om_find ts' h = Some t \<and> th_state t = kRunning)" for h
    by (cases "h \<in> set woken") (auto simp: out sched_okD(4) [OF ok] dest: inn)
  have d5: "thread_ok t" if "om_find ts' h = Some t" for h t
    using that by (cases "h \<in> set woken") (auto simp: out dest: inn sched_okD(5) [OF ok])
  have d6: "om_find ts' 0 = None"
    using sched_okD(6) [OF ok] out [of 0] by (cases "0 \<in> set woken") (auto dest: inn)
  show ?thesis
    using d1 d2 d3 d4 d5 d6 unfolding sched_ok_def by simp
qed

lemma WakeExpiredThreadsLocked_ok: "sched_ok s \<Longrightarrow> sched_ok (WakeExpiredThreadsLocked now s)"
proof -
  assume ok: "sched_ok s"
  obtain ts' w where l: "WakeExpired_loop now (threads s) = (ts', w)" by fastforce
  have "wake_spec expire_thread (wait_expired now) (threads s) ts' w"
    using WakeExpired_loop_spec [OF sched_okD(1) [OF ok] l] by blast
  from sched_ok_wake [OF ok this] l show ?thesis
    by (simp add: WakeExpiredThreadsLocked_def wait_expired_def expire_thread_def thread_ok_def)
qed

subsection \<open>Every operation keeps the invariant\<close>

lemma sched_ok_unique_running:
  assumes "sched_ok s" "running_thread s = Some (h, t)" "om_find (threads s) h' = Some t'"
    "th_state t' = kRunning"
  shows "h' = h"
  using assms sched_okD(4) [OF assms(1), of h'] by (auto simp: running_thread_Some)

lemma sched_ok_change_running:
  assumes ok: "sched_ok s" and run: "running_thread s = Some (h, t)"
    and f: "thread_ok (f t)" "th_state (f t) \<noteq> kRunning"
  shows "sched_ok (s\<lparr>threads := om_update h f (threads s),
    ready_threads := ready_threads s @ (if th_state (f t) = kReady then [h] else []),
    current_thread := None\<rparr>)"
proof -
  have t: "om_find (threads s) h = Some t" "th_state t = kRunning"
    using run by (auto simp: running_thread_Some)
  have notr: "h \<notin> set (ready_threads s)" using t by (simp add: sched_okD(3) [OF ok])
  have find: "om_find (om_update h f (threads s)) k =
      (if k = h then Some (f t) else om_find (threads s) k)" for k
    using t by (simp add: om_find_update)
  show ?thesis
  proof (rule sched_okI, goal_cases)
    case 1
    then show ?case using sched_okD(1) [OF ok] by simp
  next
    case 2
    then show ?case using sched_okD(6) [OF ok] t by (auto simp: om_find_update)
  next
    case 3
    then show ?case using notr sched_okD(2) [OF ok] by simp
  next
    case (4 k)
    then show ?case
      using t notr by (cases "k = h") (auto simp: find sched_okD(3) [OF ok])
  next
    case (5 k)
    then show ?case
      using f(2) sched_ok_unique_running [OF ok run] by (cases "k = h") (auto simp: find)
  next
    case (6 k x)
    then show ?case
      using f(1) sched_okD(5) [OF ok] by (cases "k = h") (auto simp: find)
  qed
qed

lemma sched_ok_leave_running:
  assumes "sched_ok s" "running_thread s = Some (h, t)"
    "thread_ok (f t)" "th_state (f t) \<noteq> kReady" "th_state (f t) \<noteq> kRunning"
  shows "sched_ok (s\<lparr>threads := om_update h f (threads s), current_thread := None\<rparr>)"
  using sched_ok_change_running [of s h t f] assms by simp

lemma sched_ok_requeue_running:
  assumes "sched_ok s" "running_thread s = Some (h, t)"
    "thread_ok (f t)" "th_state (f t) = kReady"
  shows "sched_ok (s\<lparr>threads := om_update h f (threads s),
    ready_threads := ready_threads s @ [h], current_thread := None\<rparr>)"
  using sched_ok_change_running [of s h t f] assms by simp

lemma running_thread_ok:
  "sched_ok s \<Longrightarrow> running_thread s = Some (h, t) \<Longrightarrow>
   th_state t = kRunning \<and> th_wait_key t = '''' \<and> th_wait_deadline t = None"
  using sched_okD(5) [of s h t] by (auto simp: running_thread_Some thread_ok_def)

lemma YieldCurrent_ok: "sched_ok s \<Longrightarrow> sched_ok (snd (YieldCurrent s))"
  using running_thread_ok [of s]
  by (auto simp: YieldCurrent_def thread_ok_def intro!: sched_ok_requeue_running split: option.splits)

lemma BlockCurrentLocked_ok: "sched_ok s \<Longrightarrow> sched_ok (snd (BlockCurrentLocked key d s))"
  by (auto simp: BlockCurrentLocked_def thread_ok_def block_thread_def
      intro!: sched_ok_leave_running split: option.splits)

lemma SelectNext_loop_hd:
  assumes "\<forall>h \<in> set q. \<exists>t. om_find ts h = Some t \<and> th_state t = kReady"
  shows "SelectNext_loop ts q = (case q of [] \<Rightarrow> (None, []) | h # rest \<Rightarrow> (Some h, rest))"
  using assms by (cases q) auto

lemma SelectNext_cases:
  fixes now :: u64
  assumes ok: "sched_ok s" and c: "current_thread s = None"
  defines "s1 \<equiv> WakeExpiredThreadsLocked now s"
  shows "SelectNext now s =
    (case ready_threads s1 of
       [] \<Rightarrow> (None, s1)
     | h # rest \<Rightarrow>
         (Some h, s1\<lparr>ready_threads := rest,
            threads := om_update h (\<lambda>t. t\<lparr>th_state := kRunning\<rparr>) (threads s1),
            current_thread := Some h\<rparr>))"
proof -
  have "sched_ok s1" unfolding s1_def by (rule WakeExpiredThreadsLocked_ok [OF ok])
  then have "SelectNext_loop (threads s1) (ready_threads s1) =
      (case ready_threads s1 of [] \<Rightarrow> (None, []) | h # rest \<Rightarrow> (Some h, rest))"
    by (intro SelectNext_loop_hd) (auto simp: sched_okD(3))
  with c show ?thesis
    by (cases "ready_threads s1") (simp_all add: SelectNext_def Let_def flip: s1_def)
qed

lemma WakeExpired_current [simp]: "current_thread (WakeExpiredThreadsLocked now s) = current_thread s"
  by (simp add: WakeExpiredThreadsLocked_def split: prod.splits)

lemma SelectNext_ok: "sched_ok s \<Longrightarrow> sched_ok (snd (SelectNext now s))"
proof (cases "current_thread s")
  case None
  assume ok: "sched_ok s"
  let ?s1 = "WakeExpiredThreadsLocked now s"
  have ok1: "sched_ok ?s1" using ok by (rule WakeExpiredThreadsLocked_ok)
  show ?thesis
  proof (cases "ready_threads ?s1")
    case Nil
    with ok1 show ?thesis by (simp add: SelectNext_cases [OF ok None])
  next
    case (Cons h rest)
    then obtain t where t: "om_find (threads ?s1) h = Some t" "th_state t = kReady"
      using sched_okD(3) [OF ok1, of h] by auto
    have nr: "th_state x \<noteq> kRunning" if "om_find (threads ?s1) k = Some x" for k x
      using that sched_okD(4) [OF ok1, of k] None by auto
    have tok: "thread_ok (t\<lparr>th_state := kRunning\<rparr>)"
      using sched_okD(5) [OF ok1 t(1)] t(2) by (simp add: thread_ok_def)
    have mem: "k \<in> set rest \<longleftrightarrow> k \<noteq> h \<and> (\<exists>t. om_find (threads ?s1) k = Some t \<and> th_state t = kReady)"
      for k using sched_okD(2) [OF ok1] sched_okD(3) [OF ok1, of k] Cons by auto
    have "distinct rest" using sched_okD(2) [OF ok1] Cons by simp
    then have "sched_ok (?s1\<lparr>ready_threads := rest,
        threads := om_update h (\<lambda>t. t\<lparr>th_state := kRunning\<rparr>) (threads ?s1),
        current_thread := Some h\<rparr>)"
      using t tok nr mem sched_okD(1,5,6) [OF ok1] unfolding sched_ok_def
      by (auto simp: om_find_update)
    with Cons show ?thesis by (simp add: SelectNext_cases [OF ok None])
  qed
next
  case (Some h)
  then show "sched_ok s \<Longrightarrow> ?thesis" by (simp add: SelectNext_def)
qed

lemma blocked_on_awaken:
  "blocked_on key t \<Longrightarrow> th_state t = kBlocked"
  "th_state (awaken_thread t) = kReady" "thread_ok (awaken_thread t)"
  by (simp_all add: blocked_on_def awaken_thread_def thread_ok_def)

lemma WakeBlockedThreads_ok: "sched_ok s \<Longrightarrow> sched_ok (snd (WakeBlockedThreads now key n s))"
proof -
  assume ok: "sched_ok s"
  let ?s1 = "WakeExpiredThreadsLocked now s"
  have ok1: "sched_ok ?s1" using ok by (rule WakeExpiredThreadsLocked_ok)
  obtain ts' w where l: "WakeBlocked_loop key (unat n) (threads ?s1) = (ts', w)" by fastforce
  have "wake_spec awaken_thread (blocked_on key) (threads ?s1) ts' w"
    using WakeBlocked_loop_spec [OF sched_okD(1) [OF ok1] l] by blast
  from sched_ok_wake [OF ok1 this] ok l show ?thesis
    by (simp add: WakeBlockedThreads_def blocked_on_awaken Let_def)
qed

lemma WakeBlockedThread_ok: "sched_ok s \<Longrightarrow> sched_ok (snd (WakeBlockedThread now h key s))"
proof -
  assume ok: "sched_ok s"
  let ?s1 = "WakeExpiredThreadsLocked now s"
  have ok1: "sched_ok ?s1" using ok by (rule WakeExpiredThreadsLocked_ok)
  have "wake_spec awaken_thread (blocked_on key) (threads ?s1)
      (om_update h awaken_thread (threads ?s1)) [h]"
    if "om_find (threads ?s1) h = Some t" "blocked_on key t" for t
    using that by (auto simp: wake_spec_def om_find_update)
  with sched_ok_wake [OF ok1, of awaken_thread "blocked_on key"] ok ok1 show ?thesis
    by (auto simp: WakeBlockedThread_def blocked_on_awaken Let_def split: option.splits)
qed

lemma ThreadExitWaitKey_nonempty [simp]: "ThreadExitWaitKey h \<noteq> ''''"
  by (simp add: ThreadExitWaitKey_def)

lemma JoinThread_ok: "sched_ok s \<Longrightarrow> sched_ok (snd (JoinThread h s))"
  by (auto simp: JoinThread_def thread_ok_def block_thread_def running_thread_Some
      intro!: sched_ok_leave_running split: option.splits)

lemma ExitCurrent_cases:
  assumes ok: "sched_ok s" and run: "running_thread s = Some (h, t)"
  obtains ts' woken where
    "ExitWake_loop (ThreadExitWaitKey h) (om_update h (exit_thread v) (threads s)) = (ts', woken)"
    "ExitCurrent v s = (True, s\<lparr>threads := ts', ready_threads := ready_threads s @ woken,
       current_thread := None\<rparr>)"
    "wake_spec awaken_thread (blocked_on (ThreadExitWaitKey h))
       (om_update h (exit_thread v) (threads s)) ts' woken"
    "\<forall>k t. om_find (om_update h (exit_thread v) (threads s)) k = Some t \<longrightarrow>
       blocked_on (ThreadExitWaitKey h) t \<longrightarrow> k \<in> set woken"
proof -
  obtain ts' woken where l:
    "ExitWake_loop (ThreadExitWaitKey h) (om_update h (exit_thread v) (threads s)) = (ts', woken)"
    by fastforce
  have "om_ok (om_update h (exit_thread v) (threads s))" using sched_okD(1) [OF ok] by simp
  note spec = ExitWake_loop_spec [OF this l]
  show thesis
    by (rule that [OF l]) (use spec run l in \<open>auto simp: ExitCurrent_def Let_def\<close>)
qed

lemma ExitCurrent_ok: "sched_ok s \<Longrightarrow> sched_ok (snd (ExitCurrent v s))"
proof (cases "running_thread s")
  case None
  then show "sched_ok s \<Longrightarrow> ?thesis" by (simp add: ExitCurrent_def)
next
  case (Some p)
  assume ok: "sched_ok s"
  obtain h t where run: "running_thread s = Some (h, t)" using Some by (cases p) auto
  let ?s1 = "s\<lparr>threads := om_update h (exit_thread v) (threads s), current_thread := None\<rparr>"
  have ok1: "sched_ok ?s1"
    using ok run by (rule sched_ok_leave_running) (simp_all add: exit_thread_def thread_ok_def)
  obtain ts' w where e: "ExitCurrent v s =
        (True, s\<lparr>threads := ts', ready_threads := ready_threads s @ w, current_thread := None\<rparr>)"
    and w: "wake_spec awaken_thread (blocked_on (ThreadExitWaitKey h))
      (om_update h (exit_thread v) (threads s)) ts' w"
    using ExitCurrent_cases [OF ok run] by metis
  have "sched_ok (?s1\<lparr>threads := ts', ready_threads := ready_threads ?s1 @ w\<rparr>)"
    by (rule sched_ok_wake [OF ok1, of awaken_thread "blocked_on (ThreadExitWaitKey h)"])
      (use w in \<open>simp_all add: blocked_on_awaken\<close>)
  moreover have "?s1\<lparr>threads := ts', ready_threads := ready_threads ?s1 @ w\<rparr> =
      s\<lparr>threads := ts', ready_threads := ready_threads s @ w, current_thread := None\<rparr>"
    by (rule guest_scheduler.equality) simp_all
  ultimately show ?thesis by (simp only: e snd_conv)
qed

lemma ConsumeCurrentThreadTimeout_ok:
  "sched_ok s \<Longrightarrow> sched_ok (snd (ConsumeCurrentThreadTimeout key s))"
  by (auto simp: ConsumeCurrentThreadTimeout_def sched_ok_def om_find_update running_thread_Some
      thread_ok_def split: option.splits)

end
