(* ===== verification/Wait_Queue.thy ===== *)
theory Wait_Queue
  imports Scheduler
begin

text \<open>
  The scheduler seen from its clients: how an operation changes the set of threads waiting on a
  key, the kernel state with the handle table, the step relation of the whole scheduler with
  its reachable states, and the locale \<open>wait_queue\<close>, the contract the synchronisation
  services rely on, with its interpretation.
\<close>

section \<open>Waiting threads\<close>

definition waiters :: "guest_scheduler \<Rightarrow> string \<Rightarrow> u64 set" where
  "waiters s key = {h. \<exists>t. om_find (threads s) h = Some t \<and> blocked_on key t}"

text \<open>The default argument of \<open>WakeBlockedThreads\<close>: wake every thread waiting on the key.\<close>

definition WakeAllBlocked :: "u64 \<Rightarrow> string \<Rightarrow> guest_scheduler \<Rightarrow> guest_scheduler" where
  "WakeAllBlocked now key s = snd (WakeBlockedThreads now key u64_max s)"

lemma WakeExpired_cases:
  assumes ok: "sched_ok s"
  obtains ts' woken where
    "WakeExpiredThreadsLocked now s = s\<lparr>threads := ts', ready_threads := ready_threads s @ woken\<rparr>"
    "wake_spec expire_thread (wait_expired now) (threads s) ts' woken"
    "\<forall>h t. om_find (threads s) h = Some t \<longrightarrow> wait_expired now t \<longrightarrow> h \<in> set woken"
proof -
  obtain ts' w where l: "WakeExpired_loop now (threads s) = (ts', w)" by fastforce
  have "WakeExpiredThreadsLocked now s = s\<lparr>threads := ts', ready_threads := ready_threads s @ w\<rparr>"
    using l by (simp add: WakeExpiredThreadsLocked_def)
  with WakeExpired_loop_spec [OF sched_okD(1) [OF ok] l] that show thesis by blast
qed

lemma WakeBlocked_cases:
  assumes ok: "sched_ok s" and key: "key \<noteq> ''''" "n \<noteq> 0"
  obtains ts' woken s1 where "s1 = WakeExpiredThreadsLocked now s" "sched_ok s1"
    "WakeBlockedThreads now key n s =
       (length woken, s1\<lparr>threads := ts', ready_threads := ready_threads s1 @ woken\<rparr>)"
    "WakeBlocked_loop key (unat n) (threads s1) = (ts', woken)"
    "wake_spec awaken_thread (blocked_on key) (threads s1) ts' woken"
proof -
  let ?s1 = "WakeExpiredThreadsLocked now s"
  have ok1: "sched_ok ?s1" by (rule WakeExpiredThreadsLocked_ok [OF ok])
  obtain ts' w where l: "WakeBlocked_loop key (unat n) (threads ?s1) = (ts', w)" by fastforce
  show thesis
    by (rule that [OF refl ok1 _ l])
      (use l key WakeBlocked_loop_spec [OF sched_okD(1) [OF ok1] l] in
        \<open>simp_all add: WakeBlockedThreads_def Let_def\<close>)
qed

lemma waiters_expired:
  assumes ok: "sched_ok s"
  shows "waiters (WakeExpiredThreadsLocked now s) key =
    {h. \<exists>t. om_find (threads s) h = Some t \<and> blocked_on key t \<and> \<not> wait_expired now t}"
proof -
  obtain ts' w where s1: "WakeExpiredThreadsLocked now s =
      s\<lparr>threads := ts', ready_threads := ready_threads s @ w\<rparr>"
    and spec: "wake_spec expire_thread (wait_expired now) (threads s) ts' w"
    and all: "\<forall>h t. om_find (threads s) h = Some t \<longrightarrow> wait_expired now t \<longrightarrow> h \<in> set w"
    using WakeExpired_cases [OF ok, of now] by metis
  have find: "om_find ts' h = (if h \<in> set w then map_option expire_thread (om_find (threads s) h)
      else om_find (threads s) h)" for h
    using spec by (simp add: wake_spec_def)
  have mem: "h \<in> set w \<longleftrightarrow> (\<exists>t. om_find (threads s) h = Some t \<and> wait_expired now t)" for h
    using spec all by (auto simp: wake_spec_def)
  show ?thesis
  proof (rule set_eqI)
    fix h
    show "h \<in> waiters (WakeExpiredThreadsLocked now s) key \<longleftrightarrow>
      h \<in> {h. \<exists>t. om_find (threads s) h = Some t \<and> blocked_on key t \<and> \<not> wait_expired now t}"
      by (cases "om_find (threads s) h")
        (simp_all add: waiters_def s1 find mem blocked_on_def expire_thread_def)
  qed
qed

text \<open>
  A count of \<open>std::numeric_limits<std::size_t>::max()\<close> never stops the wake loop early: there
  are fewer non-zero handles than that below any thread that is left.
\<close>

lemma wake_count_suffices:
  assumes ok: "sched_ok s" and l: "WakeBlocked_loop key (unat (u64_max :: u64)) (threads s) = (ts', w)"
    and h: "om_find (threads s) h = Some t" "blocked_on key t"
  shows "h \<in> set w"
proof (rule ccontr)
  assume out: "h \<notin> set w"
  note spec = WakeBlocked_loop_spec [OF sched_okD(1) [OF ok] l]
  have sp: "wake_spec awaken_thread (blocked_on key) (threads s) ts' w" using spec by blast
  have below: "\<forall>k \<in> set w. k < h" using spec h out by blast
  have "\<not> length w < unat (u64_max :: u64)" using spec h out by blast
  then have big: "18446744073709551615 \<le> length w" by simp
  have "0 \<notin> set w" using sp sched_okD(6) [OF ok] by (auto simp: wake_spec_def)
  moreover have dist: "distinct w" using sp by (simp add: wake_spec_def strict_sorted_iff)
  ultimately have "unat ` set w \<subseteq> {1..<unat h}"
    using below by (auto simp: word_less_nat_alt Suc_le_eq unat_gt_0)
  then have "card (unat ` set w) \<le> unat h - 1" using card_mono [of "{1..<unat h}"] by fastforce
  moreover have "card (unat ` set w) = length w"
    using dist by (metis card_image distinct_card inj_on_def unat_eq_iff)
  ultimately show False using big unat_u64_less [of h] by linarith
qed

lemma waiters_WakeAllBlocked:
  assumes ok: "sched_ok s" and key: "key \<noteq> ''''"
  shows "waiters (WakeAllBlocked now key s) k =
    (if k = key then {} else waiters (WakeExpiredThreadsLocked now s) k)"
proof -
  have "(u64_max :: u64) \<noteq> 0" by simp
  from WakeBlocked_cases [OF ok key this, of now] obtain ts' w s1 where
    s1: "s1 = WakeExpiredThreadsLocked now s" "sched_ok s1"
    and e: "WakeBlockedThreads now key u64_max s =
       (length w, s1\<lparr>threads := ts', ready_threads := ready_threads s1 @ w\<rparr>)"
    and l: "WakeBlocked_loop key (unat (u64_max :: u64)) (threads s1) = (ts', w)"
    and sp: "wake_spec awaken_thread (blocked_on key) (threads s1) ts' w" by metis
  have find: "om_find ts' h = (if h \<in> set w then map_option awaken_thread (om_find (threads s1) h)
      else om_find (threads s1) h)" for h
    using sp by (simp add: wake_spec_def)
  have "h \<in> set w \<longleftrightarrow> (\<exists>t. om_find (threads s1) h = Some t \<and> blocked_on key t)" for h
    using sp wake_count_suffices [OF s1(2) l] by (auto simp: wake_spec_def)
  then show ?thesis
    by (auto simp: WakeAllBlocked_def e waiters_def find s1(1) [symmetric] blocked_on_def
        awaken_thread_def split: if_splits)
qed

lemma WakeAllBlocked_ok: "sched_ok s \<Longrightarrow> sched_ok (WakeAllBlocked now key s)"
  by (simp add: WakeAllBlocked_def WakeBlockedThreads_ok)

lemma WakeAllBlocked_current [simp]: "current_thread (WakeAllBlocked now key s) = current_thread s"
  by (simp add: WakeAllBlocked_def WakeBlockedThreads_def Let_def split: prod.splits)

lemma waiters_expired_subset:
  "sched_ok s \<Longrightarrow> waiters (WakeExpiredThreadsLocked now s) key \<subseteq> waiters s key"
  by (auto simp: waiters_expired) (auto simp: waiters_def)

lemma waiters_WakeAllBlocked_subset:
  assumes ok: "sched_ok s"
  shows "waiters (WakeAllBlocked now key s) k \<subseteq> waiters s k"
proof (cases "key = ''''")
  case True
  then show ?thesis by (simp add: WakeAllBlocked_def WakeBlockedThreads_def)
next
  case False
  then show ?thesis
    using waiters_WakeAllBlocked [OF ok False] waiters_expired_subset [OF ok] by auto
qed

lemma BlockCurrentLocked_running:
  assumes "sched_ok s" "key \<noteq> ''''" "current_thread s = Some h"
  shows "\<exists>t. om_find (threads s) h = Some t \<and> th_state t = kRunning \<and>
    BlockCurrentLocked key d s =
       (True, s\<lparr>threads := om_update h (block_thread key d) (threads s), current_thread := None\<rparr>)"
proof -
  obtain t where "running_thread s = Some (h, t)"
    using running_thread_current [OF assms(1,3)] by blast
  then show ?thesis using assms(2) by (auto simp: BlockCurrentLocked_def running_thread_Some [symmetric])
      (auto simp: running_thread_Some)
qed

lemma BlockCurrentLocked_idle:
  "current_thread s = None \<Longrightarrow> BlockCurrentLocked key d s = (False, s)"
  by (simp add: BlockCurrentLocked_def running_thread_def)

lemma BlockCurrentLocked_empty_key [simp]: "BlockCurrentLocked '''' d s = (False, s)"
  by (simp add: BlockCurrentLocked_def)

lemma BlockCurrentLocked_iff:
  "sched_ok s \<Longrightarrow> fst (BlockCurrentLocked key d s) \<longleftrightarrow> key \<noteq> '''' \<and> current_thread s \<noteq> None"
  using BlockCurrentLocked_running [of s key _ d]
  by (cases "key = ''''"; cases "current_thread s") (auto simp: BlockCurrentLocked_idle)

lemma BlockCurrentLocked_fails: "BlockCurrentLocked key d s = (False, s') \<Longrightarrow> s' = s"
  by (auto simp: BlockCurrentLocked_def split: if_splits option.splits)

lemma waiters_BlockCurrentLocked:
  assumes ok: "sched_ok s" and b: "BlockCurrentLocked key d s = (True, s')"
  obtains h where "current_thread s = Some h" "current_thread s' = None" "key \<noteq> ''''"
    "\<And>k. waiters s' k = (if k = key then insert h (waiters s k) else waiters s k)"
proof -
  have key: "key \<noteq> ''''" and "current_thread s \<noteq> None"
    using BlockCurrentLocked_iff [OF ok, of key d] b by simp_all
  then obtain h where c: "current_thread s = Some h" by blast
  obtain t where t: "om_find (threads s) h = Some t" "th_state t = kRunning"
    and s': "s' = s\<lparr>threads := om_update h (block_thread key d) (threads s), current_thread := None\<rparr>"
    using BlockCurrentLocked_running [OF ok key c, of d] b by auto
  have "waiters s' k = (if k = key then insert h (waiters s k) else waiters s k)" for k
    using t by (auto simp: waiters_def s' om_find_update block_thread_def blocked_on_def)
  with that c key s' show thesis by simp
qed

section \<open>The wait queue interface\<close>

text \<open>
  What a synchronisation service relies on. A thread that blocks on a key waits on that key
  and on nothing else; waking a key leaves nobody waiting on it and makes nobody wait; a
  block that is refused changes nothing and happens only when no thread runs.
\<close>

locale wait_queue =
  fixes waiting :: "'s \<Rightarrow> 'k \<Rightarrow> 'h set"
    and runner :: "'s \<Rightarrow> 'h option"
    and block :: "'k \<Rightarrow> 's \<Rightarrow> bool \<times> 's"
    and wake_all :: "'k \<Rightarrow> 's \<Rightarrow> 's"
    and valid_key :: "'k \<Rightarrow> bool"
    and ok :: "'s \<Rightarrow> bool"
  assumes block_ok: "ok s \<Longrightarrow> block key s = (b, s') \<Longrightarrow> ok s'"
    and wake_ok: "ok s \<Longrightarrow> ok (wake_all key s)"
    and block_waiting: "ok s \<Longrightarrow> block key s = (True, s') \<Longrightarrow>
        waiting s' k = (if k = key then waiting s k \<union> set_option (runner s) else waiting s k)"
    and block_runner: "ok s \<Longrightarrow> block key s = (True, s') \<Longrightarrow> runner s \<noteq> None \<and> runner s' = None"
    and block_fails: "block key s = (False, s') \<Longrightarrow> s' = s"
    and block_runs: "ok s \<Longrightarrow> valid_key key \<Longrightarrow> runner s = Some h \<Longrightarrow> fst (block key s)"
    and wake_waiting: "ok s \<Longrightarrow> valid_key key \<Longrightarrow> waiting (wake_all key s) key = {}"
    and wake_others: "ok s \<Longrightarrow> waiting (wake_all key s) k \<subseteq> waiting s k"
    and wake_runner: "runner (wake_all key s) = runner s"
begin

lemma waiter_is_woken:
  assumes "ok s" "valid_key key" "runner s = Some h" "block key s = (b, s')"
  shows "b" "h \<in> waiting s' key" "waiting (wake_all key s') key = {}"
proof -
  show b: "b" using block_runs [OF assms(1-3)] assms(4) by simp
  with assms(4) have blk: "block key s = (True, s')" by simp
  show "h \<in> waiting s' key" using block_waiting [OF assms(1) blk] assms(3) by simp
  show "waiting (wake_all key s') key = {}"
    using wake_waiting [OF block_ok [OF assms(1) blk] assms(2)] .
qed

lemma block_new_waiter:
  assumes "ok s" "block key s = (b, s')" "h \<in> waiting s' k"
  shows "h \<in> waiting s k \<or> (b \<and> k = key \<and> runner s = Some h)"
proof (cases b)
  case True
  with assms block_waiting [of s key s' k] show ?thesis by (auto split: if_splits)
next
  case False
  with assms block_fails [of key s s'] show ?thesis by simp
qed

end

interpretation wq: wait_queue waiters current_thread "\<lambda>key. BlockCurrentLocked key d"
  "WakeAllBlocked now" "\<lambda>key. key \<noteq> ''''" sched_ok for d :: "u64 option" and now :: u64
proof (unfold_locales, goal_cases)
  case (1 s key b s')
  then show ?case using BlockCurrentLocked_ok [of s key d] by simp
next
  case (2 s key)
  then show ?case by (rule WakeAllBlocked_ok)
next
  case (3 s key s' k)
  then obtain h where "current_thread s = Some h"
    "waiters s' k = (if k = key then insert h (waiters s k) else waiters s k)"
    using waiters_BlockCurrentLocked by metis
  then show ?case by simp
next
  case (4 s key s')
  then show ?case using waiters_BlockCurrentLocked by (metis option.distinct(1))
next
  case (5 key s s')
  then show ?case by (rule BlockCurrentLocked_fails)
next
  case (6 s key h)
  then show ?case by (simp add: BlockCurrentLocked_iff)
next
  case (7 s key)
  then show ?case by (simp add: waiters_WakeAllBlocked)
next
  case (8 s key k)
  then show ?case by (rule waiters_WakeAllBlocked_subset)
next
  case (9 key s)
  then show ?case by simp
qed

section \<open>The kernel state\<close>

lemma WakeExpired_loop_fst: "map fst (fst (WakeExpired_loop now ts)) = map fst ts"
  by (induction now ts rule: WakeExpired_loop.induct) (auto simp: Let_def split: prod.splits)

lemma WakeBlocked_loop_fst: "map fst (fst (WakeBlocked_loop key n ts)) = map fst ts"
  by (induction key n ts rule: WakeBlocked_loop.induct) (auto simp: Let_def split: prod.splits)

lemma ExitWake_loop_fst: "map fst (fst (ExitWake_loop key ts)) = map fst ts"
  by (induction key ts rule: ExitWake_loop.induct) (auto simp: Let_def split: prod.splits)

lemma om_keys_cong: "map fst m = map fst m' \<Longrightarrow> om_keys m = om_keys m'"
  by (simp only: om_keys_def)

lemma thread_keys_expired [simp]:
  "om_keys (threads (WakeExpiredThreadsLocked now s)) = om_keys (threads s)"
  using om_keys_cong [OF WakeExpired_loop_fst, of now "threads s"]
  by (simp add: WakeExpiredThreadsLocked_def case_prod_beta)

lemma thread_keys_wake [simp]:
  "om_keys (threads (snd (WakeBlockedThreads now key n s))) = om_keys (threads s)"
  using om_keys_cong [OF WakeBlocked_loop_fst, of key "unat n" "threads (WakeExpiredThreadsLocked now s)"]
  by (simp add: WakeBlockedThreads_def Let_def case_prod_beta)

lemma thread_keys_select [simp]: "om_keys (threads (snd (SelectNext now s))) = om_keys (threads s)"
  by (simp add: SelectNext_def Let_def split: prod.splits option.splits)

lemma thread_keys_yield [simp]: "om_keys (threads (snd (YieldCurrent s))) = om_keys (threads s)"
  by (simp add: YieldCurrent_def split: option.splits)

lemma thread_keys_block [simp]:
  "om_keys (threads (snd (BlockCurrentLocked key d s))) = om_keys (threads s)"
  by (simp add: BlockCurrentLocked_def split: option.splits)

lemma thread_keys_wake_one [simp]:
  "om_keys (threads (snd (WakeBlockedThread now h key s))) = om_keys (threads s)"
  by (simp add: WakeBlockedThread_def Let_def split: option.splits)

lemma thread_keys_join [simp]: "om_keys (threads (snd (JoinThread h s))) = om_keys (threads s)"
  by (simp add: JoinThread_def split: option.splits)

lemma thread_keys_exit [simp]: "om_keys (threads (snd (ExitCurrent v s))) = om_keys (threads s)"
proof (cases "running_thread s")
  case (Some p)
  then show ?thesis
    using om_keys_cong [OF ExitWake_loop_fst, of "ThreadExitWaitKey (fst p)"
        "om_update (fst p) (exit_thread v) (threads s)"]
    by (simp add: ExitCurrent_def Let_def case_prod_beta)
qed (simp add: ExitCurrent_def)

lemma thread_keys_consume [simp]:
  "om_keys (threads (snd (ConsumeCurrentThreadTimeout key s))) = om_keys (threads s)"
  by (simp add: ConsumeCurrentThreadTimeout_def split: option.splits)

lemma kernel_okD:
  assumes "kernel_ok k"
  shows "handle_table_ok (handles k)" "sched_ok (sched k)"
    "om_find (objects (handles k)) h = Some ThreadObject \<longleftrightarrow> h \<in> om_keys (threads (sched k))"
  using assms by (auto simp: kernel_ok_def om_keys_find)

lemma kernel_okI:
  assumes "handle_table_ok (handles k)" "sched_ok (sched k)"
    "\<And>h. om_find (objects (handles k)) h = Some ThreadObject \<longleftrightarrow> h \<in> om_keys (threads (sched k))"
  shows "kernel_ok k"
  using assms by (auto simp: kernel_ok_def om_keys_find)

lemma kernel_ok_sched:
  assumes "kernel_ok k" "sched_ok s'" "om_keys (threads s') = om_keys (threads (sched k))"
  shows "kernel_ok (k\<lparr>sched := s'\<rparr>)"
  by (rule kernel_okI) (use assms kernel_okD(1,3) [OF assms(1)] in simp_all)

lemma kernel_ok_insert:
  assumes ok: "kernel_ok k" and ob: "ob \<noteq> ThreadObject"
    and ins: "HandleTable_Insert (Some ob) (handles k) = (r, t)"
  shows "kernel_ok (k\<lparr>handles := t\<rparr>)"
proof (rule kernel_okI, goal_cases)
  case 1
  then show ?case using HandleTable_Insert_ok [OF kernel_okD(1) [OF ok] ins] by simp
next
  case 2
  then show ?case using kernel_okD(2) [OF ok] by simp
next
  case (3 h)
  show ?case
  proof (cases r)
    case None
    then have "t = handles k" using ins ht.insert_fails by blast
    then show ?thesis using kernel_okD(3) [OF ok, of h] by simp
  next
    case (Some h')
    note f = HandleTable_Insert_find [OF kernel_okD(1) [OF ok] ins [unfolded Some]]
    show ?thesis
      using f(1) [of h] f(3) ob kernel_okD(3) [OF ok, of h] by (cases "h = h'") auto
  qed
qed

lemma kernel_ok_remove:
  assumes ok: "kernel_ok k" and ty: "ty \<noteq> kThread"
    and rm: "HandleTable_Remove h ty (handles k) = (r, t)"
  shows "kernel_ok (k\<lparr>handles := t\<rparr>)"
proof (rule kernel_okI, goal_cases)
  case 1
  then show ?case using HandleTable_Remove_ok [OF kernel_okD(1) [OF ok], of h ty] rm by simp
next
  case 2
  then show ?case using kernel_okD(2) [OF ok] by simp
next
  case (3 x)
  then show ?case
    using rm ty kernel_okD(3) [OF ok, of x]
    by (cases r) (auto simp: HandleTable_Remove_Some HandleTable_Find_Some om_find_erase
        dest: HandleTable_Remove_NoneD)
qed

lemma kernel_ok_store:
  assumes ok: "kernel_ok k" and f: "HandleTable_Find h ty (handles k) = Some ob"
    and ty: "ty \<noteq> kThread" "object_type ob' = ty"
  shows "kernel_ok (k\<lparr>handles := store_object h ob' (handles k)\<rparr>)"
proof (rule kernel_okI, goal_cases)
  case 1
  then show ?case using kernel_okD(1) [OF ok] by simp
next
  case 2
  then show ?case using kernel_okD(2) [OF ok] by simp
next
  case (3 x)
  have "ob \<noteq> ThreadObject" "ob' \<noteq> ThreadObject" using f ty by (auto simp: HandleTable_Find_Some)
  then show ?case
    using f kernel_okD(3) [OF ok, of x]
    by (cases "x = h") (auto simp: om_find_store_object HandleTable_Find_Some)
qed

lemma kernel_ok_CreateThread:
  assumes ok: "kernel_ok k"
  shows "kernel_ok (snd (CreateThread name priority entry arg k))"
proof (cases "length name > kMaximumGuestThreadNameLength")
  case True
  with ok show ?thesis by (simp add: CreateThread_def)
next
  case False
  obtain r t where ins: "HandleTable_Insert (Some ThreadObject) (handles k) = (r, t)" by fastforce
  show ?thesis
  proof (cases r)
    case None
    with ins have "t = handles k" using ht.insert_fails by blast
    with None ins False ok show ?thesis by (simp add: CreateThread_def)
  next
    case (Some h)
    note ins = ins [unfolded Some]
    note f = HandleTable_Insert_find [OF kernel_okD(1) [OF ok] ins]
    let ?s = "sched k"
    let ?t = "new_thread name priority entry arg"
    let ?s' = "?s\<lparr>threads := om_emplace h ?t (threads ?s), ready_threads := ready_threads ?s @ [h]\<rparr>"
    have fresh: "om_find (threads ?s) h = None"
      using f(3) kernel_okD(3) [OF ok, of h] om_find_None_iff [of "threads ?s" h] by simp
    note so = sched_okD [OF kernel_okD(2) [OF ok]]
    have "sched_ok ?s'"
    proof (rule sched_okI, goal_cases)
      case 3
      then show ?case using so(2) so(3) [of h] fresh by simp
    next
      case (4 x)
      then show ?case
        using so(3) [of x] fresh by (cases "x = h") (simp_all add: om_find_emplace new_thread_def)
    next
      case (5 x)
      then show ?case
        using so(4) [of x] fresh by (cases "x = h") (simp_all add: om_find_emplace new_thread_def)
    next
      case (6 x u)
      then show ?case
        using so(5) [of x u] fresh
        by (cases "x = h") (auto simp: om_find_emplace new_thread_def thread_ok_def)
    qed (use so(1,6) f(2) in \<open>simp_all add: om_find_emplace\<close>)
    moreover have "handle_table_ok t" using HandleTable_Insert_ok [OF kernel_okD(1) [OF ok] ins] .
    moreover have "om_find (objects t) x = Some ThreadObject \<longleftrightarrow> x \<in> om_keys (threads ?s')" for x
      using f(1) [of x] kernel_okD(3) [OF ok, of x] by auto
    ultimately show ?thesis
      using False ins by (simp add: CreateThread_def kernel_okI)
  qed
qed

lemma kernel_ok_DiscardReadyThread:
  assumes ok: "kernel_ok k"
  shows "kernel_ok (snd (DiscardReadyThread h k))"
proof (cases "fst (DiscardReadyThread h k)")
  case False
  with ok show ?thesis
    by (auto simp: DiscardReadyThread_def split: option.splits if_splits prod.splits)
next
  case True
  let ?s = "sched k"
  from True obtain u t ob where u: "om_find (threads ?s) h = Some u" "th_state u = kReady"
    and rm: "HandleTable_Remove h kThread (handles k) = (Some ob, t)"
    by (auto simp: DiscardReadyThread_def split: option.splits if_splits prod.splits)
  let ?s' = "?s\<lparr>ready_threads := filter (\<lambda>x. x \<noteq> h) (ready_threads ?s),
    threads := om_erase h (threads ?s)\<rparr>"
  have e: "snd (DiscardReadyThread h k) = k\<lparr>handles := t, sched := ?s'\<rparr>"
    using u rm by (simp add: DiscardReadyThread_def)
  note so = sched_okD [OF kernel_okD(2) [OF ok]]
  have cur: "current_thread ?s \<noteq> Some h" using so(4) [of h] u by simp
  have "sched_ok ?s'"
  proof (rule sched_okI, goal_cases)
    case (4 x)
    then show ?case using so(3) [of x] by (simp add: om_find_erase)
  next
    case (5 x)
    then show ?case using so(4) [of x] cur by (cases "x = h") (simp_all add: om_find_erase)
  next
    case (6 x v)
    then show ?case using so(5) [of x v] by (simp add: om_find_erase split: if_splits)
  qed (use so(1,2,6) in \<open>simp_all add: om_find_erase\<close>)
  moreover have "handle_table_ok t"
    using HandleTable_Remove_ok [OF kernel_okD(1) [OF ok], of h kThread] rm by simp
  moreover have "om_find (objects t) x = Some ThreadObject \<longleftrightarrow> x \<in> om_keys (threads ?s')" for x
    using rm kernel_okD(3) [OF ok, of x]
    by (auto simp: HandleTable_Remove_Some om_find_erase)
  ultimately show ?thesis by (simp only: e) (rule kernel_okI, simp_all)
qed

end
