(* ===== verification/Scheduler_Behaviour.thy ===== *)
theory Scheduler_Behaviour
  imports Wait_Queue
begin

text \<open>
  What the scheduler does, operation by operation: the first-in first-out choice of the next
  thread, exactly which threads a wake makes ready and in which order, the hand-over from an
  exiting thread to its joiners, timeouts, and the round-robin progress of every ready thread.
\<close>

section \<open>Closed forms of the loops\<close>

definition expired_handles :: "u64 \<Rightarrow> guest_scheduler \<Rightarrow> u64 list" where
  "expired_handles now s = map fst (filter (\<lambda>(h, t). wait_expired now t) (threads s))"

definition waiting_handles :: "u64 \<Rightarrow> string \<Rightarrow> guest_scheduler \<Rightarrow> u64 list" where
  "waiting_handles now key s =
     map fst (filter (\<lambda>(h, t). blocked_on key t \<and> \<not> wait_expired now t) (threads s))"

lemma WakeExpired_loop_eq:
  "WakeExpired_loop now ts =
     (map (\<lambda>(h, t). (h, if wait_expired now t then expire_thread t else t)) ts,
      map fst (filter (\<lambda>(h, t). wait_expired now t) ts))"
  by (induction now ts rule: WakeExpired_loop.induct) auto

lemma WakeBlocked_loop_woken:
  "snd (WakeBlocked_loop key n ts) = take n (map fst (filter (\<lambda>(h, t). blocked_on key t) ts))"
proof (induction key n ts rule: WakeBlocked_loop.induct)
  case (2 key n h t ts)
  then show ?case by (cases n) (auto simp: case_prod_beta)
qed simp

lemma om_find_map_snd: "om_find (map (\<lambda>(h, t). (h, f t)) m) k = map_option f (om_find m k)"
  by (induction m) (auto simp: om_find_Cons)

lemma WakeExpired_threads:
  "om_find (threads (WakeExpiredThreadsLocked now s)) h =
     map_option (\<lambda>t. if wait_expired now t then expire_thread t else t) (om_find (threads s) h)"
  by (simp add: WakeExpiredThreadsLocked_def WakeExpired_loop_eq om_find_map_snd)

lemma WakeExpired_ready:
  "ready_threads (WakeExpiredThreadsLocked now s) = ready_threads s @ expired_handles now s"
  by (simp add: WakeExpiredThreadsLocked_def WakeExpired_loop_eq expired_handles_def)

lemma not_blocked_expired: "\<not> blocked_on key (expire_thread t)"
  by (simp add: blocked_on_def expire_thread_def)

lemma waiting_handles_expired:
  "map fst (filter (\<lambda>(h, t). blocked_on key t) (threads (WakeExpiredThreadsLocked now s))) =
   waiting_handles now key s"
proof -
  have "map fst (filter (\<lambda>(h, t). blocked_on key t)
      (map (\<lambda>(h, t). (h, if wait_expired now t then expire_thread t else t)) ts)) =
    map fst (filter (\<lambda>(h, t). blocked_on key t \<and> \<not> wait_expired now t) ts)" for ts
    by (induction ts) (auto simp: not_blocked_expired split: if_splits)
  then show ?thesis
    by (simp add: WakeExpiredThreadsLocked_def WakeExpired_loop_eq waiting_handles_def)
qed

lemma set_waiting_handles:
  "sched_ok s \<Longrightarrow> set (waiting_handles now key s) = waiters (WakeExpiredThreadsLocked now s) key"
  using om_find_Some_iff [OF sched_okD(1)] by (force simp: waiters_expired waiting_handles_def)

section \<open>Waking\<close>

lemma WakeBlockedThreads_result:
  assumes ok: "sched_ok s" and key: "key \<noteq> ''''" "n \<noteq> 0"
    and w: "WakeBlockedThreads now key n s = (c, s')"
  defines "woken \<equiv> take (unat n) (waiting_handles now key s)"
  shows "c = length woken"
    and "ready_threads s' = ready_threads s @ expired_handles now s @ woken"
    and "current_thread s' = current_thread s"
    and "om_find (threads s') h =
      map_option (\<lambda>t. if wait_expired now t then expire_thread t
                      else if h \<in> set woken then awaken_thread t else t) (om_find (threads s) h)"
proof -
  obtain ts' w1 s1 where s1: "s1 = WakeExpiredThreadsLocked now s" "sched_ok s1"
    and e: "WakeBlockedThreads now key n s =
       (length w1, s1\<lparr>threads := ts', ready_threads := ready_threads s1 @ w1\<rparr>)"
    and l: "WakeBlocked_loop key (unat n) (threads s1) = (ts', w1)"
    and sp: "wake_spec awaken_thread (blocked_on key) (threads s1) ts' w1"
    using WakeBlocked_cases [OF ok key] by metis
  have "w1 = take (unat n) (map fst (filter (\<lambda>(h, t). blocked_on key t) (threads s1)))"
    using WakeBlocked_loop_woken [of key "unat n" "threads s1"] l by simp
  then have w1: "w1 = woken" by (simp add: s1(1) waiting_handles_expired woken_def)
  have s': "s' = s1\<lparr>threads := ts', ready_threads := ready_threads s1 @ woken\<rparr>" and "c = length woken"
    using e w w1 by auto
  then show "c = length woken"
    "ready_threads s' = ready_threads s @ expired_handles now s @ woken"
    "current_thread s' = current_thread s"
    by (simp_all add: s1(1) WakeExpired_ready)
  have notexp: "\<not> wait_expired now t" if "om_find (threads s) h = Some t" "h \<in> set woken" for t
  proof -
    have "h \<in> waiters (WakeExpiredThreadsLocked now s) key"
      using that(2) set_waiting_handles [OF ok] by (auto simp: woken_def dest: in_set_takeD)
    with that(1) show ?thesis by (simp add: waiters_expired [OF ok])
  qed
  have "om_find ts' h = (if h \<in> set woken then map_option awaken_thread (om_find (threads s1) h)
      else om_find (threads s1) h)"
    using sp w1 by (simp add: wake_spec_def)
  with notexp show "om_find (threads s') h =
      map_option (\<lambda>t. if wait_expired now t then expire_thread t
                      else if h \<in> set woken then awaken_thread t else t) (om_find (threads s) h)"
    by (cases "om_find (threads s) h") (simp_all add: s' s1(1) WakeExpired_threads)
qed

section \<open>Selecting\<close>

lemma SelectNext_result:
  assumes ok: "sched_ok s" and c: "current_thread s = None" and r: "SelectNext now s = (r, s')"
  defines "queue \<equiv> ready_threads s @ expired_handles now s"
  shows "r = (case queue of [] \<Rightarrow> None | h # _ \<Rightarrow> Some h)"
    and "ready_threads s' = tl queue" and "current_thread s' = r"
    and "om_find (threads s') h =
      map_option (\<lambda>t. let t1 = (if wait_expired now t then expire_thread t else t) in
                      if r = Some h then t1\<lparr>th_state := kRunning\<rparr> else t1) (om_find (threads s) h)"
proof -
  let ?s1 = "WakeExpiredThreadsLocked now s"
  have q: "ready_threads ?s1 = queue" by (simp add: queue_def WakeExpired_ready)
  note e = SelectNext_cases [OF ok c, of now, unfolded q]
  show "r = (case queue of [] \<Rightarrow> None | h # _ \<Rightarrow> Some h)" "ready_threads s' = tl queue"
    "current_thread s' = r"
    using e r c q by (auto split: list.splits)
  show "om_find (threads s') h =
      map_option (\<lambda>t. let t1 = (if wait_expired now t then expire_thread t else t) in
                      if r = Some h then t1\<lparr>th_state := kRunning\<rparr> else t1) (om_find (threads s) h)"
    using e r by (cases queue; cases "om_find (threads s) h")
      (auto simp: om_find_update WakeExpired_threads Let_def)
qed

text \<open>One round of the run loop in which the selected thread yields.\<close>

definition yield_round :: "u64 \<Rightarrow> guest_scheduler \<Rightarrow> guest_scheduler" where
  "yield_round now s = snd (YieldCurrent (snd (SelectNext now s)))"

fun yield_rounds :: "u64 list \<Rightarrow> guest_scheduler \<Rightarrow> guest_scheduler" where
  "yield_rounds [] s = s"
| "yield_rounds (now # clock) s = yield_rounds clock (yield_round now s)"

lemma yield_round_ok: "sched_ok s \<Longrightarrow> sched_ok (yield_round now s)"
  by (simp add: yield_round_def SelectNext_ok YieldCurrent_ok)

lemma yield_round_queue:
  assumes ok: "sched_ok s" and c: "current_thread s = None" and q: "ready_threads s = x # rest"
  shows "ready_threads (yield_round now s) = rest @ expired_handles now s @ [x]"
    and "current_thread (yield_round now s) = None"
proof -
  obtain r s' where r: "SelectNext now s = (r, s')" by fastforce
  note res = SelectNext_result [OF ok c r]
  have cur: "current_thread s' = Some x" and ready: "ready_threads s' = rest @ expired_handles now s"
    using res(1-3) q by simp_all
  have "sched_ok s'" using SelectNext_ok [OF ok, of now] r by simp
  then obtain t where "running_thread s' = Some (x, t)"
    using running_thread_current cur by blast
  then show "ready_threads (yield_round now s) = rest @ expired_handles now s @ [x]"
    "current_thread (yield_round now s) = None"
    by (simp_all add: yield_round_def r YieldCurrent_def ready)
qed

lemma yield_rounds_prefix:
  assumes "sched_ok s" "current_thread s = None" "ready_threads s = xs @ h # ys"
    "length clock = length xs"
  shows "\<exists>zs. ready_threads (yield_rounds clock s) = h # zs \<and>
    current_thread (yield_rounds clock s) = None \<and> sched_ok (yield_rounds clock s)"
  using assms
proof (induction xs arbitrary: s ys clock)
  case Nil
  then show ?case by simp
next
  case (Cons x xs)
  then obtain now rest where cl: "clock = now # rest" "length rest = length xs"
    by (cases clock) auto
  have "ready_threads (yield_round now s) = xs @ h # ys @ expired_handles now s @ [x]"
    "current_thread (yield_round now s) = None"
    using yield_round_queue [of s x "xs @ h # ys" now] Cons.prems by simp_all
  with Cons.IH [of "yield_round now s" "ys @ expired_handles now s @ [x]" rest]
    yield_round_ok [OF Cons.prems(1)] cl show ?case by simp
qed

section \<open>Exit and join\<close>

lemma ExitCurrent_result:
  assumes ok: "sched_ok s" and run: "running_thread s = Some (h, t)"
    and e: "ExitCurrent v s = (b, s')"
  shows "b" and "current_thread s' = None"
    and "om_find (threads s') k =
      map_option (\<lambda>u. if k = h then exit_thread v u
                      else if blocked_on (ThreadExitWaitKey h) u then awaken_thread u else u)
        (om_find (threads s) k)"
proof -
  let ?key = "ThreadExitWaitKey h"
  let ?ts = "om_update h (exit_thread v) (threads s)"
  obtain ts' w where e1: "ExitCurrent v s =
      (True, s\<lparr>threads := ts', ready_threads := ready_threads s @ w, current_thread := None\<rparr>)"
    and sp: "wake_spec awaken_thread (blocked_on ?key) ?ts ts' w"
    and all: "\<forall>k t. om_find ?ts k = Some t \<longrightarrow> blocked_on ?key t \<longrightarrow> k \<in> set w"
    using ExitCurrent_cases [OF ok run, of v] by metis
  then show "b" "current_thread s' = None" using e by auto
  have find: "om_find ts' k = (if k \<in> set w then map_option awaken_thread (om_find ?ts k)
      else om_find ?ts k)"
    using sp by (simp add: wake_spec_def)
  have mem: "k \<in> set w \<longleftrightarrow> (\<exists>u. om_find ?ts k = Some u \<and> blocked_on ?key u)"
    using sp all by (auto simp: wake_spec_def)
  have "\<not> blocked_on ?key (exit_thread v u)" for u by (simp add: blocked_on_def exit_thread_def)
  then show "om_find (threads s') k =
      map_option (\<lambda>u. if k = h then exit_thread v u
                      else if blocked_on (ThreadExitWaitKey h) u then awaken_thread u else u)
        (om_find (threads s) k)"
    using e e1 find mem by (cases "om_find (threads s) k"; cases "k = h") (auto simp: om_find_update)
qed

lemma JoinThread_exited:
  "om_find (threads s) h = Some t \<Longrightarrow> th_state t = kExited \<Longrightarrow>
   JoinThread h s = (\<lparr>tj_status = kOk, tj_exit_value = th_exit_value t\<rparr>, s)"
  by (simp add: JoinThread_def)

section \<open>Wait keys\<close>

text \<open>
  The services share one name space of wait keys. The digits of a number determine it, so
  the keys of one service are distinct, and the prefixes separate the services.
\<close>

lemma digit_char_inject: "d < 16 \<Longrightarrow> e < 16 \<Longrightarrow> digit_char d = digit_char e \<longleftrightarrow> d = e"
  unfolding digit_char_def by (subst nth_eq_iff_index_eq) simp_all

lemma digits_base_nonempty [simp]: "digits_base b n \<noteq> []" "[] \<noteq> digits_base b n"
  by (subst digits_base.simps, simp)+

lemma digits_base_inject:
  assumes "2 \<le> b" "b \<le> 16"
  shows "digits_base b m = digits_base b n \<Longrightarrow> m = n"
  using assms
proof (induction b m arbitrary: n rule: digits_base.induct)
  case (1 b m)
  show ?case
  proof (cases "m < b"; cases "n < b")
    assume "m < b" "n < b"
    with 1 show ?thesis by (simp add: digits_base.simps [of b m] digits_base.simps [of b n]
          digit_char_inject)
  next
    assume "m < b" "\<not> n < b"
    with 1 show ?thesis by (simp add: digits_base.simps [of b m] digits_base.simps [of b n])
  next
    assume "\<not> m < b" "n < b"
    with 1 show ?thesis by (simp add: digits_base.simps [of b m] digits_base.simps [of b n])
  next
    assume big: "\<not> m < b" "\<not> n < b"
    with 1(2-4) have eq: "digits_base b (m div b) = digits_base b (n div b)"
      "digit_char (m mod b) = digit_char (n mod b)"
      by (simp_all add: digits_base.simps [of b m] digits_base.simps [of b n])
    have "x mod b < 16" for x using mod_less_divisor [of b x] 1(3,4) by linarith
    with eq(2) have "m mod b = n mod b" by (simp add: digit_char_inject)
    moreover have "m div b = n div b" using 1(1) [OF _ eq(1)] big 1(3,4) by simp
    ultimately show ?thesis by (metis div_mult_mod_eq)
  qed
qed

lemma to_string_inject [simp]: "to_string a = to_string b \<longleftrightarrow> a = b"
  by (auto simp: to_string_def unat_eq_iff dest: digits_base_inject [rotated 2])

lemma to_hex_inject [simp]: "to_hex a = to_hex b \<longleftrightarrow> a = b"
  by (auto simp: to_hex_def unat_eq_iff dest: digits_base_inject [rotated 2])

lemma ThreadExitWaitKey_inject [simp]: "ThreadExitWaitKey a = ThreadExitWaitKey b \<longleftrightarrow> a = b"
  by (simp add: ThreadExitWaitKey_def)

section \<open>Waiters of kernel objects\<close>

text \<open>
  A service blocks a thread on the key of an object it found. No thread may be left waiting on
  the key of an object that does not exist: nobody would ever wake it.
\<close>

definition no_orphans :: "kernel_object_type \<Rightarrow> (u64 \<Rightarrow> string) \<Rightarrow> kernel \<Rightarrow> bool" where
  "no_orphans ty key k \<longleftrightarrow>
     (\<forall>h. waiters (sched k) (key h) \<noteq> {} \<longrightarrow> HandleTable_Find h ty (handles k) \<noteq> None)"

lemma no_orphans_weaken:
  assumes "no_orphans ty key k"
    "\<And>h. waiters (sched k') (key h) \<subseteq> waiters (sched k) (key h)"
    "\<And>h. HandleTable_Find h ty (handles k) \<noteq> None \<Longrightarrow> HandleTable_Find h ty (handles k') \<noteq> None"
  shows "no_orphans ty key k'"
  using assms unfolding no_orphans_def by blast

lemma no_orphans_wake:
  assumes "no_orphans ty key k" "sched_ok (sched k)"
  shows "no_orphans ty key (k\<lparr>sched := WakeAllBlocked now w (sched k)\<rparr>)"
  by (rule no_orphans_weaken [OF assms(1)]) (use assms(2) waiters_WakeAllBlocked_subset in auto)

lemma no_orphans_delete:
  assumes orphans: "no_orphans ty key k" and ok: "sched_ok (sched k)"
    and key: "inj key" "\<And>h. key h \<noteq> ''''"
    and rm: "HandleTable_Remove h ty (handles k) = (Some ob, t)"
  shows "no_orphans ty key (k\<lparr>handles := t, sched := WakeAllBlocked now (key h) (sched k)\<rparr>)"
  unfolding no_orphans_def
proof (intro allI impI)
  fix x
  assume w: "waiters (sched (k\<lparr>handles := t, sched := WakeAllBlocked now (key h) (sched k)\<rparr>)) (key x) \<noteq> {}"
  then have "x \<noteq> h" using wq.wake_waiting [OF ok key(2), of now h] by auto
  moreover have "waiters (sched k) (key x) \<noteq> {}"
    using w waiters_WakeAllBlocked_subset [OF ok, of now "key h" "key x"] by auto
  ultimately show "HandleTable_Find x ty
      (handles (k\<lparr>handles := t, sched := WakeAllBlocked now (key h) (sched k)\<rparr>)) \<noteq> None"
    using orphans rm by (auto simp: no_orphans_def HandleTable_Remove_Some HandleTable_Find_def om_find_erase)
qed

lemma no_orphans_block:
  assumes orphans: "no_orphans ty key k" and ok: "sched_ok (sched k)"
    and b: "BlockCurrentLocked w d (sched k) = (b, s')"
    and found: "\<And>h. w = key h \<Longrightarrow> HandleTable_Find h ty (handles k) \<noteq> None"
  shows "no_orphans ty key (k\<lparr>sched := s'\<rparr>)"
  unfolding no_orphans_def
proof (intro allI impI)
  fix x
  assume "waiters (sched (k\<lparr>sched := s'\<rparr>)) (key x) \<noteq> {}"
  then obtain j where "j \<in> waiters s' (key x)" by auto
  from wq.block_new_waiter [OF ok b this] orphans found [of x]
  show "HandleTable_Find x ty (handles (k\<lparr>sched := s'\<rparr>)) \<noteq> None"
    by (auto simp: no_orphans_def)
qed

lemma find_after_insert:
  assumes "handle_table_ok t" "HandleTable_Insert (Some ob) t = (r, t')"
    "HandleTable_Find h ty t \<noteq> None"
  shows "HandleTable_Find h ty t' \<noteq> None"
proof (cases r)
  case None
  then show ?thesis using assms ht.insert_fails by blast
next
  case (Some h')
  then show ?thesis
    using ht.insert_find [OF assms(1), of ob h' t' h ty] ht.insert_fresh [OF assms(1), of ob h' t' ty]
      assms(2,3) by auto
qed

lemma find_after_remove:
  "HandleTable_Remove h ty t = (r, t') \<Longrightarrow> ty' \<noteq> ty \<Longrightarrow>
   HandleTable_Find x ty' t \<noteq> None \<Longrightarrow> HandleTable_Find x ty' t' \<noteq> None"
  by (cases r) (auto simp: HandleTable_Remove_Some HandleTable_Find_def om_find_erase
      split: option.splits if_splits dest!: HandleTable_Remove_NoneD)

lemma find_after_store:
  "HandleTable_Find h ty t = Some ob \<Longrightarrow> object_type ob' = ty \<Longrightarrow>
   HandleTable_Find x ty' (store_object h ob' t) =
     (if x = h then (if ty' = ty then Some ob' else None) else HandleTable_Find x ty' t)"
  by (auto simp: HandleTable_Find_def om_find_store_object split: option.splits if_splits)

lemma thread_keys_wake_all [simp]:
  "om_keys (threads (WakeAllBlocked now key s)) = om_keys (threads s)"
  by (simp add: WakeAllBlocked_def)

lemma kernel_ok_wake_all: "kernel_ok k \<Longrightarrow> kernel_ok (k\<lparr>sched := WakeAllBlocked now key (sched k)\<rparr>)"
  by (rule kernel_ok_sched) (simp_all add: WakeAllBlocked_ok kernel_okD(2))

lemma kernel_ok_block:
  assumes "kernel_ok k" "BlockCurrentLocked key d (sched k) = (b, s')"
  shows "kernel_ok (k\<lparr>sched := s'\<rparr>)"
  using assms BlockCurrentLocked_ok [of "sched k" key d] thread_keys_block [of key d "sched k"]
  by (intro kernel_ok_sched) (simp_all add: kernel_okD(2))

text \<open>Removing an object and waking its waiters, and mutating an object and waking.\<close>

lemma kernel_ok_remove_wake:
  assumes "kernel_ok k" "ty \<noteq> kThread" "HandleTable_Remove h ty (handles k) = (r, t)"
  shows "kernel_ok (k\<lparr>handles := t, sched := WakeAllBlocked now key (sched k)\<rparr>)"
  using kernel_ok_wake_all [OF kernel_ok_remove [OF assms]] by simp

lemma kernel_ok_store_wake:
  assumes "kernel_ok k" "HandleTable_Find h ty (handles k) = Some ob" "ty \<noteq> kThread"
    "object_type ob' = ty"
  shows "kernel_ok (k\<lparr>handles := store_object h ob' (handles k),
    sched := WakeAllBlocked now key (sched k)\<rparr>)"
  using kernel_ok_wake_all [OF kernel_ok_store [OF assms]] by simp

lemma no_orphans_insert:
  assumes "no_orphans ty key k" "kernel_ok k" "HandleTable_Insert (Some ob) (handles k) = (r, t)"
  shows "no_orphans ty key (k\<lparr>handles := t\<rparr>)"
  by (rule no_orphans_weaken [OF assms(1)])
    (use find_after_insert [OF kernel_okD(1) [OF assms(2)] assms(3)] in simp_all)

lemma no_orphans_store:
  assumes "no_orphans ty key k" "HandleTable_Find h ty1 (handles k) = Some ob" "object_type ob' = ty1"
  shows "no_orphans ty key (k\<lparr>handles := store_object h ob' (handles k)\<rparr>)"
  by (rule no_orphans_weaken [OF assms(1)])
    (use assms(2) in \<open>auto simp: find_after_store [OF assms(2,3)] HandleTable_Find_Some\<close>)

lemma no_orphans_store_wake:
  assumes "no_orphans ty key k" "sched_ok (sched k)"
    "HandleTable_Find h ty1 (handles k) = Some ob" "object_type ob' = ty1"
  shows "no_orphans ty key (k\<lparr>handles := store_object h ob' (handles k),
    sched := WakeAllBlocked now w (sched k)\<rparr>)"
  using no_orphans_wake [OF no_orphans_store [OF assms(1,3,4)]] assms(2) by simp

lemma no_orphans_remove_other:
  assumes "no_orphans ty key k" "sched_ok (sched k)" "ty \<noteq> ty1"
    "HandleTable_Remove h ty1 (handles k) = (r, t)"
  shows "no_orphans ty key (k\<lparr>handles := t, sched := WakeAllBlocked now w (sched k)\<rparr>)"
  by (rule no_orphans_weaken [OF assms(1)])
    (use find_after_remove [OF assms(4,3)] waiters_WakeAllBlocked_subset [OF assms(2)] in auto)

lemma no_orphans_remove_wake:
  assumes "no_orphans ty key k" "kernel_ok k" "HandleTable_Remove h ty1 (handles k) = (Some ob, t)"
    "inj key1" "\<And>x. key1 x \<noteq> ''''" "ty = ty1 \<Longrightarrow> key = key1"
  shows "no_orphans ty key (k\<lparr>handles := t, sched := WakeAllBlocked now (key1 h) (sched k)\<rparr>)"
proof (cases "ty = ty1")
  case True
  with no_orphans_delete [OF _ _ assms(4,5,3)] assms show ?thesis by (simp add: kernel_okD(2))
next
  case False
  with no_orphans_remove_other [OF assms(1) kernel_okD(2) [OF assms(2)] _ assms(3)]
  show ?thesis by simp
qed

lemma WakeBlockedThread_waiters:
  fixes now :: u64 and h :: u64
  assumes ok: "sched_ok s" and key: "key \<noteq> ''''"
  defines "s' \<equiv> snd (WakeBlockedThread now h key s)"
  shows "h \<notin> waiters s' key" and "waiters s' k \<subseteq> waiters s k"
    and "current_thread s' = current_thread s"
proof -
  let ?s1 = "WakeExpiredThreadsLocked now s"
  have sub: "waiters ?s1 k \<subseteq> waiters s k" for k by (rule waiters_expired_subset [OF ok])
  have zero: "0 \<notin> waiters s k" for k using sched_okD(6) [OF ok] by (simp add: waiters_def)
  have upd: "waiters (?s1\<lparr>threads := om_update h awaken_thread (threads ?s1),
      ready_threads := r\<rparr>) k = waiters ?s1 k - {h}" for r k
    by (auto simp: waiters_def om_find_update blocked_on_def awaken_thread_def split: if_splits)
  have none: "h \<notin> waiters ?s1 key" if "\<not> fst (WakeBlockedThread now h key s)" "h \<noteq> 0"
    using that key by (auto simp: WakeBlockedThread_def waiters_def Let_def split: option.splits if_splits)
  show "h \<notin> waiters s' key"
  proof (cases "h = 0")
    case True
    then show ?thesis using zero by (simp add: s'_def WakeBlockedThread_def)
  next
    case False
    then show ?thesis
      using none key by (auto simp: s'_def WakeBlockedThread_def Let_def upd split: option.splits)
  qed
  show "waiters s' k \<subseteq> waiters s k"
    using sub [of k] key by (auto simp: s'_def WakeBlockedThread_def Let_def upd split: option.splits)
  show "current_thread s' = current_thread s"
    by (simp add: s'_def WakeBlockedThread_def Let_def split: option.splits)
qed

section \<open>Threads persist\<close>

text \<open>
  No operation but the discarding of a ready thread removes a thread, only the running
  thread exits, and an exited thread never changes again.
\<close>

definition keeps_threads :: "guest_scheduler \<Rightarrow> guest_scheduler \<Rightarrow> bool" where
  "keeps_threads s s' \<longleftrightarrow>
     (\<forall>h t. om_find (threads s) h = Some t \<longrightarrow>
        (\<exists>t'. om_find (threads s') h = Some t' \<and>
           (if th_state t = kExited then t' = t else th_state t' \<noteq> kExited)))"

lemma keeps_threads_refl [simp]: "keeps_threads s s"
  by (simp add: keeps_threads_def)

lemma keeps_threads_trans: "keeps_threads s s1 \<Longrightarrow> keeps_threads s1 s2 \<Longrightarrow> keeps_threads s s2"
  unfolding keeps_threads_def by metis

lemma keeps_threads_map:
  assumes "\<And>h. om_find (threads s') h = map_option (f h) (om_find (threads s) h)"
    "\<And>h t. om_find (threads s) h = Some t \<Longrightarrow>
       if th_state t = kExited then f h t = t else th_state (f h t) \<noteq> kExited"
  shows "keeps_threads s s'"
  using assms by (simp add: keeps_threads_def)

lemma expired_not_exited: "wait_expired now t \<Longrightarrow> th_state t \<noteq> kExited"
  by (simp add: wait_expired_def)

lemma keeps_threads_WakeExpired: "keeps_threads s (WakeExpiredThreadsLocked now s)"
  by (rule keeps_threads_map [OF WakeExpired_threads])
    (auto simp: expire_thread_def dest: expired_not_exited)

lemma keeps_threads_WakeBlockedThreads:
  assumes ok: "sched_ok s"
  shows "keeps_threads s (snd (WakeBlockedThreads now key n s))"
proof (cases "key = '''' \<or> n = 0")
  case True
  then show ?thesis by (auto simp: WakeBlockedThreads_def)
next
  case False
  obtain c s' where w: "WakeBlockedThreads now key n s = (c, s')" by fastforce
  let ?w = "take (unat n) (waiting_handles now key s)"
  have "keeps_threads s s'"
  proof (rule keeps_threads_map [OF WakeBlockedThreads_result(4) [OF ok _ _ w]])
    fix h t
    assume t: "om_find (threads s) h = Some t"
    have "th_state t = kBlocked" if "h \<in> set ?w" "\<not> wait_expired now t"
      using that set_waiting_handles [OF ok, of now key] t WakeExpired_threads [of now s h]
      by (auto simp: waiters_def blocked_on_def dest!: in_set_takeD)
    then show "if th_state t = kExited
        then (if wait_expired now t then expire_thread t else if h \<in> set ?w then awaken_thread t else t) = t
        else th_state (if wait_expired now t then expire_thread t
          else if h \<in> set ?w then awaken_thread t else t) \<noteq> kExited"
      by (auto simp: expire_thread_def awaken_thread_def dest: expired_not_exited)
  qed (use False in auto)
  then show ?thesis by (simp add: w)
qed

lemma keeps_threads_WakeAllBlocked: "sched_ok s \<Longrightarrow> keeps_threads s (WakeAllBlocked now key s)"
  by (simp add: WakeAllBlocked_def keeps_threads_WakeBlockedThreads)

lemma keeps_threads_update:
  assumes "om_find (threads s) h = Some t" "th_state t \<noteq> kExited" "th_state (f t) \<noteq> kExited"
  shows "keeps_threads s (s\<lparr>threads := om_update h f (threads s), ready_threads := r, current_thread := c\<rparr>)"
  using assms by (auto simp: keeps_threads_def om_find_update)

lemma keeps_threads_WakeBlockedThread: "keeps_threads s (snd (WakeBlockedThread now h key s))"
proof -
  let ?s1 = "WakeExpiredThreadsLocked now s"
  have "keeps_threads ?s1 (snd (WakeBlockedThread now h key s))" if "h \<noteq> 0" "key \<noteq> ''''"
    using that by (auto simp: WakeBlockedThread_def Let_def keeps_threads_def om_find_update blocked_on_def
        awaken_thread_def split: option.splits)
  then show ?thesis
    using keeps_threads_trans [OF keeps_threads_WakeExpired] by (auto simp: WakeBlockedThread_def)
qed

lemma keeps_threads_running:
  assumes "running_thread s = Some (h, t)" "\<And>u. th_state u = kRunning \<Longrightarrow> th_state (f u) \<noteq> kExited"
  shows "keeps_threads s (s\<lparr>threads := om_update h f (threads s), ready_threads := r, current_thread := c\<rparr>)"
  using assms by (auto simp: running_thread_Some intro: keeps_threads_update)

lemma keeps_threads_BlockCurrentLocked: "keeps_threads s (snd (BlockCurrentLocked key d s))"
  using keeps_threads_running [where s = s and r = "ready_threads s" and f = "block_thread key d" and c = None]
  by (auto simp: BlockCurrentLocked_def block_thread_def split: option.splits)

lemma keeps_threads_YieldCurrent: "keeps_threads s (snd (YieldCurrent s))"
  using keeps_threads_running [where s = s and f = "\<lambda>t. t\<lparr>th_state := kReady\<rparr>" and c = None]
  by (auto simp: YieldCurrent_def split: option.splits)

lemma keeps_threads_ConsumeCurrentThreadTimeout:
  "keeps_threads s (snd (ConsumeCurrentThreadTimeout key s))"
  using keeps_threads_running [where s = s and f = "\<lambda>t. t\<lparr>th_timed_out_wait_key := ''''\<rparr>"
      and r = "ready_threads s" and c = "current_thread s"]
  by (auto simp: ConsumeCurrentThreadTimeout_def split: option.splits)

lemma keeps_threads_SelectNext:
  assumes ok: "sched_ok s"
  shows "keeps_threads s (snd (SelectNext now s))"
proof (cases "current_thread s")
  case (Some c)
  then show ?thesis by (simp add: SelectNext_def)
next
  case None
  obtain r s' where r: "SelectNext now s = (r, s')" by fastforce
  have ready: "th_state t = kReady \<or> wait_expired now t"
    if rh: "r = Some h" and t: "om_find (threads s) h = Some t" for h t
  proof -
    obtain xs where "ready_threads s @ expired_handles now s = h # xs"
      using SelectNext_result(1) [OF ok None r] rh by (auto split: list.splits)
    then have "h \<in> set (ready_threads s @ expired_handles now s)" by simp
    then show ?thesis
      using sched_okD(3) [OF ok] t
      by (auto simp: expired_handles_def simp flip: om_find_Some_iff [OF sched_okD(1) [OF ok]])
  qed
  have "keeps_threads s s'"
    by (rule keeps_threads_map [OF SelectNext_result(4) [OF ok None r]])
      (auto simp: Let_def expire_thread_def dest: expired_not_exited dest!: ready)
  then show ?thesis by (simp add: r)
qed

section \<open>Properties\<close>

text \<open>The examples of the witnesses: two threads, and the first of them running.\<close>

definition example_ready :: guest_scheduler where
  "example_ready = sched (snd (CreateThread ''b'' 0 0 0 (snd (CreateThread ''a'' 0 0 0 empty_kernel))))"

definition example_running :: guest_scheduler where
  "example_running = snd (SelectNext 0 example_ready)"

definition example_blocked :: guest_scheduler where
  "example_blocked = snd (BlockCurrent ''key'' example_running)"

definition example_joined :: guest_scheduler where
  "example_joined = snd (SelectNext 0 (snd (JoinThread 2 example_running)))"

lemma example_ready_ok: "sched_ok example_ready"
  unfolding example_ready_def
  by (intro kernel_okD(2) kernel_ok_CreateThread empty_kernel_ok)

lemma example_sched_ok:
  "sched_ok example_running" "sched_ok example_blocked" "sched_ok example_joined"
  by (simp_all add: example_running_def example_blocked_def example_joined_def BlockCurrent_def
      example_ready_ok SelectNext_ok BlockCurrentLocked_ok JoinThread_ok)

lemma example_ready_queue: "current_thread example_ready = None" "ready_threads example_ready = [1, 2]"
  by code_simp+

text \<open>
  C7: When no thread runs, \<open>SelectNext\<close> picks the oldest entry of the ready queue, to which
  the threads whose wait has expired were appended in handle order; it returns nothing exactly when
  that queue is empty, and no other thread changes its state except by expiring.
\<close>

theorem select_next_is_fifo:
  assumes "sched_ok s" "current_thread s = None" "SelectNext now s = (r, s')"
  shows "r = (case ready_threads s @ expired_handles now s of [] \<Rightarrow> None | h # _ \<Rightarrow> Some h) \<and>
    ready_threads s' = tl (ready_threads s @ expired_handles now s) \<and> current_thread s' = r \<and>
    (\<forall>h. om_find (threads s') h =
      map_option (\<lambda>t. let t1 = (if wait_expired now t then expire_thread t else t) in
                      if r = Some h then t1\<lparr>th_state := kRunning\<rparr> else t1) (om_find (threads s) h))"
  using SelectNext_result [OF assms] by blast

theorem select_next_is_fifo_witness:
  "sched_ok example_ready \<and> current_thread example_ready = None \<and>
   fst (SelectNext 0 example_ready) = Some 1"
proof -
  obtain r s' where r: "SelectNext 0 example_ready = (r, s')" by fastforce
  from select_next_is_fifo [OF example_ready_ok example_ready_queue(1) r] have "r = Some 1"
    by (simp add: example_ready_queue(2))
  with r show ?thesis by (simp add: example_ready_ok example_ready_queue(1))
qed

text \<open>
  C8: \<open>WakeBlockedThreads\<close> with a key and a count makes ready exactly the first \<open>count\<close>
  threads, in handle order, that wait on the key and have not timed out; it reports their number,
  queues them behind the expired ones and leaves every other thread alone.
\<close>

theorem wake_is_exact:
  assumes "sched_ok s" "key \<noteq> ''''" "n \<noteq> 0" "WakeBlockedThreads now key n s = (c, s')"
  shows "c = length (take (unat n) (waiting_handles now key s)) \<and>
    ready_threads s' = ready_threads s @ expired_handles now s @ take (unat n) (waiting_handles now key s) \<and>
    current_thread s' = current_thread s \<and>
    (\<forall>h. om_find (threads s') h =
      map_option (\<lambda>t. if wait_expired now t then expire_thread t
                      else if h \<in> set (take (unat n) (waiting_handles now key s)) then awaken_thread t else t)
        (om_find (threads s) h))"
  using WakeBlockedThreads_result [OF assms] by blast

theorem wake_is_exact_witness:
  "sched_ok example_blocked \<and> fst (WakeBlockedThreads 0 ''key'' 1 example_blocked) = 1"
proof -
  obtain c s' where w: "WakeBlockedThreads 0 ''key'' 1 example_blocked = (c, s')" by fastforce
  have "waiting_handles 0 ''key'' example_blocked = [1]" by code_simp
  with wake_is_exact [OF example_sched_ok(2) _ _ w] w example_sched_ok(2) show ?thesis by simp
qed

text \<open>
  C9: No ready thread starves when threads yield: a thread with \<open>n\<close> threads in front of it in
  the ready queue is the one selected after exactly \<open>n\<close> rounds, whatever the clock shows and
  whichever waits expire meanwhile.
\<close>

theorem yield_is_round_robin:
  assumes "sched_ok s" "current_thread s = None" "ready_threads s = xs @ h # ys" "length clock = length xs"
  shows "fst (SelectNext now (yield_rounds clock s)) = Some h"
proof -
  obtain zs where z: "ready_threads (yield_rounds clock s) = h # zs"
    "current_thread (yield_rounds clock s) = None" "sched_ok (yield_rounds clock s)"
    using yield_rounds_prefix [OF assms] by blast
  obtain r s' where r: "SelectNext now (yield_rounds clock s) = (r, s')" by fastforce
  show ?thesis using SelectNext_result(1) [OF z(3,2) r] z(1) r by simp
qed

theorem yield_is_round_robin_witness:
  "sched_ok example_ready \<and> fst (SelectNext 5 (yield_rounds [3] example_ready)) = Some 2"
  using yield_is_round_robin [OF example_ready_ok example_ready_queue(1), of "[1]" 2 "[]" "[3]" 5]
  by (simp add: example_ready_queue(2) example_ready_ok)

text \<open>
  C10: When the running thread exits, every thread that was joining it becomes ready and its join
  then returns the exit value; no thread is left waiting for it.
\<close>

theorem exit_hands_over_to_joiners:
  assumes "sched_ok s" "running_thread s = Some (h, t)" "ExitCurrent v s = (b, s')"
  shows "b \<and> current_thread s' = None \<and> waiters s' (ThreadExitWaitKey h) = {} \<and>
    (\<forall>j \<in> waiters s (ThreadExitWaitKey h). j \<in> set (ready_threads s')) \<and>
    JoinThread h s' = (\<lparr>tj_status = kOk, tj_exit_value = v\<rparr>, s')"
proof -
  note e = ExitCurrent_result [OF assms]
  have h: "om_find (threads s) h = Some t" "th_state t = kRunning"
    using assms(2) by (auto simp: running_thread_Some)
  have ok': "sched_ok s'" using ExitCurrent_ok [OF assms(1), of v] assms(3) by simp
  have "JoinThread h s' = (\<lparr>tj_status = kOk, tj_exit_value = v\<rparr>, s')"
    using JoinThread_exited [of s' h "exit_thread v t"] e(3) [of h] h by (simp add: exit_thread_def)
  moreover have "waiters s' (ThreadExitWaitKey h) = {}"
    using e(3) by (auto simp: waiters_def blocked_on_def exit_thread_def awaken_thread_def split: if_splits)
  moreover have "j \<in> set (ready_threads s')" if "j \<in> waiters s (ThreadExitWaitKey h)" for j
  proof -
    from that obtain u where u: "om_find (threads s) j = Some u" "blocked_on (ThreadExitWaitKey h) u"
      by (auto simp: waiters_def)
    then have "j \<noteq> h" using h by (auto simp: blocked_on_def)
    with u e(3) [of j] show ?thesis by (simp add: sched_okD(3) [OF ok'] awaken_thread_def)
  qed
  ultimately show ?thesis using e(1,2) by blast
qed

theorem exit_hands_over_to_joiners_witness:
  "1 \<in> waiters example_joined (ThreadExitWaitKey 2) \<and>
   1 \<in> set (ready_threads (snd (ExitCurrent 9 example_joined)))"
proof -
  obtain b s' where e: "ExitCurrent 9 example_joined = (b, s')" by fastforce
  have "map_option fst (running_thread example_joined) = Some 2" by code_simp
  then obtain t where run: "running_thread example_joined = Some (2, t)" by auto
  have "map_option (blocked_on (ThreadExitWaitKey 2)) (om_find (threads example_joined) 1) = Some True"
    by code_simp
  then have w: "1 \<in> waiters example_joined (ThreadExitWaitKey 2)" by (auto simp: waiters_def)
  with exit_hands_over_to_joiners [OF example_sched_ok(3) run e] e show ?thesis by auto
qed

end
