(* ===== verification/Event_Flag.thy ===== *)
theory Event_Flag
  imports Scheduler_Behaviour
begin

text \<open>
  Event flags (\<open>kernel/event_flag\<close>): the 64-bit pattern of a flag, the decoding of wait modes
  and the service that creates, deletes, sets, clears, polls and waits. A service call holds
  the service's wait mutex, so it is one step on the kernel state.
\<close>

section \<open>The flag\<close>

datatype event_flag_wait_condition = kAll | kAny

datatype event_flag_clear_mode = kClearNone | kClearAll | kClearPattern

record event_flag_state_result =
  es_satisfied :: bool
  es_observed_pattern :: u64

record event_flag_create_result =
  ec_status :: kernel_status
  ec_handle :: u64

record event_flag_poll_result =
  ep_status :: kernel_status
  ep_observed_pattern :: u64

definition EventFlag_Set :: "u64 \<Rightarrow> event_flag \<Rightarrow> event_flag" where
  "EventFlag_Set pattern e = e\<lparr>ef_bits := ef_bits e OR pattern\<rparr>"

definition EventFlag_Clear :: "u64 \<Rightarrow> event_flag \<Rightarrow> event_flag" where
  "EventFlag_Clear mask_bits e = e\<lparr>ef_bits := ef_bits e AND mask_bits\<rparr>"

definition EventFlag_Poll ::
  "u64 \<Rightarrow> event_flag_wait_condition \<Rightarrow> event_flag_clear_mode \<Rightarrow> event_flag \<Rightarrow>
   event_flag_state_result \<times> event_flag" where
  "EventFlag_Poll pattern condition clear_mode e =
     (let satisfied = (if condition = kAll then ef_bits e AND pattern = pattern
                       else ef_bits e AND pattern \<noteq> 0);
          result = \<lparr>es_satisfied = satisfied, es_observed_pattern = ef_bits e\<rparr>
      in if \<not> satisfied then (result, e)
         else case clear_mode of
             kClearNone \<Rightarrow> (result, e)
           | kClearAll \<Rightarrow> (result, e\<lparr>ef_bits := 0\<rparr>)
           | kClearPattern \<Rightarrow> (result, e\<lparr>ef_bits := ef_bits e AND NOT pattern\<rparr>))"

section \<open>The service\<close>

abbreviation kMaximumEventFlagNameLength :: nat where
  "kMaximumEventFlagNameLength \<equiv> 31"

definition EventFlag_IsValidAttributes :: "u32 \<Rightarrow> bool" where
  "EventFlag_IsValidAttributes attributes =
     (let queue_mode = attributes AND 0x0f;
          thread_mode = attributes AND 0xf0;
          queue_valid = (queue_mode = 0 \<or> queue_mode = 0x01 \<or> queue_mode = 0x02);
          thread_valid = (thread_mode = 0 \<or> thread_mode = 0x10 \<or> thread_mode = 0x20)
      in queue_valid \<and> thread_valid \<and> attributes AND NOT 0x33 = 0)"

definition DecodeWaitMode ::
  "u32 \<Rightarrow> (event_flag_wait_condition \<times> event_flag_clear_mode) option" where
  "DecodeWaitMode wait_mode =
     (case (if wait_mode AND 0x0f = 0x01 then Some kAll
            else if wait_mode AND 0x0f = 0x02 then Some kAny else None) of
        None \<Rightarrow> None
      | Some condition \<Rightarrow>
          (case (if wait_mode AND 0xf0 = 0 then Some kClearNone
                 else if wait_mode AND 0xf0 = 0x10 then Some kClearAll
                 else if wait_mode AND 0xf0 = 0x20 then Some kClearPattern else None) of
             None \<Rightarrow> None
           | Some clear_mode \<Rightarrow>
               if wait_mode AND NOT 0x33 = 0 then Some (condition, clear_mode) else None))"

definition EventFlag_MakeWaitKey :: "u64 \<Rightarrow> string" where
  "EventFlag_MakeWaitKey handle = ''event_flag:'' @ to_hex handle"

definition EventFlagService_Find :: "u64 \<Rightarrow> kernel \<Rightarrow> event_flag option" where
  "EventFlagService_Find handle k =
     (case HandleTable_Find handle kEventFlag (handles k) of
        Some (EventFlagObject e) \<Rightarrow> Some e
      | _ \<Rightarrow> None)"

definition EventFlagService_Create ::
  "string \<Rightarrow> u32 \<Rightarrow> u64 \<Rightarrow> kernel \<Rightarrow> event_flag_create_result \<times> kernel" where
  "EventFlagService_Create name attributes initial_pattern k =
     (if length name > kMaximumEventFlagNameLength \<or> \<not> EventFlag_IsValidAttributes attributes
      then (\<lparr>ec_status = kInvalidArgument, ec_handle = kInvalidKernelHandle\<rparr>, k)
      else
        let object = EventFlagObject \<lparr>ef_name = name, ef_attributes = attributes,
                                      ef_bits = initial_pattern\<rparr>
        in case HandleTable_Insert (Some object) (handles k) of
            (None, t) \<Rightarrow>
              (\<lparr>ec_status = kNoResources, ec_handle = kInvalidKernelHandle\<rparr>, k\<lparr>handles := t\<rparr>)
          | (Some handle, t) \<Rightarrow> (\<lparr>ec_status = kOk, ec_handle = handle\<rparr>, k\<lparr>handles := t\<rparr>))"

definition EventFlagService_Delete :: "u64 \<Rightarrow> u64 \<Rightarrow> kernel \<Rightarrow> kernel_status \<times> kernel" where
  "EventFlagService_Delete now handle k =
     (case HandleTable_Remove handle kEventFlag (handles k) of
        (None, _) \<Rightarrow> (kNotFound, k)
      | (Some _, t) \<Rightarrow>
          (kOk, k\<lparr>handles := t,
                  sched := WakeAllBlocked now (EventFlag_MakeWaitKey handle) (sched k)\<rparr>))"

definition EventFlagService_Set :: "u64 \<Rightarrow> u64 \<Rightarrow> u64 \<Rightarrow> kernel \<Rightarrow> kernel_status \<times> kernel" where
  "EventFlagService_Set now handle pattern k =
     (case EventFlagService_Find handle k of
        None \<Rightarrow> (kNotFound, k)
      | Some e \<Rightarrow>
          (kOk, k\<lparr>handles := store_object handle (EventFlagObject (EventFlag_Set pattern e)) (handles k),
                  sched := WakeAllBlocked now (EventFlag_MakeWaitKey handle) (sched k)\<rparr>))"

definition EventFlagService_Clear :: "u64 \<Rightarrow> u64 \<Rightarrow> kernel \<Rightarrow> kernel_status \<times> kernel" where
  "EventFlagService_Clear handle mask_bits k =
     (case EventFlagService_Find handle k of
        None \<Rightarrow> (kNotFound, k)
      | Some e \<Rightarrow>
          (kOk, k\<lparr>handles := store_object handle (EventFlagObject (EventFlag_Clear mask_bits e))
                               (handles k)\<rparr>))"

definition EventFlagService_Poll ::
  "u64 \<Rightarrow> u64 \<Rightarrow> u32 \<Rightarrow> kernel \<Rightarrow> event_flag_poll_result \<times> kernel" where
  "EventFlagService_Poll handle pattern wait_mode k =
     (case EventFlagService_Find handle k of
        None \<Rightarrow> (\<lparr>ep_status = kNotFound, ep_observed_pattern = 0\<rparr>, k)
      | Some e \<Rightarrow>
          (case if pattern = 0 then None else DecodeWaitMode wait_mode of
             None \<Rightarrow> (\<lparr>ep_status = kInvalidArgument, ep_observed_pattern = 0\<rparr>, k)
           | Some (condition, clear_mode) \<Rightarrow>
               let (result, e') = EventFlag_Poll pattern condition clear_mode e
               in (\<lparr>ep_status = (if es_satisfied result then kOk else kBusy),
                    ep_observed_pattern = es_observed_pattern result\<rparr>,
                   k\<lparr>handles := store_object handle (EventFlagObject e') (handles k)\<rparr>)))"

definition EventFlagService_Wait ::
  "u64 \<Rightarrow> u64 \<Rightarrow> u32 \<Rightarrow> kernel \<Rightarrow> event_flag_poll_result \<times> kernel" where
  "EventFlagService_Wait handle pattern wait_mode k =
     (let (result, k1) = EventFlagService_Poll handle pattern wait_mode k in
      if ep_status result \<noteq> kBusy then (result, k1)
      else case BlockCurrent (EventFlag_MakeWaitKey handle) (sched k1) of
          (False, s) \<Rightarrow> (result, k1\<lparr>sched := s\<rparr>)
        | (True, s) \<Rightarrow>
            (\<lparr>ep_status = kWouldBlock, ep_observed_pattern = ep_observed_pattern result\<rparr>,
             k1\<lparr>sched := s\<rparr>))"

section \<open>Lemmas\<close>

lemma EventFlag_MakeWaitKey_inject [simp]:
  "EventFlag_MakeWaitKey a = EventFlag_MakeWaitKey b \<longleftrightarrow> a = b"
  by (simp add: EventFlag_MakeWaitKey_def)

lemma EventFlag_MakeWaitKey_nonempty [simp]: "EventFlag_MakeWaitKey a \<noteq> ''''"
  by (simp add: EventFlag_MakeWaitKey_def)

lemma EventFlagService_Find_Some:
  "EventFlagService_Find h k = Some e \<longleftrightarrow>
     HandleTable_Find h kEventFlag (handles k) = Some (EventFlagObject e)"
  by (auto simp: EventFlagService_Find_def split: option.splits kernel_object.splits)

lemma EventFlagService_Find_None:
  "EventFlagService_Find h k = None \<longleftrightarrow> HandleTable_Find h kEventFlag (handles k) = None"
  by (auto simp: EventFlagService_Find_def HandleTable_Find_Some split: option.splits kernel_object.splits)

text \<open>The low byte's two nibbles and the rest of a mode word determine it.\<close>

lemma mode_word_split:
  fixes m :: u32
  assumes "m AND NOT 0x33 = 0"
  shows "m = (m AND 0x0f) OR (m AND 0xf0)"
proof -
  have "m = (m AND 0x33) OR (m AND NOT 0x33)" by (simp flip: bit.conj_disj_distrib)
  with assms have in33: "m AND 0x33 = m" by simp
  have "(m AND 0x33) AND 0xff = m AND 0x33" by (simp add: and.assoc)
  with in33 have "m AND 0xff = m" by simp
  moreover have "(m AND 0x0f) OR (m AND 0xf0) = m AND 0xff"
    by (simp flip: bit.conj_disj_distrib)
  ultimately show ?thesis by simp
qed

fun encode_wait_mode :: "event_flag_wait_condition \<Rightarrow> event_flag_clear_mode \<Rightarrow> u32" where
  "encode_wait_mode c m =
     (case c of kAll \<Rightarrow> 1 | kAny \<Rightarrow> 2) + (case m of kClearNone \<Rightarrow> 0 | kClearAll \<Rightarrow> 0x10 | kClearPattern \<Rightarrow> 0x20)"

lemma DecodeWaitMode_Some:
  "DecodeWaitMode m = Some (c, cl) \<longleftrightarrow> m = encode_wait_mode c cl"
proof
  assume d: "DecodeWaitMode m = Some (c, cl)"
  then have "m = (m AND 0x0f) OR (m AND 0xf0)"
    by (intro mode_word_split) (auto simp: DecodeWaitMode_def split: if_splits option.splits)
  moreover have "m AND 0x0f = (case c of kAll \<Rightarrow> 1 | kAny \<Rightarrow> 2)"
    using d by (auto simp: DecodeWaitMode_def split: if_splits option.splits)
  moreover have "m AND 0xf0 = (case cl of kClearNone \<Rightarrow> 0 | kClearAll \<Rightarrow> 0x10 | kClearPattern \<Rightarrow> 0x20)"
    using d by (auto simp: DecodeWaitMode_def split: if_splits option.splits)
  ultimately show "m = encode_wait_mode c cl"
    by (cases c; cases cl) simp_all
next
  assume "m = encode_wait_mode c cl"
  then show "DecodeWaitMode m = Some (c, cl)"
    by (cases c; cases cl) (simp_all add: DecodeWaitMode_def)
qed

lemma EventFlagService_Poll_cases:
  obtains "HandleTable_Find h kEventFlag (handles k) = None"
    "EventFlagService_Poll h pattern mode k = (\<lparr>ep_status = kNotFound, ep_observed_pattern = 0\<rparr>, k)"
  | e where "HandleTable_Find h kEventFlag (handles k) = Some (EventFlagObject e)"
    "pattern = 0 \<or> DecodeWaitMode mode = None"
    "EventFlagService_Poll h pattern mode k =
       (\<lparr>ep_status = kInvalidArgument, ep_observed_pattern = 0\<rparr>, k)"
  | e c m r e' where "HandleTable_Find h kEventFlag (handles k) = Some (EventFlagObject e)"
    "pattern \<noteq> 0" "DecodeWaitMode mode = Some (c, m)" "EventFlag_Poll pattern c m e = (r, e')"
    "EventFlagService_Poll h pattern mode k =
       (\<lparr>ep_status = (if es_satisfied r then kOk else kBusy),
         ep_observed_pattern = es_observed_pattern r\<rparr>,
        k\<lparr>handles := store_object h (EventFlagObject e') (handles k)\<rparr>)"
proof (cases "EventFlagService_Find h k")
  case None
  with that(1) show ?thesis by (simp add: EventFlagService_Poll_def EventFlagService_Find_None)
next
  case (Some e)
  then have f: "HandleTable_Find h kEventFlag (handles k) = Some (EventFlagObject e)"
    by (simp add: EventFlagService_Find_Some)
  show ?thesis
  proof (cases "pattern = 0 \<or> DecodeWaitMode mode = None")
    case True
    with Some f that(2) show ?thesis by (auto simp: EventFlagService_Poll_def)
  next
    case False
    then obtain c m where cm: "DecodeWaitMode mode = Some (c, m)" by auto
    obtain r e' where p: "EventFlag_Poll pattern c m e = (r, e')" by fastforce
    from False Some cm p have "EventFlagService_Poll h pattern mode k =
        (\<lparr>ep_status = (if es_satisfied r then kOk else kBusy),
          ep_observed_pattern = es_observed_pattern r\<rparr>,
         k\<lparr>handles := store_object h (EventFlagObject e') (handles k)\<rparr>)"
      by (simp add: EventFlagService_Poll_def)
    with that(3) f False cm p show ?thesis by blast
  qed
qed

section \<open>Invariants\<close>

lemma EventFlagService_Create_ok:
  "kernel_ok k \<Longrightarrow> kernel_ok (snd (EventFlagService_Create name attributes bits k))"
  by (auto simp: EventFlagService_Create_def Let_def intro: kernel_ok_insert
      split: prod.splits option.splits)

lemma EventFlagService_Delete_ok:
  "kernel_ok k \<Longrightarrow> kernel_ok (snd (EventFlagService_Delete now h k))"
  by (auto simp: EventFlagService_Delete_def intro: kernel_ok_remove_wake
      split: prod.splits option.splits)

lemma EventFlagService_Set_ok:
  "kernel_ok k \<Longrightarrow> kernel_ok (snd (EventFlagService_Set now h pattern k))"
  by (auto simp: EventFlagService_Set_def EventFlagService_Find_Some
      intro: kernel_ok_store_wake split: option.splits)

lemma EventFlagService_Clear_ok:
  "kernel_ok k \<Longrightarrow> kernel_ok (snd (EventFlagService_Clear h mask_bits k))"
  by (auto simp: EventFlagService_Clear_def EventFlagService_Find_Some
      intro: kernel_ok_store split: option.splits)

lemma EventFlagService_Poll_ok:
  "kernel_ok k \<Longrightarrow> kernel_ok (snd (EventFlagService_Poll h pattern mode k))"
  by (cases rule: EventFlagService_Poll_cases [of h k pattern mode])
    (auto intro: kernel_ok_store)

lemma EventFlagService_Wait_ok:
  assumes ok: "kernel_ok k"
  shows "kernel_ok (snd (EventFlagService_Wait h pattern mode k))"
proof -
  obtain r k1 where p: "EventFlagService_Poll h pattern mode k = (r, k1)" by fastforce
  have ok1: "kernel_ok k1" using EventFlagService_Poll_ok [OF ok, of h pattern mode] p by simp
  obtain b s where bl: "BlockCurrent (EventFlag_MakeWaitKey h) (sched k1) = (b, s)" by fastforce
  then have "kernel_ok (k1\<lparr>sched := s\<rparr>)"
    unfolding BlockCurrent_def by (rule kernel_ok_block [OF ok1])
  with ok1 p bl show ?thesis by (cases b) (simp_all add: EventFlagService_Wait_def)
qed

text \<open>
  No operation leaves a thread waiting on a missing object, whichever service's keys are
  looked at: the keys of another service are never the keys of an event flag.
\<close>

lemma EventFlagService_Create_orphans:
  "no_orphans ty key k \<Longrightarrow> kernel_ok k \<Longrightarrow>
   no_orphans ty key (snd (EventFlagService_Create name attributes bits k))"
  by (auto simp: EventFlagService_Create_def Let_def intro: no_orphans_insert
      split: prod.splits option.splits)

lemma EventFlagService_Delete_orphans:
  "no_orphans ty key k \<Longrightarrow> kernel_ok k \<Longrightarrow> (ty = kEventFlag \<Longrightarrow> key = EventFlag_MakeWaitKey) \<Longrightarrow>
   no_orphans ty key (snd (EventFlagService_Delete now h k))"
  by (auto simp: EventFlagService_Delete_def inj_def intro: no_orphans_remove_wake
      split: prod.splits option.splits)

lemma EventFlagService_Set_orphans:
  "no_orphans ty key k \<Longrightarrow> kernel_ok k \<Longrightarrow>
   no_orphans ty key (snd (EventFlagService_Set now h pattern k))"
  by (auto simp: EventFlagService_Set_def EventFlagService_Find_Some kernel_okD(2)
      intro: no_orphans_store_wake split: option.splits)

lemma EventFlagService_Clear_orphans:
  "no_orphans ty key k \<Longrightarrow> no_orphans ty key (snd (EventFlagService_Clear h mask_bits k))"
  by (auto simp: EventFlagService_Clear_def EventFlagService_Find_Some
      intro: no_orphans_store split: option.splits)

lemma EventFlagService_Poll_orphans:
  "no_orphans ty key k \<Longrightarrow> no_orphans ty key (snd (EventFlagService_Poll h pattern mode k))"
  by (cases rule: EventFlagService_Poll_cases [of h k pattern mode])
    (auto intro: no_orphans_store)

lemma EventFlagService_Wait_orphans:
  assumes "no_orphans ty key k" "kernel_ok k"
    "\<And>x. key x = EventFlag_MakeWaitKey h \<Longrightarrow> ty = kEventFlag \<and> x = h"
  shows "no_orphans ty key (snd (EventFlagService_Wait h pattern mode k))"
proof -
  obtain r k1 where p: "EventFlagService_Poll h pattern mode k = (r, k1)" by fastforce
  have ok1: "kernel_ok k1" using EventFlagService_Poll_ok [OF assms(2), of h pattern mode] p by simp
  have or1: "no_orphans ty key k1"
    using EventFlagService_Poll_orphans [OF assms(1), of h pattern mode] p by simp
  show ?thesis
  proof (cases "ep_status r = kBusy")
    case False
    with p or1 show ?thesis by (simp add: EventFlagService_Wait_def)
  next
    case True
    then have found: "HandleTable_Find h kEventFlag (handles k1) \<noteq> None"
      using p by (cases rule: EventFlagService_Poll_cases [of h k pattern mode])
        (auto simp: find_after_store)
    obtain b s where bl: "BlockCurrent (EventFlag_MakeWaitKey h) (sched k1) = (b, s)" by fastforce
    have "no_orphans ty key (k1\<lparr>sched := s\<rparr>)"
      by (rule no_orphans_block [OF or1 kernel_okD(2) [OF ok1] bl [unfolded BlockCurrent_def]])
        (use found assms(3) in metis)
    with p bl True show ?thesis by (cases b) (simp_all add: EventFlagService_Wait_def)
  qed
qed

section \<open>Properties\<close>

text \<open>
  C11: A wait mode word is accepted exactly when it is the encoding of one wait condition and one
  clear mode, and decoding returns these two: every other bit pattern is rejected.
\<close>

theorem wait_mode_roundtrip:
  "DecodeWaitMode m = Some (c, cl) \<longleftrightarrow> m = encode_wait_mode c cl"
  by (rule DecodeWaitMode_Some)

definition flag_satisfied :: "event_flag_wait_condition \<Rightarrow> u64 \<Rightarrow> u64 \<Rightarrow> bool" where
  "flag_satisfied c q bits \<longleftrightarrow> (case c of kAll \<Rightarrow> bits AND q = q | kAny \<Rightarrow> bits AND q \<noteq> 0)"

fun cleared_bits :: "event_flag_clear_mode \<Rightarrow> u64 \<Rightarrow> u64 \<Rightarrow> u64" where
  "cleared_bits kClearNone q bits = bits"
| "cleared_bits kClearAll q bits = 0"
| "cleared_bits kClearPattern q bits = bits AND NOT q"

lemma EventFlag_Poll_eq:
  "EventFlag_Poll q c m e =
     (\<lparr>es_satisfied = flag_satisfied c q (ef_bits e), es_observed_pattern = ef_bits e\<rparr>,
      if flag_satisfied c q (ef_bits e) then e\<lparr>ef_bits := cleared_bits m q (ef_bits e)\<rparr> else e)"
  by (cases c; cases m) (simp_all add: EventFlag_Poll_def flag_satisfied_def)

lemma and_or_absorb: "q AND p = q \<Longrightarrow> (b OR p) AND q = (q :: u64)"
  by (rule bit_word_eqI) (metis bit_and_iff bit_or_iff)

text \<open>
  C12: Setting bits of an existing flag wakes every thread that waits on it, and the woken thread's
  next poll for bits among the ones just set succeeds, with either wait condition.
\<close>

theorem set_releases_waiters:
  assumes "kernel_ok k" "EventFlagService_Set now h p k = (kOk, k')" "q \<noteq> 0" "q AND p = q"
    "DecodeWaitMode mode = Some (c, m)"
  shows "waiters (sched k') (EventFlag_MakeWaitKey h) = {} \<and>
    ep_status (fst (EventFlagService_Poll h q mode k')) = kOk"
proof -
  obtain e where f: "HandleTable_Find h kEventFlag (handles k) = Some (EventFlagObject e)"
    and k': "k' = k\<lparr>handles := store_object h (EventFlagObject (EventFlag_Set p e)) (handles k),
      sched := WakeAllBlocked now (EventFlag_MakeWaitKey h) (sched k)\<rparr>"
    using assms(2) by (auto simp: EventFlagService_Set_def EventFlagService_Find_Some split: option.splits)
  have w: "waiters (sched k') (EventFlag_MakeWaitKey h) = {}"
    using wq.wake_waiting [OF kernel_okD(2) [OF assms(1)] EventFlag_MakeWaitKey_nonempty] by (simp add: k')
  have "EventFlagService_Find h k' = Some (EventFlag_Set p e)"
    using f by (simp add: EventFlagService_Find_Some k' find_after_store)
  moreover have "flag_satisfied c q (ef_bits (EventFlag_Set p e))"
    using and_or_absorb [OF assms(4)] assms(3) by (cases c) (simp_all add: flag_satisfied_def EventFlag_Set_def)
  ultimately have "ep_status (fst (EventFlagService_Poll h q mode k')) = kOk"
    using assms(3,5) by (simp add: EventFlagService_Poll_def EventFlag_Poll_eq)
  with w show ?thesis by blast
qed

definition example_flag_kernel :: kernel where
  "example_flag_kernel = snd (EventFlagService_Create ''f'' 0 0 empty_kernel)"

theorem set_releases_waiters_witness:
  "ep_status (fst (EventFlagService_Poll 1 2 1 (snd (EventFlagService_Set 0 1 3 example_flag_kernel)))) = kOk"
proof -
  obtain st k' where e: "EventFlagService_Set 0 1 3 example_flag_kernel = (st, k')" by fastforce
  have ok: "kernel_ok example_flag_kernel"
    unfolding example_flag_kernel_def by (rule EventFlagService_Create_ok [OF empty_kernel_ok])
  have "EventFlagService_Find 1 example_flag_kernel \<noteq> None" by code_simp
  then have s: "EventFlagService_Set 0 1 3 example_flag_kernel = (kOk, k')"
    using e by (auto simp: EventFlagService_Set_def)
  have "DecodeWaitMode 1 = Some (kAll, kClearNone)" by (simp add: DecodeWaitMode_Some)
  from set_releases_waiters [OF ok s _ _ this, of 2] s show ?thesis by simp
qed

text \<open>
  C13: A wait on an existing flag with valid arguments either succeeds and clears exactly the bits
  the clear mode names, or leaves the flag as it was and, when a guest thread runs, blocks that
  thread on the flag's key.
\<close>

theorem wait_succeeds_or_blocks:
  assumes "kernel_ok k" "HandleTable_Find h kEventFlag (handles k) = Some (EventFlagObject e)" "q \<noteq> 0"
    "DecodeWaitMode mode = Some (c, m)" "current_thread (sched k) = Some j"
    "EventFlagService_Wait h q mode k = (r, k')"
  shows "if flag_satisfied c q (ef_bits e)
    then ep_status r = kOk \<and> ep_observed_pattern r = ef_bits e \<and> sched k' = sched k \<and>
      HandleTable_Find h kEventFlag (handles k') =
        Some (EventFlagObject (e\<lparr>ef_bits := cleared_bits m q (ef_bits e)\<rparr>))
    else ep_status r = kWouldBlock \<and> j \<in> waiters (sched k') (EventFlag_MakeWaitKey h) \<and>
      current_thread (sched k') = None \<and>
      HandleTable_Find h kEventFlag (handles k') = Some (EventFlagObject e)"
proof -
  let ?sat = "flag_satisfied c q (ef_bits e)"
  define e' where "e' = (if ?sat then e\<lparr>ef_bits := cleared_bits m q (ef_bits e)\<rparr> else e)"
  let ?k1 = "k\<lparr>handles := store_object h (EventFlagObject e') (handles k)\<rparr>"
  have poll: "EventFlagService_Poll h q mode k =
      (\<lparr>ep_status = (if ?sat then kOk else kBusy), ep_observed_pattern = ef_bits e\<rparr>, ?k1)"
    using assms(2-4) EventFlagService_Find_Some [of h k e]
    by (simp add: EventFlagService_Poll_def EventFlag_Poll_eq e'_def)
  have st: "HandleTable_Find h kEventFlag (handles ?k1) = Some (EventFlagObject e')"
    using assms(2) by (simp add: find_after_store)
  obtain b s where bl: "BlockCurrent (EventFlag_MakeWaitKey h) (sched k) = (b, s)" by fastforce
  note so = kernel_okD(2) [OF assms(1)]
  note blk = wq.waiter_is_woken(1,2) [OF so EventFlag_MakeWaitKey_nonempty assms(5) bl [unfolded BlockCurrent_def]]
  have cur: "current_thread s = None"
    using wq.block_runner [OF so, of "EventFlag_MakeWaitKey h" None s] bl blk(1) by (simp add: BlockCurrent_def)
  show ?thesis
  proof (cases ?sat)
    case True
    then show ?thesis using assms(6) poll st by (auto simp: EventFlagService_Wait_def e'_def)
  next
    case False
    then show ?thesis using assms(6) poll st bl blk cur by (auto simp: EventFlagService_Wait_def e'_def)
  qed
qed

definition example_flag_waiting :: kernel where
  "example_flag_waiting =
     (let k = snd (CreateThread ''t'' 0 0 0 example_flag_kernel)
      in k\<lparr>sched := snd (SelectNext 0 (sched k))\<rparr>)"

theorem wait_succeeds_or_blocks_witness:
  "ep_status (fst (EventFlagService_Wait 1 2 1 example_flag_waiting)) = kWouldBlock"
proof -
  let ?e = "\<lparr>ef_name = ''f'', ef_attributes = 0, ef_bits = 0\<rparr>"
  have ok: "kernel_ok example_flag_waiting"
    unfolding example_flag_waiting_def Let_def example_flag_kernel_def
    by (intro kernel_ok_sched kernel_ok_CreateThread EventFlagService_Create_ok empty_kernel_ok
        SelectNext_ok kernel_okD(2)) simp
  have f: "HandleTable_Find 1 kEventFlag (handles example_flag_waiting) = Some (EventFlagObject ?e)"
    and cur: "current_thread (sched example_flag_waiting) = Some 2" by code_simp+
  have d: "DecodeWaitMode 1 = Some (kAll, kClearNone)" by (simp add: DecodeWaitMode_Some)
  obtain r k' where w: "EventFlagService_Wait 1 2 1 example_flag_waiting = (r, k')" by fastforce
  from wait_succeeds_or_blocks [OF ok f _ d cur w] w show ?thesis by (simp add: flag_satisfied_def)
qed

end
