(* ===== verification/Semaphore.thy ===== *)
theory Semaphore
  imports Scheduler_Behaviour
begin

text \<open>
  Counting semaphores (\<open>kernel/semaphore\<close>). The counts are \<open>std::int32_t\<close>; they are modelled as
  integers, and \<open>semaphore_ok\<close> keeps them, and every difference the code forms, inside the
  32-bit range, so no operation overflows.
\<close>

section \<open>The semaphore\<close>

definition Semaphore_Signal :: "int \<Rightarrow> semaphore \<Rightarrow> kernel_status \<times> semaphore" where
  "Semaphore_Signal count m =
     (if count \<le> 0 then (kInvalidArgument, m)
      else if count > sm_maximum_count m - sm_count m then (kInvalidArgument, m)
      else (kOk, m\<lparr>sm_count := sm_count m + count\<rparr>))"

text \<open>The out parameter \<open>remaining_count\<close> keeps its caller's value on an invalid argument.\<close>

definition Semaphore_TryAcquire ::
  "int \<Rightarrow> int \<Rightarrow> semaphore \<Rightarrow> (kernel_status \<times> int) \<times> semaphore" where
  "Semaphore_TryAcquire count remaining_count m =
     (if count \<le> 0 \<or> count > sm_maximum_count m then ((kInvalidArgument, remaining_count), m)
      else if sm_count m < count then ((kBusy, sm_count m), m)
      else ((kOk, sm_count m - count), m\<lparr>sm_count := sm_count m - count\<rparr>))"

section \<open>The service\<close>

record semaphore_create_result =
  sc_status :: kernel_status
  sc_handle :: u64

record semaphore_count_result =
  sr_status :: kernel_status
  sr_remaining_count :: int

abbreviation kMaximumSemaphoreNameLength :: nat where
  "kMaximumSemaphoreNameLength \<equiv> 128"

definition Semaphore_IsValidAttributes :: "u32 \<Rightarrow> bool" where
  "Semaphore_IsValidAttributes attributes \<longleftrightarrow>
     attributes = 0 \<or> attributes = 0x01 \<or> attributes = 0x02"

definition Semaphore_MakeWaitKey :: "u64 \<Rightarrow> string" where
  "Semaphore_MakeWaitKey handle = ''semaphore:'' @ to_hex handle"

definition SemaphoreService_Find :: "u64 \<Rightarrow> kernel \<Rightarrow> semaphore option" where
  "SemaphoreService_Find handle k =
     (case HandleTable_Find handle kSemaphore (handles k) of
        Some (SemaphoreObject m) \<Rightarrow> Some m
      | _ \<Rightarrow> None)"

definition SemaphoreService_Create ::
  "string \<Rightarrow> u32 \<Rightarrow> int \<Rightarrow> int \<Rightarrow> kernel \<Rightarrow> semaphore_create_result \<times> kernel" where
  "SemaphoreService_Create name attributes initial_count maximum_count k =
     (if length name > kMaximumSemaphoreNameLength \<or> \<not> Semaphore_IsValidAttributes attributes \<or>
         initial_count < 0 \<or> maximum_count \<le> 0 \<or> initial_count > maximum_count
      then (\<lparr>sc_status = kInvalidArgument, sc_handle = kInvalidKernelHandle\<rparr>, k)
      else
        let object = SemaphoreObject \<lparr>sm_name = name, sm_attributes = attributes,
                       sm_maximum_count = maximum_count, sm_count = initial_count\<rparr>
        in case HandleTable_Insert (Some object) (handles k) of
            (None, t) \<Rightarrow>
              (\<lparr>sc_status = kNoResources, sc_handle = kInvalidKernelHandle\<rparr>, k\<lparr>handles := t\<rparr>)
          | (Some handle, t) \<Rightarrow> (\<lparr>sc_status = kOk, sc_handle = handle\<rparr>, k\<lparr>handles := t\<rparr>))"

definition SemaphoreService_Delete :: "u64 \<Rightarrow> u64 \<Rightarrow> kernel \<Rightarrow> kernel_status \<times> kernel" where
  "SemaphoreService_Delete now handle k =
     (case HandleTable_Remove handle kSemaphore (handles k) of
        (None, _) \<Rightarrow> (kNotFound, k)
      | (Some _, t) \<Rightarrow>
          (kOk, k\<lparr>handles := t,
                  sched := WakeAllBlocked now (Semaphore_MakeWaitKey handle) (sched k)\<rparr>))"

definition SemaphoreService_Signal :: "u64 \<Rightarrow> u64 \<Rightarrow> int \<Rightarrow> kernel \<Rightarrow> kernel_status \<times> kernel" where
  "SemaphoreService_Signal now handle count k =
     (case SemaphoreService_Find handle k of
        None \<Rightarrow> (kNotFound, k)
      | Some m \<Rightarrow>
          let (status, m') = Semaphore_Signal count m;
              k1 = k\<lparr>handles := store_object handle (SemaphoreObject m') (handles k)\<rparr>
          in if status = kOk
             then (status, k1\<lparr>sched := WakeAllBlocked now (Semaphore_MakeWaitKey handle) (sched k1)\<rparr>)
             else (status, k1))"

definition SemaphoreService_Poll ::
  "u64 \<Rightarrow> int \<Rightarrow> kernel \<Rightarrow> semaphore_count_result \<times> kernel" where
  "SemaphoreService_Poll handle count k =
     (case SemaphoreService_Find handle k of
        None \<Rightarrow> (\<lparr>sr_status = kNotFound, sr_remaining_count = 0\<rparr>, k)
      | Some m \<Rightarrow>
          let ((status, remaining_count), m') = Semaphore_TryAcquire count 0 m
          in (\<lparr>sr_status = status, sr_remaining_count = remaining_count\<rparr>,
              k\<lparr>handles := store_object handle (SemaphoreObject m') (handles k)\<rparr>))"

definition SemaphoreService_Wait ::
  "u64 \<Rightarrow> int \<Rightarrow> kernel \<Rightarrow> semaphore_count_result \<times> kernel" where
  "SemaphoreService_Wait handle count k =
     (let (result, k1) = SemaphoreService_Poll handle count k in
      if sr_status result \<noteq> kBusy then (result, k1)
      else case BlockCurrent (Semaphore_MakeWaitKey handle) (sched k1) of
          (False, s) \<Rightarrow> (result, k1\<lparr>sched := s\<rparr>)
        | (True, s) \<Rightarrow>
            (\<lparr>sr_status = kWouldBlock, sr_remaining_count = sr_remaining_count result\<rparr>,
             k1\<lparr>sched := s\<rparr>))"

definition SemaphoreService_GetCount :: "u64 \<Rightarrow> kernel \<Rightarrow> semaphore_count_result" where
  "SemaphoreService_GetCount handle k =
     (case SemaphoreService_Find handle k of
        None \<Rightarrow> \<lparr>sr_status = kNotFound, sr_remaining_count = 0\<rparr>
      | Some m \<Rightarrow> \<lparr>sr_status = kOk, sr_remaining_count = sm_count m\<rparr>)"

section \<open>Counts\<close>

definition semaphore_ok :: "semaphore \<Rightarrow> bool" where
  "semaphore_ok m \<longleftrightarrow>
     0 \<le> sm_count m \<and> sm_count m \<le> sm_maximum_count m \<and> 0 < sm_maximum_count m \<and>
     sm_maximum_count m < 2 ^ 31"

definition semaphores_ok :: "kernel \<Rightarrow> bool" where
  "semaphores_ok k \<longleftrightarrow>
     (\<forall>h m. HandleTable_Find h kSemaphore (handles k) = Some (SemaphoreObject m) \<longrightarrow> semaphore_ok m)"

lemma Semaphore_Signal_ok:
  "semaphore_ok m \<Longrightarrow> Semaphore_Signal n m = (st, m') \<Longrightarrow>
   semaphore_ok m' \<and> sm_maximum_count m' = sm_maximum_count m \<and>
   sm_count m' = sm_count m + (if st = kOk then n else 0)"
  by (auto simp: Semaphore_Signal_def semaphore_ok_def split: if_splits)

lemma Semaphore_TryAcquire_ok:
  "semaphore_ok m \<Longrightarrow> Semaphore_TryAcquire n r m = ((st, r'), m') \<Longrightarrow>
   semaphore_ok m' \<and> sm_maximum_count m' = sm_maximum_count m \<and>
   sm_count m' = sm_count m - (if st = kOk then n else 0)"
  by (auto simp: Semaphore_TryAcquire_def semaphore_ok_def split: if_splits)

lemma Semaphore_MakeWaitKey_inject [simp]:
  "Semaphore_MakeWaitKey a = Semaphore_MakeWaitKey b \<longleftrightarrow> a = b"
  by (simp add: Semaphore_MakeWaitKey_def)

lemma Semaphore_MakeWaitKey_nonempty [simp]: "Semaphore_MakeWaitKey a \<noteq> ''''"
  by (simp add: Semaphore_MakeWaitKey_def)

lemma SemaphoreService_Find_Some:
  "SemaphoreService_Find h k = Some m \<longleftrightarrow>
     HandleTable_Find h kSemaphore (handles k) = Some (SemaphoreObject m)"
  by (auto simp: SemaphoreService_Find_def split: option.splits kernel_object.splits)

lemma SemaphoreService_Find_None:
  "SemaphoreService_Find h k = None \<longleftrightarrow> HandleTable_Find h kSemaphore (handles k) = None"
  by (auto simp: SemaphoreService_Find_def HandleTable_Find_Some split: option.splits kernel_object.splits)

text \<open>A run of signals and acquisitions, with the net number of units that were granted.\<close>

datatype semaphore_op = Op_Signal int | Op_Acquire int

fun run_semaphore :: "semaphore_op list \<Rightarrow> semaphore \<Rightarrow> int \<times> semaphore" where
  "run_semaphore [] m = (0, m)"
| "run_semaphore (Op_Signal n # ops) m =
     (let (st, m1) = Semaphore_Signal n m;
          (net, m2) = run_semaphore ops m1
      in (net + (if st = kOk then n else 0), m2))"
| "run_semaphore (Op_Acquire n # ops) m =
     (let ((st, _), m1) = Semaphore_TryAcquire n 0 m;
          (net, m2) = run_semaphore ops m1
      in (net - (if st = kOk then n else 0), m2))"

lemma run_semaphore_conserves:
  "semaphore_ok m \<Longrightarrow> run_semaphore ops m = (net, m') \<Longrightarrow>
   semaphore_ok m' \<and> sm_maximum_count m' = sm_maximum_count m \<and> sm_count m' = sm_count m + net"
proof (induction ops m arbitrary: net m' rule: run_semaphore.induct)
  case (1 m)
  then show ?case by simp
next
  case (2 n ops m)
  obtain st m1 where s: "Semaphore_Signal n m = (st, m1)" by fastforce
  obtain net1 m2 where r: "run_semaphore ops m1 = (net1, m2)" by fastforce
  from Semaphore_Signal_ok [OF 2(2) s] 2(1) [OF refl s [symmetric] _ r] 2(3) s r
  show ?case by auto
next
  case (3 n ops m)
  obtain st q m1 where s: "Semaphore_TryAcquire n 0 m = ((st, q), m1)" by (metis surj_pair)
  obtain net1 m2 where r: "run_semaphore ops m1 = (net1, m2)" by fastforce
  from Semaphore_TryAcquire_ok [OF 3(2) s] 3(1) [OF s [symmetric] refl refl _ r] 3(3) s r
  show ?case by auto
qed

section \<open>Invariants of the service\<close>

lemma SemaphoreService_Poll_cases:
  obtains "HandleTable_Find h kSemaphore (handles k) = None"
    "SemaphoreService_Poll h n k = (\<lparr>sr_status = kNotFound, sr_remaining_count = 0\<rparr>, k)"
  | m st r m' where "HandleTable_Find h kSemaphore (handles k) = Some (SemaphoreObject m)"
    "Semaphore_TryAcquire n 0 m = ((st, r), m')"
    "SemaphoreService_Poll h n k = (\<lparr>sr_status = st, sr_remaining_count = r\<rparr>,
       k\<lparr>handles := store_object h (SemaphoreObject m') (handles k)\<rparr>)"
proof (cases "SemaphoreService_Find h k")
  case None
  with that(1) show ?thesis by (simp add: SemaphoreService_Poll_def SemaphoreService_Find_None)
next
  case (Some m)
  obtain st r m' where t: "Semaphore_TryAcquire n 0 m = ((st, r), m')" by (metis surj_pair)
  show ?thesis
    by (rule that(2) [OF _ t]) (use Some t in \<open>simp_all add: SemaphoreService_Poll_def
        SemaphoreService_Find_Some [symmetric]\<close>)
qed

lemma SemaphoreService_Signal_cases:
  obtains "HandleTable_Find h kSemaphore (handles k) = None"
    "SemaphoreService_Signal now h n k = (kNotFound, k)"
  | m m' where "HandleTable_Find h kSemaphore (handles k) = Some (SemaphoreObject m)"
    "Semaphore_Signal n m = (kOk, m')"
    "SemaphoreService_Signal now h n k =
       (kOk, k\<lparr>handles := store_object h (SemaphoreObject m') (handles k),
               sched := WakeAllBlocked now (Semaphore_MakeWaitKey h) (sched k)\<rparr>)"
  | m st m' where "HandleTable_Find h kSemaphore (handles k) = Some (SemaphoreObject m)"
    "Semaphore_Signal n m = (st, m')" "st \<noteq> kOk"
    "SemaphoreService_Signal now h n k =
       (st, k\<lparr>handles := store_object h (SemaphoreObject m') (handles k)\<rparr>)"
proof (cases "SemaphoreService_Find h k")
  case None
  with that(1) show ?thesis by (simp add: SemaphoreService_Signal_def SemaphoreService_Find_None)
next
  case (Some m)
  obtain st m' where t: "Semaphore_Signal n m = (st, m')" by fastforce
  note f = SemaphoreService_Find_Some [THEN iffD1, OF Some]
  show ?thesis
  proof (cases "st = kOk")
    case True
    show ?thesis
      by (rule that(2) [OF f t [unfolded True]])
        (use Some t True in \<open>simp add: SemaphoreService_Signal_def\<close>)
  next
    case False
    show ?thesis
      by (rule that(3) [OF f t False]) (use Some t False in \<open>simp add: SemaphoreService_Signal_def\<close>)
  qed
qed

lemma SemaphoreService_Create_ok:
  "kernel_ok k \<Longrightarrow> kernel_ok (snd (SemaphoreService_Create name attributes n mx k))"
  by (auto simp: SemaphoreService_Create_def Let_def intro: kernel_ok_insert
      split: prod.splits option.splits)

lemma SemaphoreService_Delete_ok:
  "kernel_ok k \<Longrightarrow> kernel_ok (snd (SemaphoreService_Delete now h k))"
  by (auto simp: SemaphoreService_Delete_def intro: kernel_ok_remove_wake
      split: prod.splits option.splits)

lemma SemaphoreService_Signal_ok:
  "kernel_ok k \<Longrightarrow> kernel_ok (snd (SemaphoreService_Signal now h n k))"
  by (cases rule: SemaphoreService_Signal_cases [of h k now n])
    (auto intro: kernel_ok_store_wake kernel_ok_store)

lemma SemaphoreService_Poll_ok:
  "kernel_ok k \<Longrightarrow> kernel_ok (snd (SemaphoreService_Poll h n k))"
  by (cases rule: SemaphoreService_Poll_cases [of h k n]) (auto intro: kernel_ok_store)

lemma SemaphoreService_Wait_ok:
  assumes ok: "kernel_ok k"
  shows "kernel_ok (snd (SemaphoreService_Wait h n k))"
proof -
  obtain r k1 where p: "SemaphoreService_Poll h n k = (r, k1)" by fastforce
  have ok1: "kernel_ok k1" using SemaphoreService_Poll_ok [OF ok, of h n] p by simp
  obtain b s where bl: "BlockCurrent (Semaphore_MakeWaitKey h) (sched k1) = (b, s)" by fastforce
  then have "kernel_ok (k1\<lparr>sched := s\<rparr>)"
    unfolding BlockCurrent_def by (rule kernel_ok_block [OF ok1])
  with ok1 p bl show ?thesis by (cases b) (simp_all add: SemaphoreService_Wait_def)
qed

lemma SemaphoreService_Create_orphans:
  "no_orphans ty key k \<Longrightarrow> kernel_ok k \<Longrightarrow>
   no_orphans ty key (snd (SemaphoreService_Create name attributes n mx k))"
  by (auto simp: SemaphoreService_Create_def Let_def intro: no_orphans_insert
      split: prod.splits option.splits)

lemma SemaphoreService_Delete_orphans:
  "no_orphans ty key k \<Longrightarrow> kernel_ok k \<Longrightarrow> (ty = kSemaphore \<Longrightarrow> key = Semaphore_MakeWaitKey) \<Longrightarrow>
   no_orphans ty key (snd (SemaphoreService_Delete now h k))"
  by (auto simp: SemaphoreService_Delete_def inj_def intro: no_orphans_remove_wake
      split: prod.splits option.splits)

lemma SemaphoreService_Signal_orphans:
  "no_orphans ty key k \<Longrightarrow> kernel_ok k \<Longrightarrow>
   no_orphans ty key (snd (SemaphoreService_Signal now h n k))"
  by (cases rule: SemaphoreService_Signal_cases [of h k now n])
    (auto simp: kernel_okD(2) intro: no_orphans_store_wake no_orphans_store)

lemma SemaphoreService_Poll_orphans:
  "no_orphans ty key k \<Longrightarrow> no_orphans ty key (snd (SemaphoreService_Poll h n k))"
  by (cases rule: SemaphoreService_Poll_cases [of h k n]) (auto intro: no_orphans_store)

lemma SemaphoreService_Poll_found:
  assumes "SemaphoreService_Poll h n k = (r, k1)" "sr_status r = kBusy"
  shows "HandleTable_Find h kSemaphore (handles k1) \<noteq> None"
  using assms by (cases rule: SemaphoreService_Poll_cases [of h k n]) (auto simp: find_after_store)

lemma SemaphoreService_Wait_orphans:
  assumes "no_orphans ty key k" "kernel_ok k"
    "\<And>x. key x = Semaphore_MakeWaitKey h \<Longrightarrow> ty = kSemaphore \<and> x = h"
  shows "no_orphans ty key (snd (SemaphoreService_Wait h n k))"
proof -
  obtain r k1 where p: "SemaphoreService_Poll h n k = (r, k1)" by fastforce
  have ok1: "kernel_ok k1" using SemaphoreService_Poll_ok [OF assms(2), of h n] p by simp
  have or1: "no_orphans ty key k1"
    using SemaphoreService_Poll_orphans [OF assms(1), of h n] p by simp
  obtain b s where bl: "BlockCurrent (Semaphore_MakeWaitKey h) (sched k1) = (b, s)" by fastforce
  have "no_orphans ty key (k1\<lparr>sched := s\<rparr>)" if "sr_status r = kBusy"
    by (rule no_orphans_block [OF or1 kernel_okD(2) [OF ok1] bl [unfolded BlockCurrent_def]])
      (use SemaphoreService_Poll_found [OF p that] assms(3) in metis)
  with p bl or1 show ?thesis by (cases b) (simp_all add: SemaphoreService_Wait_def)
qed

text \<open>The counts of every semaphore in the table stay in range.\<close>

lemma semaphores_ok_store:
  assumes "semaphores_ok k" "HandleTable_Find h kSemaphore (handles k) = Some ob" "semaphore_ok m'"
  shows "semaphores_ok (k\<lparr>handles := store_object h (SemaphoreObject m') (handles k)\<rparr>)"
  using assms by (auto simp: semaphores_ok_def find_after_store)

lemma semaphores_ok_cong: "handles k' = handles k \<Longrightarrow> semaphores_ok k' = semaphores_ok k"
  by (simp add: semaphores_ok_def)

lemma SemaphoreService_Create_semaphores:
  assumes "semaphores_ok k" "kernel_ok k" "mx < 2 ^ 31"
  shows "semaphores_ok (snd (SemaphoreService_Create name attributes n mx k))"
proof (cases "length name > kMaximumSemaphoreNameLength \<or> \<not> Semaphore_IsValidAttributes attributes \<or>
    n < 0 \<or> mx \<le> 0 \<or> n > mx")
  case True
  with assms show ?thesis by (auto simp: SemaphoreService_Create_def)
next
  case False
  let ?m = "\<lparr>sm_name = name, sm_attributes = attributes, sm_maximum_count = mx, sm_count = n\<rparr>"
  obtain r t where ins: "HandleTable_Insert (Some (SemaphoreObject ?m)) (handles k) = (r, t)"
    by fastforce
  have e: "snd (SemaphoreService_Create name attributes n mx k) = k\<lparr>handles := t\<rparr>"
    using False ins by (auto simp: SemaphoreService_Create_def Let_def split: option.splits)
  have m: "semaphore_ok ?m" using False assms(3) by (simp add: semaphore_ok_def)
  show ?thesis
  proof (cases r)
    case None
    with ins assms(1) show ?thesis
      unfolding e using ht.insert_fails by (metis kernel.surjective kernel.update_convs(1) unit.exhaust)
  next
    case (Some h)
    then show ?thesis
      using ht.insert_find [OF kernel_okD(1) [OF assms(2)] ins [unfolded Some]] m assms(1)
      by (auto simp: e semaphores_ok_def)
  qed
qed

lemma SemaphoreService_Signal_semaphores:
  "semaphores_ok k \<Longrightarrow> semaphores_ok (snd (SemaphoreService_Signal now h n k))"
  by (cases rule: SemaphoreService_Signal_cases [of h k now n])
    (auto simp: semaphores_ok_def find_after_store dest: Semaphore_Signal_ok)

lemma SemaphoreService_Poll_semaphores:
  "semaphores_ok k \<Longrightarrow> semaphores_ok (snd (SemaphoreService_Poll h n k))"
  by (cases rule: SemaphoreService_Poll_cases [of h k n])
    (auto simp: semaphores_ok_def find_after_store dest: Semaphore_TryAcquire_ok)

section \<open>Properties\<close>

text \<open>
  C14: Whatever signals and acquisitions are tried on a semaphore, and however many of them are
  refused, its count is its initial count plus the units signalled minus the units acquired, and
  it never leaves the range from zero to the maximum, so no 32-bit computation overflows.
\<close>

theorem semaphore_conserves_units:
  assumes "semaphore_ok m" "run_semaphore ops m = (net, m')"
  shows "sm_count m' = sm_count m + net \<and> sm_maximum_count m' = sm_maximum_count m \<and>
    0 \<le> sm_count m' \<and> sm_count m' \<le> sm_maximum_count m' \<and> sm_maximum_count m' < 2 ^ 31"
  using run_semaphore_conserves [OF assms] by (auto simp: semaphore_ok_def)

theorem semaphore_conserves_units_witness:
  "\<exists>net m'. run_semaphore [Op_Signal 2, Op_Acquire 3, Op_Signal 9, Op_Acquire 1]
     \<lparr>sm_name = ''s'', sm_attributes = 1, sm_maximum_count = 4, sm_count = 1\<rparr> = (net, m') \<and>
     sm_count m' = 1 + net"
proof -
  let ?m = "\<lparr>sm_name = ''s'', sm_attributes = 1, sm_maximum_count = 4, sm_count = 1\<rparr> :: semaphore"
  let ?ops = "[Op_Signal 2, Op_Acquire 3, Op_Signal 9, Op_Acquire 1]"
  obtain net m' where r: "run_semaphore ?ops ?m = (net, m')" by fastforce
  have "semaphore_ok ?m" by (simp add: semaphore_ok_def)
  from semaphore_conserves_units [OF this r] r show ?thesis by auto
qed

text \<open>
  C15: A signal that is accepted leaves no thread waiting on the semaphore, and a wait that cannot
  be granted at once blocks the running thread on exactly that semaphore and takes no unit.
\<close>

theorem signal_wakes_wait_blocks:
  assumes "kernel_ok k" "HandleTable_Find h kSemaphore (handles k) = Some (SemaphoreObject m)"
  shows "(fst (SemaphoreService_Signal now h n k) = kOk \<longrightarrow>
      waiters (sched (snd (SemaphoreService_Signal now h n k))) (Semaphore_MakeWaitKey h) = {} \<and>
      sr_remaining_count (SemaphoreService_GetCount h (snd (SemaphoreService_Signal now h n k))) = sm_count m + n) \<and>
    (0 < n \<longrightarrow> n \<le> sm_maximum_count m \<longrightarrow> sm_count m < n \<longrightarrow> current_thread (sched k) = Some j \<longrightarrow>
      sr_status (fst (SemaphoreService_Wait h n k)) = kWouldBlock \<and>
      j \<in> waiters (sched (snd (SemaphoreService_Wait h n k))) (Semaphore_MakeWaitKey h) \<and>
      sr_remaining_count (SemaphoreService_GetCount h (snd (SemaphoreService_Wait h n k))) = sm_count m)"
proof -
  have find: "SemaphoreService_Find h k = Some m" using assms(2) by (simp add: SemaphoreService_Find_Some)
  note so = kernel_okD(2) [OF assms(1)]
  have sig: "waiters (sched (snd (SemaphoreService_Signal now h n k))) (Semaphore_MakeWaitKey h) = {} \<and>
      sr_remaining_count (SemaphoreService_GetCount h (snd (SemaphoreService_Signal now h n k))) = sm_count m + n"
    if "fst (SemaphoreService_Signal now h n k) = kOk"
    using that find assms(2) wq.wake_waiting [OF so, of "Semaphore_MakeWaitKey h" now]
    by (auto simp: SemaphoreService_Signal_def Semaphore_Signal_def SemaphoreService_GetCount_def
        SemaphoreService_Find_def find_after_store split: if_splits)
  have wait: "sr_status (fst (SemaphoreService_Wait h n k)) = kWouldBlock \<and>
      j \<in> waiters (sched (snd (SemaphoreService_Wait h n k))) (Semaphore_MakeWaitKey h) \<and>
      sr_remaining_count (SemaphoreService_GetCount h (snd (SemaphoreService_Wait h n k))) = sm_count m"
    if n: "0 < n" "n \<le> sm_maximum_count m" "sm_count m < n" and cur: "current_thread (sched k) = Some j"
  proof -
    let ?k1 = "k\<lparr>handles := store_object h (SemaphoreObject m) (handles k)\<rparr>"
    have poll: "SemaphoreService_Poll h n k = (\<lparr>sr_status = kBusy, sr_remaining_count = sm_count m\<rparr>, ?k1)"
      using find n by (simp add: SemaphoreService_Poll_def Semaphore_TryAcquire_def)
    obtain b s where bl: "BlockCurrent (Semaphore_MakeWaitKey h) (sched k) = (b, s)" by fastforce
    note blk = wq.waiter_is_woken(1,2) [OF so Semaphore_MakeWaitKey_nonempty cur bl [unfolded BlockCurrent_def]]
    show ?thesis
      using poll bl blk assms(2)
      by (simp add: SemaphoreService_Wait_def SemaphoreService_GetCount_def SemaphoreService_Find_def find_after_store)
  qed
  from sig wait show ?thesis by blast
qed

definition example_semaphore_kernel :: kernel where
  "example_semaphore_kernel =
     (let k = snd (CreateThread ''t'' 0 0 0 (snd (SemaphoreService_Create ''s'' 1 0 1 empty_kernel)))
      in k\<lparr>sched := snd (SelectNext 0 (sched k))\<rparr>)"

theorem signal_wakes_wait_blocks_witness:
  "2 \<in> waiters (sched (snd (SemaphoreService_Wait 1 1 example_semaphore_kernel))) (Semaphore_MakeWaitKey 1)"
proof -
  let ?m = "\<lparr>sm_name = ''s'', sm_attributes = 1, sm_maximum_count = 1, sm_count = 0\<rparr>"
  have ok: "kernel_ok example_semaphore_kernel"
    unfolding example_semaphore_kernel_def Let_def
    by (intro kernel_ok_sched kernel_ok_CreateThread SemaphoreService_Create_ok empty_kernel_ok
        SelectNext_ok kernel_okD(2)) simp
  have f: "HandleTable_Find 1 kSemaphore (handles example_semaphore_kernel) = Some (SemaphoreObject ?m)"
    and cur: "current_thread (sched example_semaphore_kernel) = Some 2" by code_simp+
  from signal_wakes_wait_blocks [OF ok f, of 0 1 2] cur show ?thesis by simp
qed

end
