(* ===== verification/Cxa_Guard.thy ===== *)
theory Cxa_Guard
  imports Scheduler_Behaviour
begin

text \<open>
  The guards of function-local statics (\<open>kernel/cxa_guard\<close>): at most one thread owns the guard
  of an address, the others wait until it is released or aborted. The state is the map of
  owners together with the shared scheduler; the owners' map is only read and written under
  its mutex and the guest runs one thread at a time, so a call is one step.
\<close>

section \<open>Operations\<close>

record cxa_guard_state =
  cg_owners :: "(u64, u64) omap"
  cg_sched :: guest_scheduler

record cxa_guard_acquire_result =
  ca_status :: kernel_status
  ca_initialize :: bool

definition CxaGuard_WaitKey :: "u64 \<Rightarrow> string" where
  "CxaGuard_WaitKey address = ''cxa-guard:'' @ to_string address"

definition CxaGuard_Acquire ::
  "u64 \<Rightarrow> bool \<Rightarrow> cxa_guard_state \<Rightarrow> cxa_guard_acquire_result \<times> cxa_guard_state" where
  "CxaGuard_Acquire address initialized g =
     (if address = 0 then (\<lparr>ca_status = kInvalidArgument, ca_initialize = False\<rparr>, g)
      else case current_thread (cg_sched g) of
          None \<Rightarrow> (\<lparr>ca_status = kBusy, ca_initialize = False\<rparr>, g)
        | Some current \<Rightarrow>
            if initialized then (\<lparr>ca_status = kOk, ca_initialize = False\<rparr>, g)
            else case om_find (cg_owners g) address of
                None \<Rightarrow>
                  (\<lparr>ca_status = kOk, ca_initialize = True\<rparr>,
                   g\<lparr>cg_owners := om_emplace address current (cg_owners g)\<rparr>)
              | Some owner \<Rightarrow>
                  if owner = current then (\<lparr>ca_status = kOk, ca_initialize = False\<rparr>, g)
                  else case BlockCurrent (CxaGuard_WaitKey address) (cg_sched g) of
                      (True, s) \<Rightarrow>
                        (\<lparr>ca_status = kWouldBlock, ca_initialize = False\<rparr>, g\<lparr>cg_sched := s\<rparr>)
                    | (False, s) \<Rightarrow>
                        (\<lparr>ca_status = kBusy, ca_initialize = False\<rparr>, g\<lparr>cg_sched := s\<rparr>))"

definition CxaGuard_Complete :: "u64 \<Rightarrow> u64 \<Rightarrow> cxa_guard_state \<Rightarrow> kernel_status \<times> cxa_guard_state" where
  "CxaGuard_Complete now address g =
     (if address = 0 then (kInvalidArgument, g)
      else case current_thread (cg_sched g) of
          None \<Rightarrow> (kBusy, g)
        | Some current \<Rightarrow>
            (case om_find (cg_owners g) address of
               Some owner \<Rightarrow>
                 if owner \<noteq> current then (kPermissionDenied, g)
                 else (kOk, g\<lparr>cg_owners := om_erase address (cg_owners g),
                              cg_sched := WakeAllBlocked now (CxaGuard_WaitKey address) (cg_sched g)\<rparr>)
             | None \<Rightarrow>
                 (kOk, g\<lparr>cg_sched := WakeAllBlocked now (CxaGuard_WaitKey address) (cg_sched g)\<rparr>)))"

definition CxaGuard_Release :: "u64 \<Rightarrow> u64 \<Rightarrow> cxa_guard_state \<Rightarrow> kernel_status \<times> cxa_guard_state" where
  "CxaGuard_Release now address g = CxaGuard_Complete now address g"

definition CxaGuard_Abort :: "u64 \<Rightarrow> u64 \<Rightarrow> cxa_guard_state \<Rightarrow> kernel_status \<times> cxa_guard_state" where
  "CxaGuard_Abort now address g = CxaGuard_Complete now address g"

definition CxaGuard_owned_count :: "cxa_guard_state \<Rightarrow> nat" where
  "CxaGuard_owned_count g = length (cg_owners g)"

section \<open>Invariant\<close>

text \<open>A thread waits for a guard only while somebody owns it.\<close>

definition cxa_guard_ok :: "cxa_guard_state \<Rightarrow> bool" where
  "cxa_guard_ok g \<longleftrightarrow>
     sched_ok (cg_sched g) \<and> om_ok (cg_owners g) \<and>
     (\<forall>a. waiters (cg_sched g) (CxaGuard_WaitKey a) \<noteq> {} \<longrightarrow> om_find (cg_owners g) a \<noteq> None)"

lemma CxaGuard_WaitKey_inject [simp]: "CxaGuard_WaitKey a = CxaGuard_WaitKey b \<longleftrightarrow> a = b"
  by (simp add: CxaGuard_WaitKey_def)

lemma CxaGuard_WaitKey_nonempty [simp]: "CxaGuard_WaitKey a \<noteq> ''''"
  by (simp add: CxaGuard_WaitKey_def)

lemma cxa_guard_ok_block:
  assumes ok: "cxa_guard_ok g" and a: "om_find (cg_owners g) a = Some owner"
    and b: "BlockCurrent (CxaGuard_WaitKey a) (cg_sched g) = (b, s)"
  shows "cxa_guard_ok (g\<lparr>cg_sched := s\<rparr>)"
proof -
  note blk = b [unfolded BlockCurrent_def]
  have so: "sched_ok (cg_sched g)" using ok by (simp add: cxa_guard_ok_def)
  have "sched_ok s" using wq.block_ok [OF so blk] .
  moreover have "om_find (cg_owners g) x \<noteq> None" if "waiters s (CxaGuard_WaitKey x) \<noteq> {}" for x
  proof -
    from that obtain j where "j \<in> waiters s (CxaGuard_WaitKey x)" by auto
    from wq.block_new_waiter [OF so blk this] ok a show ?thesis by (auto simp: cxa_guard_ok_def)
  qed
  ultimately show ?thesis using ok by (simp add: cxa_guard_ok_def)
qed

lemma cxa_guard_ok_wake:
  assumes ok: "cxa_guard_ok g"
    and owners: "om_ok m" "\<And>x. x \<noteq> a \<Longrightarrow> om_find m x = om_find (cg_owners g) x"
  shows "cxa_guard_ok (g\<lparr>cg_owners := m,
    cg_sched := WakeAllBlocked now (CxaGuard_WaitKey a) (cg_sched g)\<rparr>)"
proof -
  let ?s = "WakeAllBlocked now (CxaGuard_WaitKey a) (cg_sched g)"
  have so: "sched_ok (cg_sched g)" using ok by (simp add: cxa_guard_ok_def)
  have "om_find m x \<noteq> None" if w: "waiters ?s (CxaGuard_WaitKey x) \<noteq> {}" for x
  proof -
    have "x \<noteq> a" using w wq.wake_waiting [OF so CxaGuard_WaitKey_nonempty] by auto
    moreover have "waiters (cg_sched g) (CxaGuard_WaitKey x) \<noteq> {}"
      using w waiters_WakeAllBlocked_subset [OF so] by blast
    ultimately show ?thesis using ok owners(2) by (simp add: cxa_guard_ok_def)
  qed
  with so owners(1) show ?thesis by (simp add: cxa_guard_ok_def WakeAllBlocked_ok)
qed

lemma CxaGuard_Acquire_ok:
  assumes ok: "cxa_guard_ok g"
  shows "cxa_guard_ok (snd (CxaGuard_Acquire a initialized g))"
  using ok cxa_guard_ok_block [OF ok, of a]
  by (auto simp: CxaGuard_Acquire_def split: option.splits prod.splits bool.splits)
    (auto simp: cxa_guard_ok_def om_find_emplace)

lemma CxaGuard_Complete_ok:
  assumes ok: "cxa_guard_ok g"
  shows "cxa_guard_ok (snd (CxaGuard_Complete now a g))"
proof -
  have so: "om_ok (cg_owners g)" using ok by (simp add: cxa_guard_ok_def)
  show ?thesis
    using ok cxa_guard_ok_wake [OF ok, of "cg_owners g" a now]
      cxa_guard_ok_wake [OF ok, of "om_erase a (cg_owners g)" a now] so
    by (auto simp: CxaGuard_Complete_def om_find_erase split: option.splits)
qed

text \<open>What the two calls do to the owner of a guard.\<close>

lemma CxaGuard_Acquire_owner:
  assumes "CxaGuard_Acquire a initialized g = (r, g')"
  shows "ca_initialize r \<longleftrightarrow>
      a \<noteq> 0 \<and> current_thread (cg_sched g) \<noteq> None \<and> \<not> initialized \<and> om_find (cg_owners g) a = None"
    and "om_find (cg_owners g') x =
      (if x = a \<and> ca_initialize r then current_thread (cg_sched g) else om_find (cg_owners g) x)"
  using assms
  by (auto simp: CxaGuard_Acquire_def om_find_emplace split: if_splits option.splits prod.splits bool.splits)

lemma CxaGuard_Complete_owner:
  assumes "CxaGuard_Complete now a g = (st, g')" "cxa_guard_ok g"
  shows "st = kOk \<longleftrightarrow> a \<noteq> 0 \<and> (\<exists>c. current_thread (cg_sched g) = Some c \<and>
      (om_find (cg_owners g) a = None \<or> om_find (cg_owners g) a = Some c))"
    and "om_find (cg_owners g') x = (if x = a \<and> st = kOk then None else om_find (cg_owners g) x)"
    and "st = kOk \<Longrightarrow> waiters (cg_sched g') (CxaGuard_WaitKey a) = {}"
  using assms wq.wake_waiting [of "cg_sched g" "CxaGuard_WaitKey a" now]
  by (auto simp: CxaGuard_Complete_def om_find_erase cxa_guard_ok_def split: if_splits option.splits)

section \<open>Properties\<close>

text \<open>
  C16: While a thread owns the guard of an address nobody else is told to initialise: another
  thread's acquire blocks it on the guard, another thread's release or abort is refused and changes
  nothing, and the owner's release or abort frees the guard and leaves no thread waiting on it.
\<close>

theorem guard_owner_is_exclusive:
  assumes "cxa_guard_ok g" "a \<noteq> 0" "om_find (cg_owners g) a = Some owner"
    "current_thread (cg_sched g) = Some c"
  shows "(c \<noteq> owner \<longrightarrow>
      (\<exists>s. CxaGuard_Acquire a False g = (\<lparr>ca_status = kWouldBlock, ca_initialize = False\<rparr>, g\<lparr>cg_sched := s\<rparr>) \<and>
         c \<in> waiters s (CxaGuard_WaitKey a)) \<and>
      CxaGuard_Complete now a g = (kPermissionDenied, g)) \<and>
    (c = owner \<longrightarrow>
      CxaGuard_Acquire a False g = (\<lparr>ca_status = kOk, ca_initialize = False\<rparr>, g) \<and>
      (\<exists>g'. CxaGuard_Complete now a g = (kOk, g') \<and> om_find (cg_owners g') a = None \<and>
         waiters (cg_sched g') (CxaGuard_WaitKey a) = {}))"
proof -
  have so: "sched_ok (cg_sched g)" "om_ok (cg_owners g)" using assms(1) by (auto simp: cxa_guard_ok_def)
  obtain b s where bl: "BlockCurrent (CxaGuard_WaitKey a) (cg_sched g) = (b, s)" by fastforce
  note blk = wq.waiter_is_woken(1,2) [OF so(1) CxaGuard_WaitKey_nonempty assms(4) bl [unfolded BlockCurrent_def]]
  have w: "waiters (WakeAllBlocked now (CxaGuard_WaitKey a) (cg_sched g)) (CxaGuard_WaitKey a) = {}"
    by (rule wq.wake_waiting [OF so(1) CxaGuard_WaitKey_nonempty])
  show ?thesis
    using assms bl blk w so(2)
    by (auto simp: CxaGuard_Acquire_def CxaGuard_Complete_def om_find_erase)
qed

definition example_guard :: cxa_guard_state where
  "example_guard = snd (CxaGuard_Acquire 64 False \<lparr>cg_owners = [], cg_sched = example_running\<rparr>)"

theorem guard_owner_is_exclusive_witness:
  "fst (CxaGuard_Complete 0 64 example_guard) = kOk"
proof -
  have none: "waiters example_running key = {}" for key
  proof -
    have "list_all (\<lambda>(h, t). th_state t \<noteq> kBlocked) (threads example_running)" by code_simp
    then show ?thesis
      by (auto simp: waiters_def blocked_on_def list_all_iff om_find_Some_iff [OF sched_okD(1) [OF example_sched_ok(1)]])
  qed
  have "cxa_guard_ok \<lparr>cg_owners = [], cg_sched = example_running\<rparr>"
    by (simp add: cxa_guard_ok_def example_sched_ok none)
  then have ok: "cxa_guard_ok example_guard"
    unfolding example_guard_def by (rule CxaGuard_Acquire_ok)
  have "om_find (cg_owners example_guard) 64 = Some 1" "current_thread (cg_sched example_guard) = Some 1"
    by code_simp+
  from guard_owner_is_exclusive [OF ok _ this, of 0] show ?thesis by auto
qed

end
