(* ===== verification/Event_Queue.thy ===== *)
theory Event_Queue
  imports Scheduler_Behaviour
begin

text \<open>
  Kernel event queues (\<open>kernel/event_queue\<close>): the registrations and pending events of one queue,
  and the service with its waiting threads. A queue object lives in the handle table; the
  service's own map of queues holds pointers to the same objects, so only its handles are kept
  here. Each reading of the monotonic clock in a call is a value of the argument \<open>clock\<close>
  at the program point (and waiting thread) that reads it. Failing allocations are not
  modelled.
\<close>

section \<open>The queue\<close>

abbreviation kEventFilterGraphics :: int where "kEventFilterGraphics \<equiv> -14"
abbreviation kEventFilterVideoOut :: int where "kEventFilterVideoOut \<equiv> -13"
abbreviation kEventFilterUser :: int where "kEventFilterUser \<equiv> -11"
abbreviation kEventAdd :: u16 where "kEventAdd \<equiv> 0x01"
abbreviation kEventClear :: u16 where "kEventClear \<equiv> 0x20"

fun update_first :: "('a \<Rightarrow> bool) \<Rightarrow> ('a \<Rightarrow> 'a) \<Rightarrow> 'a list \<Rightarrow> 'a list" where
  "update_first p f [] = []"
| "update_first p f (x # xs) = (if p x then f x # xs else x # update_first p f xs)"

fun remove_first :: "('a \<Rightarrow> bool) \<Rightarrow> 'a list \<Rightarrow> 'a list" where
  "remove_first p [] = []"
| "remove_first p (x # xs) = (if p x then xs else x # remove_first p xs)"

definition empty_event_queue :: "string \<Rightarrow> event_queue" where
  "empty_event_queue name =
     \<lparr>eq_name = name, eq_registrations = [], eq_pending_events = [], eq_next_generation = 1,
      eq_generation_exhausted = False\<rparr>"

definition reg_matches :: "u64 \<Rightarrow> int \<Rightarrow> registration \<Rightarrow> bool" where
  "reg_matches ident filt r \<longleftrightarrow> rg_ident r = ident \<and> rg_filter r = filt"

definition queued_matches :: "u64 \<Rightarrow> int \<Rightarrow> registered_kernel_event \<Rightarrow> bool" where
  "queued_matches ident filt q \<longleftrightarrow> ev_ident (re_event q) = ident \<and> ev_filter (re_event q) = filt"

definition queued_for :: "registration \<Rightarrow> registered_kernel_event \<Rightarrow> bool" where
  "queued_for r q \<longleftrightarrow>
     queued_matches (rg_ident r) (rg_filter r) q \<and> re_registration_generation q = rg_generation r"

text \<open>\<open>RegisterEvent\<close>: the status and the generation of the registration.\<close>

definition EventQueue_RegisterEvent ::
  "u64 \<Rightarrow> int \<Rightarrow> u16 \<Rightarrow> u64 \<Rightarrow> event_queue \<Rightarrow> (kernel_status \<times> u64) \<times> event_queue" where
  "EventQueue_RegisterEvent ident filt flags user_data q =
     (let found = List.find (reg_matches ident filt) (eq_registrations q) in
      case found of
        Some r \<Rightarrow>
          if rg_flags r = flags \<and> rg_user_data r = user_data then ((kOk, rg_generation r), q)
          else if eq_generation_exhausted q then ((kNoResources, 0), q)
          else
            let generation = eq_next_generation q;
                q1 = (if eq_next_generation q = u64_max then q\<lparr>eq_generation_exhausted := True\<rparr>
                      else q\<lparr>eq_next_generation := eq_next_generation q + 1\<rparr>)
            in ((kOk, generation),
                q1\<lparr>eq_registrations := update_first (reg_matches ident filt)
                       (\<lambda>r. r\<lparr>rg_flags := flags, rg_user_data := user_data,
                              rg_generation := generation\<rparr>) (eq_registrations q1),
                   eq_pending_events := filter (\<lambda>e. \<not> queued_matches ident filt e)
                                          (eq_pending_events q1)\<rparr>)
      | None \<Rightarrow>
          if eq_generation_exhausted q then ((kNoResources, 0), q)
          else
            let generation = eq_next_generation q;
                q1 = (if eq_next_generation q = u64_max then q\<lparr>eq_generation_exhausted := True\<rparr>
                      else q\<lparr>eq_next_generation := eq_next_generation q + 1\<rparr>)
            in ((kOk, generation),
                q1\<lparr>eq_registrations := eq_registrations q1 @
                       [\<lparr>rg_ident = ident, rg_filter = filt, rg_flags = flags,
                         rg_user_data = user_data, rg_generation = generation\<rparr>],
                   eq_pending_events := filter (\<lambda>e. \<not> queued_matches ident filt e)
                                          (eq_pending_events q1)\<rparr>))"

definition EventQueue_DeleteEvent :: "u64 \<Rightarrow> int \<Rightarrow> event_queue \<Rightarrow> kernel_status \<times> event_queue" where
  "EventQueue_DeleteEvent ident filt q =
     (case List.find (reg_matches ident filt) (eq_registrations q) of
        None \<Rightarrow> (kNoSuchEntry, q)
      | Some _ \<Rightarrow>
          (kOk, q\<lparr>eq_registrations := remove_first (reg_matches ident filt) (eq_registrations q),
                  eq_pending_events := filter (\<lambda>e. \<not> queued_matches ident filt e)
                                         (eq_pending_events q)\<rparr>))"

definition EventQueue_AddUserEvent :: "u64 \<Rightarrow> bool \<Rightarrow> event_queue \<Rightarrow> kernel_status \<times> event_queue" where
  "EventQueue_AddUserEvent ident edge q =
     (let ((status, _), q') =
        EventQueue_RegisterEvent ident kEventFilterUser (kEventAdd OR (if edge then kEventClear else 0)) 0 q
      in (status, q'))"

definition EventQueue_DeleteUserEvent :: "u64 \<Rightarrow> event_queue \<Rightarrow> kernel_status \<times> event_queue" where
  "EventQueue_DeleteUserEvent ident q = EventQueue_DeleteEvent ident kEventFilterUser q"

definition EventQueue_TriggerUserEvent :: "u64 \<Rightarrow> u64 \<Rightarrow> event_queue \<Rightarrow> kernel_status \<times> event_queue" where
  "EventQueue_TriggerUserEvent ident user_data q =
     (case List.find (reg_matches ident kEventFilterUser) (eq_registrations q) of
        None \<Rightarrow> (kNoSuchEntry, q)
      | Some r \<Rightarrow>
          let event = \<lparr>ev_ident = rg_ident r, ev_filter = rg_filter r, ev_flags = rg_flags r,
                       ev_fflags = 0, ev_data = 0, ev_user_data = user_data\<rparr>;
              is_pending = (\<lambda>e. queued_matches ident kEventFilterUser e \<and>
                                re_registration_generation e = rg_generation r)
          in if List.find is_pending (eq_pending_events q) \<noteq> None
             then (kOk, q\<lparr>eq_pending_events :=
                            update_first is_pending (\<lambda>e. e\<lparr>re_event := event\<rparr>) (eq_pending_events q)\<rparr>)
             else (kOk, q\<lparr>eq_pending_events := eq_pending_events q @
                            [\<lparr>re_event = event, re_registration_generation = rg_generation r,
                              re_persistent = (rg_flags r AND kEventClear = 0)\<rparr>]\<rparr>))"

definition EventQueue_TriggerFirstByFilter :: "int \<Rightarrow> u64 \<Rightarrow> event_queue \<Rightarrow> bool \<times> event_queue" where
  "EventQueue_TriggerFirstByFilter filt data q =
     (case List.find (\<lambda>r. rg_filter r = filt) (eq_registrations q) of
        None \<Rightarrow> (False, q)
      | Some r \<Rightarrow>
          let event = \<lparr>re_event = \<lparr>ev_ident = rg_ident r, ev_filter = rg_filter r, ev_flags = 0,
                                   ev_fflags = 1, ev_data = data, ev_user_data = rg_user_data r\<rparr>,
                       re_registration_generation = rg_generation r, re_persistent = False\<rparr>
          in if List.find (queued_for r) (eq_pending_events q) \<noteq> None
             then (True, q\<lparr>eq_pending_events := update_first (queued_for r) (\<lambda>_. event)
                                                  (eq_pending_events q)\<rparr>)
             else (True, q\<lparr>eq_pending_events := eq_pending_events q @ [event]\<rparr>))"

definition EventQueue_Poll ::
  "nat \<Rightarrow> event_queue \<Rightarrow> registered_kernel_event list \<times> event_queue" where
  "EventQueue_Poll maximum_count q =
     (let count = min maximum_count (length (eq_pending_events q));
          events = take count (eq_pending_events q)
      in (events, q\<lparr>eq_pending_events := drop count (eq_pending_events q) @ filter re_persistent events\<rparr>))"

definition EventQueue_IsCurrent :: "registered_kernel_event \<Rightarrow> event_queue \<Rightarrow> bool" where
  "EventQueue_IsCurrent e q \<longleftrightarrow> list_ex (\<lambda>r. queued_for r e) (eq_registrations q)"

definition CurrentEvents :: "event_queue \<Rightarrow> registered_kernel_event list \<Rightarrow> kernel_event list" where
  "CurrentEvents q events = map re_event (filter (\<lambda>e. EventQueue_IsCurrent e q) events)"

section \<open>The service\<close>

datatype wait_completion = kWaiting | kReserved | kDeleted

record waiter =
  wt_queue_handle :: u64
  wt_maximum_count :: nat
  wt_deadline_nanoseconds :: "u64 option"
  wt_completion :: wait_completion
  wt_events :: "registered_kernel_event list"

record event_queue_service =
  es_kernel :: kernel
  es_queues :: "(u64, unit) omap"
  es_waiters :: "(u64, waiter) omap"

text \<open>The program points that read the clock, per waiting thread.\<close>

datatype clock_point = Deadline_Check u64 | Wake_Call u64 | Wait_Start

record event_queue_create_result =
  qc_status :: kernel_status
  qc_handle :: u64

record event_queue_poll_result =
  qp_status :: kernel_status
  qp_events :: "kernel_event list"

abbreviation kMaximumEventQueueNameLength :: nat where
  "kMaximumEventQueueNameLength \<equiv> 31"

definition EventQueue_MakeWaitKey :: "u64 \<Rightarrow> string" where
  "EventQueue_MakeWaitKey handle = ''event_queue:'' @ to_hex handle"

definition es_sched :: "event_queue_service \<Rightarrow> guest_scheduler" where
  "es_sched es = sched (es_kernel es)"

definition es_set_sched :: "guest_scheduler \<Rightarrow> event_queue_service \<Rightarrow> event_queue_service" where
  "es_set_sched s es = es\<lparr>es_kernel := (es_kernel es)\<lparr>sched := s\<rparr>\<rparr>"

definition EventQueueService_Find :: "u64 \<Rightarrow> event_queue_service \<Rightarrow> event_queue option" where
  "EventQueueService_Find handle es =
     (case HandleTable_Find handle kEventQueue (handles (es_kernel es)) of
        Some (EventQueueObject q) \<Rightarrow> Some q
      | _ \<Rightarrow> None)"

definition es_store_queue :: "u64 \<Rightarrow> event_queue \<Rightarrow> event_queue_service \<Rightarrow> event_queue_service" where
  "es_store_queue handle q es =
     es\<lparr>es_kernel := (es_kernel es)\<lparr>handles :=
          store_object handle (EventQueueObject q) (handles (es_kernel es))\<rparr>\<rparr>"

definition EventQueueService_Create ::
  "string \<Rightarrow> event_queue_service \<Rightarrow> event_queue_create_result \<times> event_queue_service" where
  "EventQueueService_Create name es =
     (if length name > kMaximumEventQueueNameLength
      then (\<lparr>qc_status = kInvalidArgument, qc_handle = kInvalidKernelHandle\<rparr>, es)
      else
        case HandleTable_Insert (Some (EventQueueObject (empty_event_queue name)))
               (handles (es_kernel es)) of
          (None, t) \<Rightarrow>
            (\<lparr>qc_status = kNoResources, qc_handle = kInvalidKernelHandle\<rparr>,
             es\<lparr>es_kernel := (es_kernel es)\<lparr>handles := t\<rparr>\<rparr>)
        | (Some handle, t) \<Rightarrow>
            (\<lparr>qc_status = kOk, qc_handle = handle\<rparr>,
             es\<lparr>es_kernel := (es_kernel es)\<lparr>handles := t\<rparr>,
                es_queues := om_emplace handle () (es_queues es)\<rparr>))"

text \<open>The loop of \<open>Delete\<close> over the waiting threads.\<close>

fun DeleteWaiters_loop ::
  "(clock_point \<Rightarrow> u64) \<Rightarrow> u64 \<Rightarrow> (u64, waiter) omap \<Rightarrow> guest_scheduler \<Rightarrow>
   (u64, waiter) omap \<times> guest_scheduler" where
  "DeleteWaiters_loop clock handle [] s = ([], s)"
| "DeleteWaiters_loop clock handle ((thread_handle, w) # rest) s =
     (if wt_queue_handle w \<noteq> handle
      then let (rest', s') = DeleteWaiters_loop clock handle rest s
           in ((thread_handle, w) # rest', s')
      else
        let was_waiting = (wt_completion w = kWaiting);
            w' = w\<lparr>wt_completion := kDeleted, wt_events := []\<rparr>;
            s1 = (if was_waiting
                  then snd (WakeBlockedThread (clock (Wake_Call thread_handle)) thread_handle
                              (EventQueue_MakeWaitKey handle) s)
                  else s);
            (rest', s') = DeleteWaiters_loop clock handle rest s1
        in ((thread_handle, w') # rest', s'))"

definition EventQueueService_Delete ::
  "(clock_point \<Rightarrow> u64) \<Rightarrow> u64 \<Rightarrow> event_queue_service \<Rightarrow> kernel_status \<times> event_queue_service" where
  "EventQueueService_Delete clock handle es =
     (case HandleTable_Remove handle kEventQueue (handles (es_kernel es)) of
        (None, _) \<Rightarrow> (kNotFound, es)
      | (Some _, t) \<Rightarrow>
          let (ws, s) = DeleteWaiters_loop clock handle (es_waiters es) (es_sched es)
          in (kOk, es\<lparr>es_kernel := (es_kernel es)\<lparr>handles := t, sched := s\<rparr>,
                      es_queues := om_erase handle (es_queues es),
                      es_waiters := ws\<rparr>))"

text \<open>The loop of \<open>ReserveWaitingThreadsLocked\<close>; it stops when the queue has no event left.\<close>

fun ReserveWaiting_loop ::
  "(clock_point \<Rightarrow> u64) \<Rightarrow> u64 \<Rightarrow> (u64, waiter) omap \<Rightarrow> event_queue \<Rightarrow> guest_scheduler \<Rightarrow>
   (u64, waiter) omap \<times> event_queue \<times> guest_scheduler" where
  "ReserveWaiting_loop clock handle [] q s = ([], q, s)"
| "ReserveWaiting_loop clock handle ((thread_handle, w) # rest) q s =
     (if (wt_queue_handle w \<noteq> handle \<or> wt_completion w \<noteq> kWaiting) \<or>
         (case wt_deadline_nanoseconds w of
            None \<Rightarrow> False | Some d \<Rightarrow> d \<le> clock (Deadline_Check thread_handle))
      then let (rest', q', s') = ReserveWaiting_loop clock handle rest q s
           in ((thread_handle, w) # rest', q', s')
      else
        let (events, q1) = EventQueue_Poll (wt_maximum_count w) q in
        if events = [] then ((thread_handle, w) # rest, q1, s)
        else
          let w' = w\<lparr>wt_events := events, wt_completion := kReserved\<rparr>;
              s1 = snd (WakeBlockedThread (clock (Wake_Call thread_handle)) thread_handle
                          (EventQueue_MakeWaitKey handle) s);
              (rest', q', s') = ReserveWaiting_loop clock handle rest q1 s1
          in ((thread_handle, w') # rest', q', s'))"

definition ReserveWaitingThreadsLocked ::
  "(clock_point \<Rightarrow> u64) \<Rightarrow> u64 \<Rightarrow> event_queue \<Rightarrow> event_queue_service \<Rightarrow> event_queue_service" where
  "ReserveWaitingThreadsLocked clock handle q es =
     (let (ws, q', s) = ReserveWaiting_loop clock handle (es_waiters es) q (es_sched es)
      in es_set_sched s (es_store_queue handle q' (es\<lparr>es_waiters := ws\<rparr>)))"

text \<open>The calls that only change the queue.\<close>

definition on_queue ::
  "u64 \<Rightarrow> (event_queue \<Rightarrow> kernel_status \<times> event_queue) \<Rightarrow> event_queue_service \<Rightarrow>
   kernel_status \<times> event_queue_service" where
  "on_queue handle f es =
     (case EventQueueService_Find handle es of
        None \<Rightarrow> (kNotFound, es)
      | Some q \<Rightarrow> let (status, q') = f q in (status, es_store_queue handle q' es))"

definition register_status ::
  "u64 \<Rightarrow> int \<Rightarrow> u16 \<Rightarrow> u64 \<Rightarrow> event_queue \<Rightarrow> kernel_status \<times> event_queue" where
  "register_status ident filt flags user_data q =
     (let ((status, _), q') = EventQueue_RegisterEvent ident filt flags user_data q in (status, q'))"

definition EventQueueService_AddUserEvent ::
  "u64 \<Rightarrow> u64 \<Rightarrow> bool \<Rightarrow> event_queue_service \<Rightarrow> kernel_status \<times> event_queue_service" where
  "EventQueueService_AddUserEvent handle ident edge = on_queue handle (EventQueue_AddUserEvent ident edge)"

definition EventQueueService_DeleteUserEvent ::
  "u64 \<Rightarrow> u64 \<Rightarrow> event_queue_service \<Rightarrow> kernel_status \<times> event_queue_service" where
  "EventQueueService_DeleteUserEvent handle ident = on_queue handle (EventQueue_DeleteUserEvent ident)"

definition EventQueueService_AddGraphicsEvent ::
  "u64 \<Rightarrow> u64 \<Rightarrow> u64 \<Rightarrow> event_queue_service \<Rightarrow> kernel_status \<times> event_queue_service" where
  "EventQueueService_AddGraphicsEvent handle ident user_data =
     on_queue handle (register_status ident kEventFilterGraphics 0 user_data)"

definition EventQueueService_DeleteGraphicsEvent ::
  "u64 \<Rightarrow> u64 \<Rightarrow> event_queue_service \<Rightarrow> kernel_status \<times> event_queue_service" where
  "EventQueueService_DeleteGraphicsEvent handle ident =
     on_queue handle (EventQueue_DeleteEvent ident kEventFilterGraphics)"

definition EventQueueService_AddVideoOutEvent ::
  "u64 \<Rightarrow> u64 \<Rightarrow> u64 \<Rightarrow> event_queue_service \<Rightarrow> kernel_status \<times> event_queue_service" where
  "EventQueueService_AddVideoOutEvent handle ident user_data =
     on_queue handle (register_status ident kEventFilterVideoOut 0 user_data)"

definition EventQueueService_DeleteVideoOutEvent ::
  "u64 \<Rightarrow> u64 \<Rightarrow> event_queue_service \<Rightarrow> kernel_status \<times> event_queue_service" where
  "EventQueueService_DeleteVideoOutEvent handle ident =
     on_queue handle (EventQueue_DeleteEvent ident kEventFilterVideoOut)"

definition EventQueueService_TriggerUserEvent ::
  "(clock_point \<Rightarrow> u64) \<Rightarrow> u64 \<Rightarrow> u64 \<Rightarrow> u64 \<Rightarrow> event_queue_service \<Rightarrow>
   kernel_status \<times> event_queue_service" where
  "EventQueueService_TriggerUserEvent clock handle ident user_data es =
     (case EventQueueService_Find handle es of
        None \<Rightarrow> (kNotFound, es)
      | Some q \<Rightarrow>
          let (status, q') = EventQueue_TriggerUserEvent ident user_data q in
          if status = kOk then (status, ReserveWaitingThreadsLocked clock handle q' es)
          else (status, es_store_queue handle q' es))"

text \<open>The loop of \<open>TriggerGraphicsEvents\<close> and \<open>TriggerVideoOutEvents\<close> over the queues.\<close>

fun TriggerEvents_loop ::
  "(clock_point \<Rightarrow> u64) \<Rightarrow> int \<Rightarrow> u64 \<Rightarrow> u64 list \<Rightarrow> nat \<Rightarrow> event_queue_service \<Rightarrow>
   nat \<times> event_queue_service" where
  "TriggerEvents_loop clock filt data [] triggered es = (triggered, es)"
| "TriggerEvents_loop clock filt data (handle # rest) triggered es =
     (case EventQueueService_Find handle es of
        None \<Rightarrow> TriggerEvents_loop clock filt data rest triggered es
      | Some q \<Rightarrow>
          let (hit, q') = EventQueue_TriggerFirstByFilter filt data q in
          if \<not> hit then TriggerEvents_loop clock filt data rest triggered es
          else TriggerEvents_loop clock filt data rest (triggered + 1)
                 (ReserveWaitingThreadsLocked clock handle q' es))"

definition EventQueueService_TriggerGraphicsEvents ::
  "(clock_point \<Rightarrow> u64) \<Rightarrow> u64 \<Rightarrow> event_queue_service \<Rightarrow> nat \<times> event_queue_service" where
  "EventQueueService_TriggerGraphicsEvents clock data es =
     TriggerEvents_loop clock kEventFilterGraphics data (map fst (es_queues es)) 0 es"

definition EventQueueService_TriggerVideoOutEvents ::
  "(clock_point \<Rightarrow> u64) \<Rightarrow> u64 \<Rightarrow> event_queue_service \<Rightarrow> nat \<times> event_queue_service" where
  "EventQueueService_TriggerVideoOutEvents clock data es =
     TriggerEvents_loop clock kEventFilterVideoOut data (map fst (es_queues es)) 0 es"

definition EventQueueService_PollLocked ::
  "u64 \<Rightarrow> nat \<Rightarrow> event_queue_service \<Rightarrow> event_queue_poll_result \<times> event_queue_service" where
  "EventQueueService_PollLocked handle maximum_count es =
     (if maximum_count = 0 then (\<lparr>qp_status = kInvalidArgument, qp_events = []\<rparr>, es)
      else case EventQueueService_Find handle es of
          None \<Rightarrow> (\<lparr>qp_status = kNotFound, qp_events = []\<rparr>, es)
        | Some q \<Rightarrow>
            let (events, q') = EventQueue_Poll maximum_count q;
                es' = es_store_queue handle q' es;
                current = CurrentEvents q' events
            in if events = [] then (\<lparr>qp_status = kBusy, qp_events = []\<rparr>, es')
               else if current = [] then (\<lparr>qp_status = kBusy, qp_events = []\<rparr>, es')
               else (\<lparr>qp_status = kOk, qp_events = current\<rparr>, es'))"

definition EventQueueService_Poll ::
  "u64 \<Rightarrow> nat \<Rightarrow> event_queue_service \<Rightarrow> event_queue_poll_result \<times> event_queue_service" where
  "EventQueueService_Poll handle maximum_count es = EventQueueService_PollLocked handle maximum_count es"

definition wait_deadline :: "u64 \<Rightarrow> u64 \<Rightarrow> u64" where
  "wait_deadline now timeout_microseconds =
     (let duration = (if timeout_microseconds > u64_max div 1000 then u64_max
                      else timeout_microseconds * 1000)
      in if duration > u64_max - now then u64_max else now + duration)"

text \<open>\<open>Wait\<close> of a thread that already has a waiter, and the first \<open>Wait\<close> of a thread.\<close>

definition erase_waiter :: "u64 \<Rightarrow> event_queue_service \<Rightarrow> event_queue_service" where
  "erase_waiter h es = es\<lparr>es_waiters := om_erase h (es_waiters es)\<rparr>"

definition WaitAgain_poll ::
  "u64 \<Rightarrow> u64 \<Rightarrow> waiter \<Rightarrow> event_queue_service \<Rightarrow> event_queue_poll_result \<times> event_queue_service" where
  "WaitAgain_poll handle current w es =
     (let (timed_out, s) = ConsumeCurrentThreadTimeout (EventQueue_MakeWaitKey handle) (es_sched es);
          es1 = es_set_sched s es
      in if timed_out then (\<lparr>qp_status = kTimedOut, qp_events = []\<rparr>, erase_waiter current es1)
         else
           let (result, es2) = EventQueueService_PollLocked handle (wt_maximum_count w) es1 in
           if qp_status result \<noteq> kBusy then (result, erase_waiter current es2)
           else
             let (blocked, s) =
               BlockCurrentLocked (EventQueue_MakeWaitKey handle) (wt_deadline_nanoseconds w) (es_sched es2)
             in (if blocked then \<lparr>qp_status = kWouldBlock, qp_events = []\<rparr> else result,
                 es_set_sched s es2))"

definition WaitAgain ::
  "u64 \<Rightarrow> u64 \<Rightarrow> waiter \<Rightarrow> event_queue_service \<Rightarrow> event_queue_poll_result \<times> event_queue_service" where
  "WaitAgain handle current w es =
     (if wt_queue_handle w \<noteq> handle then (\<lparr>qp_status = kBusy, qp_events = []\<rparr>, es)
      else if wt_completion w = kDeleted
      then (\<lparr>qp_status = kPermissionDenied, qp_events = []\<rparr>, erase_waiter current es)
      else if wt_completion w = kReserved
      then
        (case EventQueueService_Find handle es of
           None \<Rightarrow> (\<lparr>qp_status = kPermissionDenied, qp_events = []\<rparr>, erase_waiter current es)
         | Some q \<Rightarrow>
             let events = CurrentEvents q (wt_events w) in
             if events \<noteq> [] then (\<lparr>qp_status = kOk, qp_events = events\<rparr>, erase_waiter current es)
             else
               let w' = w\<lparr>wt_events := [], wt_completion := kWaiting\<rparr> in
               WaitAgain_poll handle current w'
                 (es\<lparr>es_waiters := om_update current (\<lambda>_. w') (es_waiters es)\<rparr>))
      else WaitAgain_poll handle current w es)"

definition WaitFirst ::
  "(clock_point \<Rightarrow> u64) \<Rightarrow> u64 \<Rightarrow> nat \<Rightarrow> u64 option \<Rightarrow> event_queue_service \<Rightarrow>
   event_queue_poll_result \<times> event_queue_service" where
  "WaitFirst clock handle maximum_count timeout_microseconds es =
     (let (result, es1) = EventQueueService_PollLocked handle maximum_count es in
      if qp_status result \<noteq> kBusy then (result, es1)
      else if timeout_microseconds = Some 0 then (\<lparr>qp_status = kTimedOut, qp_events = []\<rparr>, es1)
      else case current_thread (es_sched es1) of
          None \<Rightarrow> (result, es1)
        | Some current \<Rightarrow>
            let deadline = map_option (wait_deadline (clock Wait_Start)) timeout_microseconds;
                w = \<lparr>wt_queue_handle = handle, wt_maximum_count = maximum_count,
                     wt_deadline_nanoseconds = deadline, wt_completion = kWaiting, wt_events = []\<rparr>;
                es2 = es1\<lparr>es_waiters := om_emplace current w (es_waiters es1)\<rparr>;
                (blocked, s) = BlockCurrentLocked (EventQueue_MakeWaitKey handle) deadline (es_sched es2)
            in if \<not> blocked then (result, erase_waiter current (es_set_sched s es2))
               else (\<lparr>qp_status = kWouldBlock, qp_events = []\<rparr>, es_set_sched s es2))"

definition EventQueueService_Wait ::
  "(clock_point \<Rightarrow> u64) \<Rightarrow> u64 \<Rightarrow> nat \<Rightarrow> u64 option \<Rightarrow> event_queue_service \<Rightarrow>
   event_queue_poll_result \<times> event_queue_service" where
  "EventQueueService_Wait clock handle maximum_count timeout_microseconds es =
     (if maximum_count = 0 then (\<lparr>qp_status = kInvalidArgument, qp_events = []\<rparr>, es)
      else case current_thread (es_sched es) of
          None \<Rightarrow> WaitFirst clock handle maximum_count timeout_microseconds es
        | Some current \<Rightarrow>
            (case om_find (es_waiters es) current of
               None \<Rightarrow> WaitFirst clock handle maximum_count timeout_microseconds es
             | Some w \<Rightarrow> WaitAgain handle current w es))"

section \<open>The queue's invariant\<close>

text \<open>
  There is one registration per identifier and filter, every generation in use was issued
  before, at most one event is pending per registration, and every pending event belongs to
  a registration that is still there.
\<close>

definition reg_key :: "registration \<Rightarrow> u64 \<times> int" where
  "reg_key r = (rg_ident r, rg_filter r)"

definition event_key :: "registered_kernel_event \<Rightarrow> u64 \<times> int" where
  "event_key e = (ev_ident (re_event e), ev_filter (re_event e))"

definition issued :: "event_queue \<Rightarrow> u64 \<Rightarrow> bool" where
  "issued q g \<longleftrightarrow> g < eq_next_generation q \<or> eq_generation_exhausted q"

definition event_queue_ok :: "event_queue \<Rightarrow> bool" where
  "event_queue_ok q \<longleftrightarrow>
     distinct (map reg_key (eq_registrations q)) \<and>
     (\<forall>r \<in> set (eq_registrations q). issued q (rg_generation r)) \<and>
     distinct (map event_key (eq_pending_events q)) \<and>
     (\<forall>e \<in> set (eq_pending_events q). EventQueue_IsCurrent e q)"

lemma update_first_map:
  "distinct (map key xs) \<Longrightarrow> (\<And>x. p x \<longleftrightarrow> key x = k) \<Longrightarrow>
   update_first p f xs = map (\<lambda>x. if p x then f x else x) xs"
proof (induction xs)
  case (Cons x xs)
  have "\<not> p y" if "p x" "y \<in> set xs" for y
    using Cons.prems(1) that Cons.prems(2) [of x] Cons.prems(2) [of y] by (auto simp: image_iff)
  then have "map (\<lambda>x. if p x then f x else x) xs = xs" if "p x"
    using that by (intro map_idI) simp
  with Cons show ?case by auto
qed simp

lemma remove_first_filter:
  "distinct (map key xs) \<Longrightarrow> (\<And>x. p x \<longleftrightarrow> key x = k) \<Longrightarrow>
   remove_first p xs = filter (\<lambda>x. \<not> p x) xs"
proof (induction xs)
  case (Cons x xs)
  have "\<not> p y" if "p x" "y \<in> set xs" for y
    using Cons.prems(1) that Cons.prems(2) [of x] Cons.prems(2) [of y] by (auto simp: image_iff)
  then have "filter (\<lambda>x. \<not> p x) xs = xs" if "p x"
    using that by (intro filter_True) simp
  with Cons show ?case by auto
qed simp

lemma find_SomeD: "List.find p xs = Some x \<Longrightarrow> x \<in> set xs \<and> p x"
  by (induction xs) (auto split: if_splits)

lemma reg_matches_key: "reg_matches i f r \<longleftrightarrow> reg_key r = (i, f)"
  by (auto simp: reg_matches_def reg_key_def)

lemma queued_matches_key: "queued_matches i f e \<longleftrightarrow> event_key e = (i, f)"
  by (auto simp: queued_matches_def event_key_def)

lemma queued_for_key:
  "queued_for r e \<longleftrightarrow> event_key e = reg_key r \<and> re_registration_generation e = rg_generation r"
  by (auto simp: queued_for_def queued_matches_key reg_key_def)

lemma IsCurrent_iff:
  "EventQueue_IsCurrent e q \<longleftrightarrow> (\<exists>r \<in> set (eq_registrations q).
     event_key e = reg_key r \<and> re_registration_generation e = rg_generation r)"
  by (auto simp: EventQueue_IsCurrent_def list_ex_iff queued_for_key)

text \<open>The registrations and pending events after a registration that changes something.\<close>

definition new_registration :: "u64 \<Rightarrow> int \<Rightarrow> u16 \<Rightarrow> u64 \<Rightarrow> u64 \<Rightarrow> registration" where
  "new_registration i f flags u g =
     \<lparr>rg_ident = i, rg_filter = f, rg_flags = flags, rg_user_data = u, rg_generation = g\<rparr>"

lemma update_registration:
  "reg_key r = (i, f) \<Longrightarrow>
   r\<lparr>rg_flags := flags, rg_user_data := u, rg_generation := g\<rparr> = new_registration i f flags u g"
  by (cases r) (simp add: reg_key_def new_registration_def)

lemma reg_key_new [simp]: "reg_key (new_registration i f flags u g) = (i, f)"
  "rg_generation (new_registration i f flags u g) = g"
  by (simp_all add: reg_key_def new_registration_def)

text \<open>A registration that changes something: one generation is used up.\<close>

definition registers ::
  "u64 \<Rightarrow> int \<Rightarrow> registration \<Rightarrow> event_queue \<Rightarrow> event_queue \<Rightarrow> bool" where
  "registers i f new q q' \<longleftrightarrow>
     \<not> eq_generation_exhausted q \<and> reg_key new = (i, f) \<and> rg_generation new = eq_next_generation q \<and>
     (if eq_next_generation q = u64_max
      then eq_generation_exhausted q' \<and> eq_next_generation q' = eq_next_generation q
      else \<not> eq_generation_exhausted q' \<and> eq_next_generation q' = eq_next_generation q + 1) \<and>
     eq_pending_events q' = filter (\<lambda>e. event_key e \<noteq> (i, f)) (eq_pending_events q) \<and>
     set (eq_registrations q') = insert new {r \<in> set (eq_registrations q). reg_key r \<noteq> (i, f)} \<and>
     distinct (map reg_key (eq_registrations q'))"

lemma update_first_registration:
  fixes flags :: u16 and u :: u64
  assumes d: "distinct (map reg_key rs)" and x: "x \<in> set rs" "reg_key x = (i, f)"
  defines "rs' \<equiv> \<lambda>g. update_first (reg_matches i f)
    (\<lambda>r. r\<lparr>rg_flags := flags, rg_user_data := u, rg_generation := g\<rparr>) rs"
  shows "set (rs' g) = insert (new_registration i f flags u g) {r \<in> set rs. reg_key r \<noteq> (i, f)}"
    and "distinct (map reg_key (rs' g))"
proof -
  let ?m = "\<lambda>r. if reg_key r = (i, f) then new_registration i f flags u g else r"
  have "rs' g = map (\<lambda>r. if reg_matches i f r then
      r\<lparr>rg_flags := flags, rg_user_data := u, rg_generation := g\<rparr> else r) rs"
    unfolding rs'_def using d by (rule update_first_map) (simp add: reg_matches_key)
  also have "\<dots> = map ?m rs" by (rule map_cong) (simp_all add: reg_matches_key update_registration)
  finally have e: "rs' g = map ?m rs" .
  show "set (rs' g) = insert (new_registration i f flags u g) {r \<in> set rs. reg_key r \<noteq> (i, f)}"
    using x by (auto simp: e)
  have "map reg_key (map ?m rs) = map reg_key rs" by auto
  with d show "distinct (map reg_key (rs' g))" unfolding e by metis
qed

lemma RegisterEvent_registers:
  assumes reg: "EventQueue_RegisterEvent i f flags u q = (r, q')" and ok: "event_queue_ok q"
    and ch: "q' \<noteq> q"
  shows "registers i f (new_registration i f flags u (eq_next_generation q)) q q' \<and>
    r = (kOk, eq_next_generation q)"
proof (cases "List.find (reg_matches i f) (eq_registrations q)")
  case None
  then have no: "\<forall>r \<in> set (eq_registrations q). reg_key r \<noteq> (i, f)"
    by (simp add: find_None_iff reg_matches_key)
  then have "(i, f) \<notin> reg_key ` set (eq_registrations q)" by force
  moreover from no have "{r \<in> set (eq_registrations q). reg_key r \<noteq> (i, f)} = set (eq_registrations q)"
    by auto
  moreover have "distinct (map reg_key (eq_registrations q))" using ok by (simp add: event_queue_ok_def)
  ultimately show ?thesis
    using reg ch None
    by (auto simp: EventQueue_RegisterEvent_def Let_def registers_def new_registration_def [symmetric]
        queued_matches_key split: if_splits)
next
  case (Some x)
  have d: "distinct (map reg_key (eq_registrations q))" using ok by (simp add: event_queue_ok_def)
  have x: "x \<in> set (eq_registrations q)" "reg_key x = (i, f)"
    using find_SomeD [OF Some] by (simp_all add: reg_matches_key)
  show ?thesis
    using reg ch Some update_first_registration [OF d x, where flags = flags and u = u]
    by (simp add: EventQueue_RegisterEvent_def Let_def queued_matches_key split: if_splits)
      (auto simp: registers_def)
qed

lemma registers_issued: "registers i f new q q' \<Longrightarrow> issued q' g \<longleftrightarrow> issued q g \<or> g = eq_next_generation q"
  using unat_u64_less [of g] unat_u64_succ [of "eq_next_generation q"]
  by (auto simp: registers_def issued_def unat_eq_iff word_less_nat_alt split: if_splits)

lemma event_queue_ok_registers:
  assumes ok: "event_queue_ok q" and reg: "registers i f new q q'"
  shows "event_queue_ok q'"
proof -
  have "distinct (map event_key (filter (\<lambda>e. event_key e \<noteq> (i, f)) (eq_pending_events q)))"
    using ok by (auto simp: event_queue_ok_def intro: distinct_map_filter)
  with ok reg registers_issued [OF reg] show ?thesis
    by (auto simp: event_queue_ok_def registers_def IsCurrent_iff) force
qed

lemma RegisterEvent_ok:
  assumes "event_queue_ok q" "EventQueue_RegisterEvent i f flags u q = (r, q')"
  shows "event_queue_ok q'"
  using RegisterEvent_registers [OF assms(2,1)] event_queue_ok_registers [OF assms(1)] assms(1)
  by (cases "q' = q") auto

lemma DeleteEvent_effect:
  assumes "event_queue_ok q" "EventQueue_DeleteEvent i f q = (st, q')"
  shows "q' = q \<and> st = kNoSuchEntry \<or> st = kOk \<and>
    q' = q\<lparr>eq_registrations := filter (\<lambda>r. reg_key r \<noteq> (i, f)) (eq_registrations q),
           eq_pending_events := filter (\<lambda>e. event_key e \<noteq> (i, f)) (eq_pending_events q)\<rparr>"
proof -
  have "remove_first (reg_matches i f) (eq_registrations q) =
      filter (\<lambda>r. \<not> reg_matches i f r) (eq_registrations q)"
    using assms(1) by (intro remove_first_filter) (auto simp: event_queue_ok_def reg_matches_key)
  with assms(2) show ?thesis
    by (auto simp: EventQueue_DeleteEvent_def reg_matches_key queued_matches_key split: option.splits)
qed

lemma DeleteEvent_ok:
  assumes ok: "event_queue_ok q" and del: "EventQueue_DeleteEvent i f q = (st, q')"
  shows "event_queue_ok q'"
  using DeleteEvent_effect [OF ok del] ok
  by (auto simp: event_queue_ok_def issued_def IsCurrent_iff intro: distinct_map_filter) metis+

text \<open>Both triggers put one event of a registration into the queue, or refresh it there.\<close>

lemma event_queue_ok_refresh:
  assumes ok: "event_queue_ok q" and r: "r \<in> set (eq_registrations q)"
    and e: "\<And>x. event_key (upd x) = reg_key r"
      "\<And>x. re_registration_generation x = rg_generation r \<Longrightarrow> re_registration_generation (upd x) = rg_generation r"
  shows "event_queue_ok (q\<lparr>eq_pending_events :=
    map (\<lambda>x. if queued_for r x then upd x else x) (eq_pending_events q)\<rparr>)"
proof -
  have "map event_key (map (\<lambda>x. if queued_for r x then upd x else x) (eq_pending_events q)) =
      map event_key (eq_pending_events q)"
    by (auto simp: queued_for_key e)
  then have "distinct (map event_key (map (\<lambda>x. if queued_for r x then upd x else x) (eq_pending_events q)))"
    using ok unfolding event_queue_ok_def by metis
  moreover have "\<exists>r \<in> set (eq_registrations q). event_key (upd x) = reg_key r \<and>
      re_registration_generation (upd x) = rg_generation r" if "queued_for r x" for x
    using that r e by (auto simp: queued_for_key)
  ultimately show ?thesis
    using ok by (auto simp: event_queue_ok_def issued_def IsCurrent_iff)
qed

lemma event_queue_ok_push:
  assumes ok: "event_queue_ok q" and r: "r \<in> set (eq_registrations q)" and e: "queued_for r e"
    and no: "\<forall>x \<in> set (eq_pending_events q). \<not> queued_for r x"
  shows "event_queue_ok (q\<lparr>eq_pending_events := eq_pending_events q @ [e]\<rparr>)"
proof -
  have "event_key x \<noteq> event_key e" if x: "x \<in> set (eq_pending_events q)" for x
  proof
    assume k: "event_key x = event_key e"
    from ok x obtain r' where r': "r' \<in> set (eq_registrations q)" "queued_for r' x"
      by (auto simp: event_queue_ok_def IsCurrent_iff queued_for_key)
    then have "reg_key r' = reg_key r" using k e by (simp add: queued_for_key)
    then have "r' = r"
      using ok r r'(1) by (auto simp: event_queue_ok_def distinct_map inj_on_def)
    with no x r'(2) show False by blast
  qed
  with ok r e show ?thesis
    by (auto simp: event_queue_ok_def issued_def IsCurrent_iff queued_for_key image_iff)
qed

lemma update_pending:
  assumes ok: "event_queue_ok q" and r: "r \<in> set (eq_registrations q)"
  shows "update_first (queued_for r) f (eq_pending_events q) =
    map (\<lambda>x. if queued_for r x then f x else x) (eq_pending_events q)"
proof -
  have "update_first p f xs = map (\<lambda>x. if p x then f x else x) xs"
    if "distinct (map event_key xs)" "\<And>x. p x \<Longrightarrow> event_key x = k" for p k and xs
    using that
  proof (induction xs)
    case (Cons x xs)
    have "\<not> p y" if "p x" "y \<in> set xs" for y
      using Cons.prems(1) that Cons.prems(2) [of x] Cons.prems(2) [of y] by (auto simp: image_iff)
    then have "map (\<lambda>x. if p x then f x else x) xs = xs" if "p x"
      using that by (intro map_idI) simp
    with Cons show ?case by auto
  qed simp
  from this [of _ "queued_for r" "reg_key r"] ok show ?thesis
    by (simp add: event_queue_ok_def queued_for_key)
qed

lemma TriggerUserEvent_ok:
  assumes ok: "event_queue_ok q" and t: "EventQueue_TriggerUserEvent i u q = (st, q')"
  shows "event_queue_ok q'"
proof (cases "List.find (reg_matches i kEventFilterUser) (eq_registrations q)")
  case None
  with t ok show ?thesis by (simp add: EventQueue_TriggerUserEvent_def)
next
  case (Some r)
  then have r: "r \<in> set (eq_registrations q)" and k: "rg_ident r = i" "rg_filter r = kEventFilterUser"
    using find_SomeD [OF Some] by (simp_all add: reg_matches_def)
  have p: "(\<lambda>e. queued_matches i kEventFilterUser e \<and> re_registration_generation e = rg_generation r) =
      queued_for r"
    by (rule ext) (simp add: queued_for_def k)
  let ?ev = "\<lparr>ev_ident = rg_ident r, ev_filter = rg_filter r, ev_flags = rg_flags r,
    ev_fflags = 0, ev_data = 0, ev_user_data = u\<rparr>"
  show ?thesis
  proof (cases "List.find (queued_for r) (eq_pending_events q)")
    case None
    with t Some have "q' = q\<lparr>eq_pending_events := eq_pending_events q @
        [\<lparr>re_event = ?ev, re_registration_generation = rg_generation r,
          re_persistent = (rg_flags r AND kEventClear = 0)\<rparr>]\<rparr>"
      by (simp add: EventQueue_TriggerUserEvent_def p)
    moreover have "\<forall>x \<in> set (eq_pending_events q). \<not> queued_for r x"
      using None by (simp add: find_None_iff)
    ultimately show ?thesis
      using event_queue_ok_push [OF ok r] by (simp add: queued_for_def queued_matches_def)
  next
    case (Some x)
    with t \<open>List.find (reg_matches i kEventFilterUser) (eq_registrations q) = Some r\<close>
    have "q' = q\<lparr>eq_pending_events := map (\<lambda>x. if queued_for r x then x\<lparr>re_event := ?ev\<rparr> else x)
        (eq_pending_events q)\<rparr>"
      by (simp add: EventQueue_TriggerUserEvent_def p update_pending [OF ok r])
    then show ?thesis
      using event_queue_ok_refresh [OF ok r, of "\<lambda>x. x\<lparr>re_event := ?ev\<rparr>"]
      by (simp add: event_key_def reg_key_def)
  qed
qed

lemma TriggerFirstByFilter_ok:
  assumes ok: "event_queue_ok q" and t: "EventQueue_TriggerFirstByFilter f d q = (b, q')"
  shows "event_queue_ok q'"
proof (cases "List.find (\<lambda>r. rg_filter r = f) (eq_registrations q)")
  case None
  with t ok show ?thesis by (simp add: EventQueue_TriggerFirstByFilter_def)
next
  case (Some r)
  then have r: "r \<in> set (eq_registrations q)" using find_SomeD [OF Some] by simp
  let ?ev = "\<lparr>re_event = \<lparr>ev_ident = rg_ident r, ev_filter = rg_filter r, ev_flags = 0,
    ev_fflags = 1, ev_data = d, ev_user_data = rg_user_data r\<rparr>,
    re_registration_generation = rg_generation r, re_persistent = False\<rparr>"
  show ?thesis
  proof (cases "List.find (queued_for r) (eq_pending_events q)")
    case None
    with t Some have "q' = q\<lparr>eq_pending_events := eq_pending_events q @ [?ev]\<rparr>"
      by (simp add: EventQueue_TriggerFirstByFilter_def)
    moreover have "\<forall>x \<in> set (eq_pending_events q). \<not> queued_for r x"
      using None by (simp add: find_None_iff)
    ultimately show ?thesis
      using event_queue_ok_push [OF ok r, of ?ev] by (simp add: queued_for_def queued_matches_def)
  next
    case (Some x)
    with t \<open>List.find (\<lambda>r. rg_filter r = f) (eq_registrations q) = Some r\<close>
    have "q' = q\<lparr>eq_pending_events := map (\<lambda>x. if queued_for r x then ?ev else x) (eq_pending_events q)\<rparr>"
      by (simp add: EventQueue_TriggerFirstByFilter_def update_pending [OF ok r])
    then show ?thesis
      using event_queue_ok_refresh [OF ok r, of "\<lambda>_. ?ev"] by (simp add: event_key_def reg_key_def)
  qed
qed

lemma Poll_events:
  "EventQueue_Poll n q = (es, q') \<Longrightarrow>
   es = take n (eq_pending_events q) \<and>
   eq_pending_events q' = drop n (eq_pending_events q) @ filter re_persistent es \<and>
   eq_registrations q' = eq_registrations q \<and> eq_next_generation q' = eq_next_generation q \<and>
   eq_generation_exhausted q' = eq_generation_exhausted q"
  by (auto simp: EventQueue_Poll_def Let_def min_def)

lemma distinct_map_rotate: "distinct (map f (xs @ ys)) \<Longrightarrow> distinct (map f (ys @ filter p xs))"
  by (auto intro: distinct_map_filter)

lemma Poll_ok:
  assumes ok: "event_queue_ok q" and p: "EventQueue_Poll n q = (es, q')"
  shows "event_queue_ok q'" and "\<forall>e \<in> set es. EventQueue_IsCurrent e q'"
proof -
  note e = Poll_events [OF p]
  have sub: "set (eq_pending_events q') \<subseteq> set (eq_pending_events q)"
    using e by (auto dest: in_set_takeD in_set_dropD)
  have "distinct (map event_key (take n (eq_pending_events q) @ drop n (eq_pending_events q)))"
    using ok by (simp add: event_queue_ok_def)
  from distinct_map_rotate [OF this] e have "distinct (map event_key (eq_pending_events q'))" by simp
  with ok e sub show "event_queue_ok q'"
    by (auto simp: event_queue_ok_def issued_def IsCurrent_iff subset_iff)
  show "\<forall>e \<in> set es. EventQueue_IsCurrent e q'"
    using ok e by (auto simp: event_queue_ok_def IsCurrent_iff dest: in_set_takeD)
qed

text \<open>A poll of a queue that keeps its invariant never drops an event as stale.\<close>

lemma Poll_all_current:
  assumes "event_queue_ok q" "EventQueue_Poll n q = (es, q')"
  shows "CurrentEvents q' es = map re_event (take n (eq_pending_events q))"
  using Poll_ok(2) [OF assms] Poll_events [OF assms(2)]
  by (auto simp: CurrentEvents_def intro!: arg_cong [of _ _ "map re_event"] filter_True)

section \<open>Stale events stay stale\<close>

datatype queue_op =
    Q_Register u64 int u16 u64
  | Q_Delete u64 int
  | Q_Trigger_User u64 u64
  | Q_Trigger_Filter int u64
  | Q_Poll nat

fun queue_step :: "queue_op \<Rightarrow> event_queue \<Rightarrow> event_queue" where
  "queue_step (Q_Register i f flags u) q = snd (EventQueue_RegisterEvent i f flags u q)"
| "queue_step (Q_Delete i f) q = snd (EventQueue_DeleteEvent i f q)"
| "queue_step (Q_Trigger_User i u) q = snd (EventQueue_TriggerUserEvent i u q)"
| "queue_step (Q_Trigger_Filter f d) q = snd (EventQueue_TriggerFirstByFilter f d q)"
| "queue_step (Q_Poll n) q = snd (EventQueue_Poll n q)"

fun run_queue :: "queue_op list \<Rightarrow> event_queue \<Rightarrow> event_queue" where
  "run_queue [] q = q"
| "run_queue (op # ops) q = run_queue ops (queue_step op q)"

lemma queue_step_ok: "event_queue_ok q \<Longrightarrow> event_queue_ok (queue_step op q)"
  by (cases op)
    (simp_all add: RegisterEvent_ok [OF _ surjective_pairing] DeleteEvent_ok [OF _ surjective_pairing]
      TriggerUserEvent_ok [OF _ surjective_pairing] TriggerFirstByFilter_ok [OF _ surjective_pairing]
      Poll_ok(1) [OF _ surjective_pairing])

lemma empty_event_queue_ok [simp]: "event_queue_ok (empty_event_queue name)"
  by (simp add: event_queue_ok_def empty_event_queue_def)

lemma trigger_registrations [simp]:
  "eq_registrations (snd (EventQueue_TriggerUserEvent i u q)) = eq_registrations q"
  "eq_registrations (snd (EventQueue_TriggerFirstByFilter f d q)) = eq_registrations q"
  "eq_registrations (snd (EventQueue_Poll n q)) = eq_registrations q"
  "issued (snd (EventQueue_TriggerUserEvent i u q)) g = issued q g"
  "issued (snd (EventQueue_TriggerFirstByFilter f d q)) g = issued q g"
  "issued (snd (EventQueue_Poll n q)) g = issued q g"
  by (simp_all add: EventQueue_TriggerUserEvent_def EventQueue_TriggerFirstByFilter_def
      EventQueue_Poll_def Let_def issued_def split: option.splits)

lemma queue_step_stale:
  assumes ok: "event_queue_ok q" and old: "issued q (re_registration_generation e)"
    and stale: "\<not> EventQueue_IsCurrent e q"
  shows "issued (queue_step op q) (re_registration_generation e)"
    and "\<not> EventQueue_IsCurrent e (queue_step op q)"
proof -
  have "issued (queue_step op q) (re_registration_generation e) \<and>
    \<not> EventQueue_IsCurrent e (queue_step op q)"
  proof (cases op)
    case (Q_Register i f flags u)
    obtain r q' where reg: "EventQueue_RegisterEvent i f flags u q = (r, q')" by fastforce
    show ?thesis
    proof (cases "q' = q")
      case True
      with Q_Register reg old stale show ?thesis by simp
    next
      case False
      from RegisterEvent_registers [OF reg ok False]
      have rs: "registers i f (new_registration i f flags u (eq_next_generation q)) q q'" by blast
      have "\<not> issued q (eq_next_generation q)" using rs by (simp add: registers_def issued_def)
      then have "re_registration_generation e \<noteq> eq_next_generation q" using old by auto
      then have "\<not> EventQueue_IsCurrent e q'"
        using rs stale by (auto simp: IsCurrent_iff registers_def)
      with Q_Register reg old registers_issued [OF rs] show ?thesis by simp
    qed
  next
    case (Q_Delete i f)
    obtain st q' where del: "EventQueue_DeleteEvent i f q = (st, q')" by fastforce
    from DeleteEvent_effect [OF ok del] Q_Delete del old stale show ?thesis
      by (auto simp: IsCurrent_iff issued_def)
  qed (use old stale in \<open>simp_all add: IsCurrent_iff\<close>)
  then show "issued (queue_step op q) (re_registration_generation e)"
    "\<not> EventQueue_IsCurrent e (queue_step op q)" by blast+
qed

lemma run_queue_stale:
  "event_queue_ok q \<Longrightarrow> issued q (re_registration_generation e) \<Longrightarrow> \<not> EventQueue_IsCurrent e q \<Longrightarrow>
   \<not> EventQueue_IsCurrent e (run_queue ops q)"
proof (induction ops arbitrary: q)
  case (Cons op ops)
  have "issued (queue_step op q) (re_registration_generation e)"
    "\<not> EventQueue_IsCurrent e (queue_step op q)"
    using queue_step_stale Cons.prems by blast+
  with Cons.IH [OF queue_step_ok [OF Cons.prems(1)]] show ?case by simp
qed simp

lemma run_queue_ok: "event_queue_ok q \<Longrightarrow> event_queue_ok (run_queue ops q)"
  by (induction ops arbitrary: q) (simp_all add: queue_step_ok)

section \<open>The service's invariant\<close>

text \<open>
  A thread that waits on the key of a queue has a waiter for that queue that is still
  waiting, and the queue exists; the service's map holds exactly the queues of the table.
\<close>

definition event_service_ok :: "event_queue_service \<Rightarrow> bool" where
  "event_service_ok es \<longleftrightarrow>
     kernel_ok (es_kernel es) \<and> om_ok (es_queues es) \<and> om_ok (es_waiters es) \<and>
     (\<forall>h. h \<in> om_keys (es_queues es) \<longleftrightarrow>
        HandleTable_Find h kEventQueue (handles (es_kernel es)) \<noteq> None) \<and>
     (\<forall>h q. HandleTable_Find h kEventQueue (handles (es_kernel es)) = Some (EventQueueObject q) \<longrightarrow>
        event_queue_ok q) \<and>
     (\<forall>h. \<forall>j \<in> waiters (es_sched es) (EventQueue_MakeWaitKey h).
        HandleTable_Find h kEventQueue (handles (es_kernel es)) \<noteq> None \<and>
        (\<exists>w. om_find (es_waiters es) j = Some w \<and> wt_queue_handle w = h \<and> wt_completion w = kWaiting)) \<and>
     (\<forall>j w. om_find (es_waiters es) j = Some w \<longrightarrow> wt_maximum_count w > 0)"

lemma EventQueue_MakeWaitKey_inject [simp]:
  "EventQueue_MakeWaitKey a = EventQueue_MakeWaitKey b \<longleftrightarrow> a = b"
  by (simp add: EventQueue_MakeWaitKey_def)

lemma EventQueue_MakeWaitKey_nonempty [simp]: "EventQueue_MakeWaitKey a \<noteq> ''''"
  by (simp add: EventQueue_MakeWaitKey_def)

lemma EventQueueService_Find_Some:
  "EventQueueService_Find h es = Some q \<longleftrightarrow>
     HandleTable_Find h kEventQueue (handles (es_kernel es)) = Some (EventQueueObject q)"
  by (auto simp: EventQueueService_Find_def split: option.splits kernel_object.splits)

lemma EventQueueService_Find_None:
  "EventQueueService_Find h es = None \<longleftrightarrow>
     HandleTable_Find h kEventQueue (handles (es_kernel es)) = None"
  by (auto simp: EventQueueService_Find_def HandleTable_Find_Some split: option.splits kernel_object.splits)

lemma es_simps [simp]:
  "es_sched (es_set_sched s es) = s" "es_sched (es_store_queue h q es) = es_sched es"
  "es_sched (es\<lparr>es_waiters := ws\<rparr>) = es_sched es" "es_sched (erase_waiter j es) = es_sched es"
  "es_waiters (es_set_sched s es) = es_waiters es" "es_waiters (es_store_queue h q es) = es_waiters es"
  "es_waiters (erase_waiter j es) = om_erase j (es_waiters es)"
  "es_queues (es_set_sched s es) = es_queues es" "es_queues (es_store_queue h q es) = es_queues es"
  "es_queues (erase_waiter j es) = es_queues es"
  "handles (es_kernel (es_set_sched s es)) = handles (es_kernel es)"
  "es_kernel (erase_waiter j es) = es_kernel es"
  "handles (es_kernel (es_store_queue h q es)) = store_object h (EventQueueObject q) (handles (es_kernel es))"
  by (simp_all add: es_sched_def es_set_sched_def es_store_queue_def erase_waiter_def)

lemma es_store_set_sched:
  "es_store_queue h q (es_set_sched s es) = es_set_sched s (es_store_queue h q es)"
proof -
  have "k\<lparr>sched := s, handles := t\<rparr> = k\<lparr>handles := t, sched := s\<rparr>" for k :: kernel and t
    by (rule kernel.equality) simp_all
  then show ?thesis by (simp add: es_store_queue_def es_set_sched_def)
qed

lemma event_service_okD:
  assumes "event_service_ok es"
  shows "kernel_ok (es_kernel es)" "sched_ok (es_sched es)" "om_ok (es_queues es)" "om_ok (es_waiters es)"
    "h \<in> om_keys (es_queues es) \<longleftrightarrow> HandleTable_Find h kEventQueue (handles (es_kernel es)) \<noteq> None"
    "HandleTable_Find h kEventQueue (handles (es_kernel es)) = Some (EventQueueObject q) \<Longrightarrow> event_queue_ok q"
    "j \<in> waiters (es_sched es) (EventQueue_MakeWaitKey h) \<Longrightarrow>
       HandleTable_Find h kEventQueue (handles (es_kernel es)) \<noteq> None"
    "j \<in> waiters (es_sched es) (EventQueue_MakeWaitKey h) \<Longrightarrow>
       \<exists>w. om_find (es_waiters es) j = Some w \<and> wt_queue_handle w = h \<and> wt_completion w = kWaiting"
    "om_find (es_waiters es) j = Some w \<Longrightarrow> wt_maximum_count w > 0"
  using assms kernel_okD(2) by (auto simp: event_service_ok_def es_sched_def)

text \<open>Storing a queue back keeps everything but the queue.\<close>

lemma event_service_ok_store:
  assumes ok: "event_service_ok es"
    and f: "HandleTable_Find h kEventQueue (handles (es_kernel es)) = Some ob" and q: "event_queue_ok q"
  shows "event_service_ok (es_store_queue h q es)"
proof -
  have "kernel_ok (es_kernel (es_store_queue h q es))"
    using kernel_ok_store [OF event_service_okD(1) [OF ok] f, of "EventQueueObject q"]
    by (simp add: es_store_queue_def)
  moreover have "HandleTable_Find x kEventQueue (store_object h (EventQueueObject q) (handles (es_kernel es))) =
      (if x = h then Some (EventQueueObject q) else HandleTable_Find x kEventQueue (handles (es_kernel es)))" for x
    using find_after_store [OF f, of "EventQueueObject q"] by simp
  ultimately show ?thesis
    using ok f q unfolding event_service_ok_def by auto
qed

lemma on_queue_ok:
  assumes ok: "event_service_ok es" and f: "\<And>q st q'. event_queue_ok q \<Longrightarrow> f q = (st, q') \<Longrightarrow> event_queue_ok q'"
  shows "event_service_ok (snd (on_queue h f es))"
  using ok f event_service_ok_store [OF ok] event_service_okD(6) [OF ok, of h]
  by (auto simp: on_queue_def EventQueueService_Find_Some split: option.splits prod.splits)

lemma AddUserEvent_ok: "event_queue_ok q \<Longrightarrow> EventQueue_AddUserEvent i edge q = (st, q') \<Longrightarrow> event_queue_ok q'"
  by (auto simp: EventQueue_AddUserEvent_def Let_def split: prod.splits intro: RegisterEvent_ok)

lemma register_status_ok: "event_queue_ok q \<Longrightarrow> register_status i f flags u q = (st, q') \<Longrightarrow> event_queue_ok q'"
  by (auto simp: register_status_def Let_def split: prod.splits intro: RegisterEvent_ok)

text \<open>Changes of the scheduler that make nobody wait, and of the waiters.\<close>

lemma event_service_ok_sched:
  assumes ok: "event_service_ok es" and s: "sched_ok s" "om_keys (threads s) = om_keys (threads (es_sched es))"
    and ws: "om_ok ws" "\<And>j w. om_find ws j = Some w \<Longrightarrow> wt_maximum_count w > 0"
    and sub: "\<And>h. waiters s (EventQueue_MakeWaitKey h) \<subseteq> waiters (es_sched es) (EventQueue_MakeWaitKey h)"
    and keep: "\<And>j h w. j \<in> waiters s (EventQueue_MakeWaitKey h) \<Longrightarrow> om_find (es_waiters es) j = Some w \<Longrightarrow>
        wt_queue_handle w = h \<Longrightarrow> wt_completion w = kWaiting \<Longrightarrow>
        \<exists>w'. om_find ws j = Some w' \<and> wt_queue_handle w' = h \<and> wt_completion w' = kWaiting"
  shows "event_service_ok (es_set_sched s (es\<lparr>es_waiters := ws\<rparr>))"
proof -
  have "kernel_ok (es_kernel (es_set_sched s (es\<lparr>es_waiters := ws\<rparr>)))"
    using kernel_ok_sched [OF event_service_okD(1) [OF ok] s(1)] s(2) by (simp add: es_set_sched_def es_sched_def)
  moreover have "\<exists>w. om_find ws j = Some w \<and> wt_queue_handle w = h \<and> wt_completion w = kWaiting"
    "HandleTable_Find h kEventQueue (handles (es_kernel es)) \<noteq> None"
    if j: "j \<in> waiters s (EventQueue_MakeWaitKey h)" for j h
  proof -
    have j': "j \<in> waiters (es_sched es) (EventQueue_MakeWaitKey h)" using j sub by blast
    show "HandleTable_Find h kEventQueue (handles (es_kernel es)) \<noteq> None"
      using event_service_okD(7) [OF ok j'] .
    show "\<exists>w. om_find ws j = Some w \<and> wt_queue_handle w = h \<and> wt_completion w = kWaiting"
      using event_service_okD(8) [OF ok j'] keep [OF j] by blast
  qed
  ultimately show ?thesis
    using ok ws unfolding event_service_ok_def by simp
qed

subsection \<open>Handing events to waiting threads\<close>

text \<open>What both loops over the waiters do to the scheduler.\<close>

definition wakes_only :: "guest_scheduler \<Rightarrow> guest_scheduler \<Rightarrow> bool" where
  "wakes_only s s' \<longleftrightarrow>
     sched_ok s' \<and> om_keys (threads s') = om_keys (threads s) \<and>
     current_thread s' = current_thread s \<and> keeps_threads s s' \<and>
     (\<forall>k. waiters s' k \<subseteq> waiters s k)"

lemma wakes_only_refl: "sched_ok s \<Longrightarrow> wakes_only s s"
  by (simp add: wakes_only_def)

lemma wakes_only_trans: "wakes_only s s1 \<Longrightarrow> wakes_only s1 s2 \<Longrightarrow> wakes_only s s2"
  unfolding wakes_only_def by (metis keeps_threads_trans subset_trans)

lemma wakes_only_WakeBlockedThread:
  "sched_ok s \<Longrightarrow> key \<noteq> '''' \<Longrightarrow> wakes_only s (snd (WakeBlockedThread now h key s))"
  using WakeBlockedThread_waiters(2,3) [of s key now h] 
  by (simp add: wakes_only_def WakeBlockedThread_ok keeps_threads_WakeBlockedThread)

lemma wakes_only_notin: "wakes_only s s' \<Longrightarrow> h \<notin> waiters s k \<Longrightarrow> h \<notin> waiters s' k"
  by (auto simp: wakes_only_def)

abbreviation waits_for :: "u64 \<Rightarrow> waiter \<Rightarrow> bool" where
  "waits_for handle w \<equiv> wt_queue_handle w = handle \<and> wt_completion w = kWaiting"

lemma DeleteWaiters_loop_spec:
  "sched_ok s \<Longrightarrow> om_ok ws \<Longrightarrow> DeleteWaiters_loop clock handle ws s = (ws', s') \<Longrightarrow>
   wakes_only s s' \<and> map fst ws' = map fst ws \<and>
   (\<forall>j. om_find ws' j = map_option (\<lambda>w. if wt_queue_handle w = handle
          then w\<lparr>wt_completion := kDeleted, wt_events := []\<rparr> else w) (om_find ws j)) \<and>
   (\<forall>j w. om_find ws j = Some w \<longrightarrow> waits_for handle w \<longrightarrow>
      j \<notin> waiters s' (EventQueue_MakeWaitKey handle))"
proof (induction clock handle ws s arbitrary: ws' s' rule: DeleteWaiters_loop.induct)
  case (1 clock handle s)
  then show ?case by (simp add: wakes_only_refl)
next
  case (2 clock handle j w rest s)
  show ?case
  proof (cases "wt_queue_handle w = handle")
    case False
    obtain r' s1 where l: "DeleteWaiters_loop clock handle rest s = (r', s1)" by fastforce
    have "om_ok rest" using 2(4) by (simp add: om_ok_Cons)
    from 2(1) [OF False 2(3) this l] 2(5) False l show ?thesis
      by (auto simp: om_find_Cons)
  next
    case True
    let ?w' = "w\<lparr>wt_completion := kDeleted, wt_events := []\<rparr>"
    let ?key = "EventQueue_MakeWaitKey handle"
    let ?s1 = "if wt_completion w = kWaiting
      then snd (WakeBlockedThread (clock (Wake_Call j)) j ?key s) else s"
    obtain r' s2 where l: "DeleteWaiters_loop clock handle rest ?s1 = (r', s2)" by fastforce
    have e: "ws' = (j, ?w') # r'" "s' = s2" using 2(5) True l by (auto simp: Let_def)
    have w1: "wakes_only s ?s1" using 2(3) by (simp add: wakes_only_refl wakes_only_WakeBlockedThread)
    have rest: "om_ok rest" using 2(4) by (simp add: om_ok_Cons)
    have "\<not> wt_queue_handle w \<noteq> handle" using True by simp
    from 2(2) [OF this refl refl refl _ rest l] w1
    have IH: "wakes_only ?s1 s2" "map fst r' = map fst rest"
      "\<forall>j. om_find r' j = map_option (\<lambda>w. if wt_queue_handle w = handle
          then w\<lparr>wt_completion := kDeleted, wt_events := []\<rparr> else w) (om_find rest j)"
      "\<forall>j w. om_find rest j = Some w \<longrightarrow> waits_for handle w \<longrightarrow> j \<notin> waiters s2 ?key"
      by (auto simp: wakes_only_def)
    have "j \<notin> waiters s2 ?key" if "wt_completion w = kWaiting"
      using that wakes_only_notin [OF IH(1)] WakeBlockedThread_waiters(1) [OF 2(3), of ?key] by simp
    with IH wakes_only_trans [OF w1 IH(1)] True e show ?thesis
      by (auto simp: om_find_Cons)
  qed
qed

text \<open>
  A waiting thread whose deadline has passed at its check is left to its timeout. Every other
  one is handed events, unless the queue has run out of them.
\<close>

definition wait_expired_at :: "(clock_point \<Rightarrow> u64) \<Rightarrow> u64 \<Rightarrow> waiter \<Rightarrow> bool" where
  "wait_expired_at clock j w \<longleftrightarrow>
     (case wt_deadline_nanoseconds w of None \<Rightarrow> False | Some d \<Rightarrow> d \<le> clock (Deadline_Check j))"

lemma ReserveWaiting_loop_Cons:
  "ReserveWaiting_loop clock handle ((j, w) # rest) q s =
     (if \<not> waits_for handle w \<or> wait_expired_at clock j w
      then let (rest', q', s') = ReserveWaiting_loop clock handle rest q s in ((j, w) # rest', q', s')
      else
        let (events, q1) = EventQueue_Poll (wt_maximum_count w) q in
        if events = [] then ((j, w) # rest, q1, s)
        else
          let (rest', q', s') = ReserveWaiting_loop clock handle rest q1
                (snd (WakeBlockedThread (clock (Wake_Call j)) j (EventQueue_MakeWaitKey handle) s))
          in ((j, w\<lparr>wt_events := events, wt_completion := kReserved\<rparr>) # rest', q', s'))"
  by (auto simp: wait_expired_at_def Let_def split: prod.split)

definition reserve_spec ::
  "(clock_point \<Rightarrow> u64) \<Rightarrow> u64 \<Rightarrow> (u64, waiter) omap \<Rightarrow> guest_scheduler \<Rightarrow>
   (u64, waiter) omap \<Rightarrow> event_queue \<Rightarrow> guest_scheduler \<Rightarrow> bool" where
  "reserve_spec clock handle ws s ws' q' s' \<longleftrightarrow>
     event_queue_ok q' \<and> wakes_only s s' \<and> map fst ws' = map fst ws \<and>
     (\<forall>j. om_find ws' j = om_find ws j \<or>
        (\<exists>w ev. om_find ws j = Some w \<and> waits_for handle w \<and> ev \<noteq> [] \<and>
           om_find ws' j = Some (w\<lparr>wt_events := ev, wt_completion := kReserved\<rparr>) \<and>
           j \<notin> waiters s' (EventQueue_MakeWaitKey handle))) \<and>
     (eq_pending_events q' = [] \<or>
      (\<forall>j w. om_find ws' j = Some w \<longrightarrow> waits_for handle w \<longrightarrow> wait_expired_at clock j w))"

lemma reserve_spec_skip:
  assumes "reserve_spec clock handle rest s rest' q' s'" "om_ok ((j, w) # rest)"
    "\<not> waits_for handle w \<or> wait_expired_at clock j w"
  shows "reserve_spec clock handle ((j, w) # rest) s ((j, w) # rest') q' s'"
  using assms by (auto simp: reserve_spec_def om_find_Cons)

lemma reserve_spec_take:
  assumes r: "reserve_spec clock handle rest s1 rest' q' s'" and ok: "om_ok ((j, w) # rest)"
    and w: "waits_for handle w" "ev \<noteq> []"
    and s: "wakes_only s s1" "j \<notin> waiters s1 (EventQueue_MakeWaitKey handle)"
  shows "reserve_spec clock handle ((j, w) # rest) s
    ((j, w\<lparr>wt_events := ev, wt_completion := kReserved\<rparr>) # rest') q' s'"
proof -
  have s1: "wakes_only s1 s'" using r by (simp add: reserve_spec_def)
  show ?thesis
    using r w wakes_only_trans [OF s(1) s1] wakes_only_notin [OF s1 s(2)]
    by (auto simp: reserve_spec_def om_find_Cons)
qed

lemma ReserveWaiting_loop_spec:
  "sched_ok s \<Longrightarrow> event_queue_ok q \<Longrightarrow> om_ok ws \<Longrightarrow>
   (\<And>j w. om_find ws j = Some w \<Longrightarrow> wt_maximum_count w > 0) \<Longrightarrow>
   ReserveWaiting_loop clock handle ws q s = (ws', q', s') \<Longrightarrow>
   reserve_spec clock handle ws s ws' q' s'"
proof (induction ws arbitrary: q s ws' q' s')
  case Nil
  then show ?case by (simp add: reserve_spec_def wakes_only_refl)
next
  case (Cons p rest)
  obtain j w where p: "p = (j, w)" by fastforce
  note ok = Cons.prems(3) [unfolded p]
  have rest: "om_ok rest" using ok by (simp add: om_ok_Cons)
  have max: "wt_maximum_count v > 0" if "om_find rest i = Some v" for i v
  proof -
    have "i \<noteq> j" using that ok om_find_Some_keys [OF that] by (auto simp: om_ok_Cons)
    with Cons.prems(4) [of i v] that show ?thesis by (simp add: p om_find_Cons)
  qed
  have maxw: "wt_maximum_count w > 0" using Cons.prems(4) [of j w] by (simp add: p om_find_Cons)
  note run = Cons.prems(5) [unfolded p ReserveWaiting_loop_Cons]
  obtain ev q1 where poll: "EventQueue_Poll (wt_maximum_count w) q = (ev, q1)" by fastforce
  have q1: "event_queue_ok q1" using Poll_ok(1) [OF Cons.prems(2) poll] .
  show ?case
  proof (cases "\<not> waits_for handle w \<or> wait_expired_at clock j w")
    case True
    obtain r' q2 s2 where l: "ReserveWaiting_loop clock handle rest q s = (r', q2, s2)"
      by (metis surj_pair)
    from reserve_spec_skip [OF Cons.IH [OF Cons.prems(1,2) rest max l] ok True] run True l
    show ?thesis by (auto simp: p)
  next
    case False
    show ?thesis
    proof (cases "ev = []")
      case True
      then have "eq_pending_events q1 = []" using Poll_events [OF poll] maxw by auto
      with run False poll True q1 wakes_only_refl [OF Cons.prems(1)] show ?thesis
        by (auto simp: p reserve_spec_def)
    next
      case ne: False
      let ?s1 = "snd (WakeBlockedThread (clock (Wake_Call j)) j (EventQueue_MakeWaitKey handle) s)"
      have w1: "wakes_only s ?s1" using Cons.prems(1) by (simp add: wakes_only_WakeBlockedThread)
      then have ok1: "sched_ok ?s1" by (simp add: wakes_only_def)
      obtain r' q2 s2 where l: "ReserveWaiting_loop clock handle rest q1 ?s1 = (r', q2, s2)"
        by (metis surj_pair)
      have notin: "j \<notin> waiters ?s1 (EventQueue_MakeWaitKey handle)"
        using WakeBlockedThread_waiters(1) [OF Cons.prems(1) EventQueue_MakeWaitKey_nonempty] .
      from reserve_spec_take [OF Cons.IH [OF ok1 q1 rest max l] ok _ ne w1 notin] run False poll ne l
      show ?thesis by (auto simp: p)
    qed
  qed
qed

lemma ReserveWaitingThreadsLocked_ok:
  assumes ok: "event_service_ok es" and q: "event_queue_ok q"
    and f: "HandleTable_Find h kEventQueue (handles (es_kernel es)) = Some ob"
  shows "event_service_ok (ReserveWaitingThreadsLocked clock h q es)"
proof -
  obtain ws q' s where l: "ReserveWaiting_loop clock h (es_waiters es) q (es_sched es) = (ws, q', s)"
    by (metis surj_pair)
  note sp = ReserveWaiting_loop_spec [OF event_service_okD(2) [OF ok] q event_service_okD(4) [OF ok]
      event_service_okD(9) [OF ok] l]
  have wo: "wakes_only (es_sched es) s" and fst: "map fst ws = map fst (es_waiters es)"
    and q': "event_queue_ok q'"
    and ent: "om_find ws j = om_find (es_waiters es) j \<or>
      (\<exists>w ev. om_find (es_waiters es) j = Some w \<and> waits_for h w \<and> ev \<noteq> [] \<and>
         om_find ws j = Some (w\<lparr>wt_events := ev, wt_completion := kReserved\<rparr>) \<and>
         j \<notin> waiters s (EventQueue_MakeWaitKey h))" for j
    using sp by (simp_all add: reserve_spec_def)
  have "event_service_ok (es_set_sched s (es\<lparr>es_waiters := ws\<rparr>))"
  proof (rule event_service_ok_sched [OF ok], goal_cases)
    case 3
    then show ?case using fst event_service_okD(4) [OF ok] by (simp add: om_ok_def)
  next
    case (4 j w)
    then show ?case using ent [of j] event_service_okD(9) [OF ok, of j] by auto
  next
    case (6 j x w)
    then show ?case using ent [of j] by auto
  qed (use wo in \<open>simp_all add: wakes_only_def\<close>)
  from event_service_ok_store [OF this _ q', of h ob] f
  have "event_service_ok (es_store_queue h q' (es_set_sched s (es\<lparr>es_waiters := ws\<rparr>)))" by simp
  then show ?thesis by (simp add: ReserveWaitingThreadsLocked_def l es_store_set_sched)
qed

lemma TriggerUserEvent_service_ok:
  assumes ok: "event_service_ok es"
  shows "event_service_ok (snd (EventQueueService_TriggerUserEvent clock h i u es))"
proof (cases "EventQueueService_Find h es")
  case None
  with ok show ?thesis by (simp add: EventQueueService_TriggerUserEvent_def)
next
  case (Some q)
  then have f: "HandleTable_Find h kEventQueue (handles (es_kernel es)) = Some (EventQueueObject q)"
    by (simp add: EventQueueService_Find_Some)
  obtain st q' where t: "EventQueue_TriggerUserEvent i u q = (st, q')" by fastforce
  have "event_queue_ok q'" using TriggerUserEvent_ok [OF event_service_okD(6) [OF ok f] t] .
  with Some t f ok show ?thesis
    by (simp add: EventQueueService_TriggerUserEvent_def ReserveWaitingThreadsLocked_ok event_service_ok_store)
qed

lemma TriggerEvents_loop_ok:
  "event_service_ok es \<Longrightarrow> event_service_ok (snd (TriggerEvents_loop clock filt d hs n es))"
proof (induction hs arbitrary: n es)
  case (Cons h hs)
  show ?case
  proof (cases "EventQueueService_Find h es")
    case None
    with Cons show ?thesis by simp
  next
    case (Some q)
    then have f: "HandleTable_Find h kEventQueue (handles (es_kernel es)) = Some (EventQueueObject q)"
      by (simp add: EventQueueService_Find_Some)
    obtain b q' where t: "EventQueue_TriggerFirstByFilter filt d q = (b, q')" by fastforce
    have "event_queue_ok q'" using TriggerFirstByFilter_ok [OF event_service_okD(6) [OF Cons.prems f] t] .
    from ReserveWaitingThreadsLocked_ok [OF Cons.prems this f] Cons Some t show ?thesis by simp
  qed
qed simp

lemma EventQueueService_Create_ok:
  assumes ok: "event_service_ok es"
  shows "event_service_ok (snd (EventQueueService_Create name es))"
proof -
  let ?k = "es_kernel es" and ?q = "EventQueueObject (empty_event_queue name)"
  obtain r t where ins: "HandleTable_Insert (Some ?q) (handles ?k) = (r, t)" by fastforce
  have k: "kernel_ok (?k\<lparr>handles := t\<rparr>)"
    by (rule kernel_ok_insert [OF event_service_okD(1) [OF ok] _ ins]) simp
  show ?thesis
  proof (cases r)
    case None
    then have "t = handles ?k" using ins ht.insert_fails by blast
    with None ok ins show ?thesis by (simp add: EventQueueService_Create_def)
  next
    case (Some h)
    note ins = ins [unfolded Some]
    have find: "HandleTable_Find x kEventQueue t = (if x = h then Some ?q else
        HandleTable_Find x kEventQueue (handles ?k))" for x
      using ht.insert_find [OF kernel_okD(1) [OF event_service_okD(1) [OF ok]] ins, of x kEventQueue] by simp
    have "event_service_ok (es\<lparr>es_kernel := ?k\<lparr>handles := t\<rparr>,
        es_queues := om_emplace h () (es_queues es)\<rparr>)"
      using ok k find unfolding event_service_ok_def by (auto simp: es_sched_def)
    with ok ins show ?thesis by (simp add: EventQueueService_Create_def)
  qed
qed

lemma EventQueueService_Delete_ok:
  assumes ok: "event_service_ok es"
  shows "event_service_ok (snd (EventQueueService_Delete clock h es))"
proof (cases "HandleTable_Remove h kEventQueue (handles (es_kernel es))")
  case (Pair r t)
  show ?thesis
  proof (cases r)
    case None
    with Pair ok show ?thesis by (simp add: EventQueueService_Delete_def)
  next
    case (Some ob)
    let ?k = "es_kernel es"
    have rm: "HandleTable_Remove h kEventQueue (handles ?k) = (Some ob, t)" using Pair Some by simp
    obtain ws s where l: "DeleteWaiters_loop clock h (es_waiters es) (es_sched es) = (ws, s)" by fastforce
    note sp = DeleteWaiters_loop_spec [OF event_service_okD(2,4) [OF ok] l]
    have k: "kernel_ok (?k\<lparr>handles := t, sched := s\<rparr>)"
      using kernel_ok_sched [OF kernel_ok_remove [OF event_service_okD(1) [OF ok] _ rm], of s] sp
      by (simp add: wakes_only_def es_sched_def)
    have find: "HandleTable_Find x kEventQueue t = (if x = h then None else
        HandleTable_Find x kEventQueue (handles ?k))" for x
      using ht.remove_find [OF kernel_okD(1) [OF event_service_okD(1) [OF ok]] rm] .
    have wt: "x \<noteq> h \<and> HandleTable_Find x kEventQueue (handles ?k) \<noteq> None \<and>
        (\<exists>w. om_find ws j = Some w \<and> waits_for x w)" if j: "j \<in> waiters s (EventQueue_MakeWaitKey x)" for x j
    proof -
      have j': "j \<in> waiters (es_sched es) (EventQueue_MakeWaitKey x)"
        using j sp by (auto simp: wakes_only_def)
      from event_service_okD(8) [OF ok j'] obtain w where w: "om_find (es_waiters es) j = Some w" "waits_for x w"
        by blast
      have "x \<noteq> h" using w sp j by auto
      with w sp event_service_okD(7) [OF ok j'] show ?thesis by auto
    qed
    have "om_ok ws" using sp event_service_okD(4) [OF ok] by (simp add: om_ok_def)
    moreover have "wt_maximum_count w > 0" if "om_find ws j = Some w" for j w
      using that sp event_service_okD(9) [OF ok, of j] by (auto split: if_splits)
    ultimately have "event_service_ok (es\<lparr>es_kernel := ?k\<lparr>handles := t, sched := s\<rparr>,
        es_queues := om_erase h (es_queues es), es_waiters := ws\<rparr>)"
      using ok k find wt unfolding event_service_ok_def by (auto simp: es_sched_def)
    with rm l show ?thesis by (simp add: EventQueueService_Delete_def)
  qed
qed

subsection \<open>Polling and waiting\<close>

lemma PollLocked_ok:
  assumes ok: "event_service_ok es" and p: "EventQueueService_PollLocked h n es = (r, es')"
  shows "event_service_ok es'" "es_sched es' = es_sched es" "es_waiters es' = es_waiters es"
    and "qp_status r = kBusy \<Longrightarrow> HandleTable_Find h kEventQueue (handles (es_kernel es')) \<noteq> None"
proof -
  consider "es' = es" "qp_status r \<noteq> kBusy"
    | q ev q' where "HandleTable_Find h kEventQueue (handles (es_kernel es)) = Some (EventQueueObject q)"
      "EventQueue_Poll n q = (ev, q')" "es' = es_store_queue h q' es"
    using p by (fastforce simp: EventQueueService_PollLocked_def EventQueueService_Find_Some Let_def
        split: if_splits option.splits prod.splits)
  note cs = this
  show "event_service_ok es'"
    using cs
  proof cases
    case 2
    with event_service_ok_store [OF ok 2(1) Poll_ok(1) [OF event_service_okD(6) [OF ok 2(1)] 2(2)]]
    show ?thesis by simp
  qed (use ok in simp)
  show "es_sched es' = es_sched es" "es_waiters es' = es_waiters es" using cs by (cases; simp)+
  show "HandleTable_Find h kEventQueue (handles (es_kernel es')) \<noteq> None" if "qp_status r = kBusy"
    using cs that by cases (auto simp: find_after_store)
qed

lemma waiters_consume: "waiters (snd (ConsumeCurrentThreadTimeout key s)) k = waiters s k"
  by (auto simp: ConsumeCurrentThreadTimeout_def waiters_def om_find_update blocked_on_def
      running_thread_Some split: option.splits if_splits)

lemma running_not_waiting: "sched_ok s \<Longrightarrow> current_thread s = Some j \<Longrightarrow> j \<notin> waiters s k"
  using sched_okD(4) [of s j] by (auto simp: waiters_def blocked_on_def)

lemma current_consume [simp]:
  "current_thread (snd (ConsumeCurrentThreadTimeout key s)) = current_thread s"
  by (simp add: ConsumeCurrentThreadTimeout_def split: option.splits)

lemma event_service_ok_consume:
  assumes ok: "event_service_ok es" and c: "ConsumeCurrentThreadTimeout key (es_sched es) = (b, s)"
  shows "event_service_ok (es_set_sched s es)"
proof -
  have s: "s = snd (ConsumeCurrentThreadTimeout key (es_sched es))" using c by simp
  have "event_service_ok (es_set_sched s (es\<lparr>es_waiters := es_waiters es\<rparr>))"
    by (rule event_service_ok_sched [OF ok])
      (use event_service_okD(2,4,9) [OF ok] in \<open>auto simp: s waiters_consume ConsumeCurrentThreadTimeout_ok\<close>)
  then show ?thesis by simp
qed

lemma event_service_ok_erase:
  assumes ok: "event_service_ok es" and cur: "current_thread (es_sched es) = Some j"
  shows "event_service_ok (erase_waiter j es)"
proof -
  have "event_service_ok (es_set_sched (es_sched es) (es\<lparr>es_waiters := om_erase j (es_waiters es)\<rparr>))"
    by (rule event_service_ok_sched [OF ok])
      (use event_service_okD(2,4,9) [OF ok] running_not_waiting [OF event_service_okD(2) [OF ok] cur] in
        \<open>auto simp: om_find_erase split: if_splits\<close>)
  moreover have "es_set_sched (es_sched es) (es\<lparr>es_waiters := om_erase j (es_waiters es)\<rparr>) = erase_waiter j es"
    by (simp add: es_set_sched_def es_sched_def erase_waiter_def)
  ultimately show ?thesis by simp
qed

lemma event_service_ok_block:
  assumes ok: "event_service_ok es" and cur: "current_thread (es_sched es) = Some j"
    and w: "om_find (es_waiters es) j = Some w" "waits_for h w"
    and f: "HandleTable_Find h kEventQueue (handles (es_kernel es)) \<noteq> None"
    and b: "BlockCurrentLocked (EventQueue_MakeWaitKey h) d (es_sched es) = (b, s)"
  shows "event_service_ok (es_set_sched s es)"
proof -
  have k: "kernel_ok (es_kernel (es_set_sched s es))"
    using kernel_ok_block [OF event_service_okD(1) [OF ok] b [unfolded es_sched_def]]
    by (simp add: es_set_sched_def)
  have "HandleTable_Find x kEventQueue (handles (es_kernel es)) \<noteq> None \<and>
      (\<exists>w. om_find (es_waiters es) i = Some w \<and> waits_for x w)"
    if i: "i \<in> waiters s (EventQueue_MakeWaitKey x)" for i x
    using wq.block_new_waiter [OF event_service_okD(2) [OF ok] b i] event_service_okD(7,8) [OF ok, of i x]
      cur w f by auto
  with ok k show ?thesis unfolding event_service_ok_def by simp
qed

lemma WaitAgain_poll_ok:
  assumes ok: "event_service_ok es" and cur: "current_thread (es_sched es) = Some j"
    and w: "om_find (es_waiters es) j = Some w" "waits_for h w"
  shows "event_service_ok (snd (WaitAgain_poll h j w es))"
proof -
  obtain b s where c: "ConsumeCurrentThreadTimeout (EventQueue_MakeWaitKey h) (es_sched es) = (b, s)"
    by fastforce
  let ?es1 = "es_set_sched s es"
  have ok1: "event_service_ok ?es1" using event_service_ok_consume [OF ok c] .
  have cur1: "current_thread (es_sched ?es1) = Some j"
    using current_consume [of "EventQueue_MakeWaitKey h" "es_sched es"] c cur by simp
  obtain r es2 where p: "EventQueueService_PollLocked h (wt_maximum_count w) ?es1 = (r, es2)" by fastforce
  note pl = PollLocked_ok [OF ok1 p]
  obtain bl s2 where bk: "BlockCurrentLocked (EventQueue_MakeWaitKey h) (wt_deadline_nanoseconds w)
      (es_sched es2) = (bl, s2)" by fastforce
  have "event_service_ok (es_set_sched s2 es2)" if "qp_status r = kBusy"
    using event_service_ok_block [OF pl(1) _ _ w(2) pl(4) [OF that] bk] cur1 w(1) pl(2,3) by simp
  moreover have "event_service_ok (erase_waiter j es2)" "event_service_ok (erase_waiter j ?es1)"
    using event_service_ok_erase [OF pl(1)] event_service_ok_erase [OF ok1] cur1 pl(2) by simp_all
  ultimately show ?thesis
    using c p bk by (simp add: WaitAgain_poll_def Let_def)
qed

lemma event_service_ok_set_waiter:
  assumes ok: "event_service_ok es" and cur: "current_thread (es_sched es) = Some j"
    and ws: "om_ok ws" "\<And>i. i \<noteq> j \<Longrightarrow> om_find ws i = om_find (es_waiters es) i"
      "\<And>w. om_find ws j = Some w \<Longrightarrow> wt_maximum_count w > 0"
  shows "event_service_ok (es\<lparr>es_waiters := ws\<rparr>)"
proof -
  note notin = running_not_waiting [OF event_service_okD(2) [OF ok] cur]
  have "event_service_ok (es_set_sched (es_sched es) (es\<lparr>es_waiters := ws\<rparr>))"
  proof (rule event_service_ok_sched [OF ok], goal_cases)
    case (4 i w)
    then show ?case using ws(2,3) event_service_okD(9) [OF ok, of i w] by (cases "i = j") auto
  next
    case (6 i h w)
    then show ?case using ws(2) [of i] notin by (cases "i = j") auto
  qed (use event_service_okD(2) [OF ok] ws(1) in auto)
  then show ?thesis by (simp add: es_set_sched_def es_sched_def)
qed

lemma WaitAgain_ok:
  assumes ok: "event_service_ok es" and cur: "current_thread (es_sched es) = Some j"
    and w: "om_find (es_waiters es) j = Some w"
  shows "event_service_ok (snd (WaitAgain h j w es))"
proof -
  let ?w' = "w\<lparr>wt_events := [], wt_completion := kWaiting\<rparr>"
  let ?es = "es\<lparr>es_waiters := om_update j (\<lambda>_. ?w') (es_waiters es)\<rparr>"
  have "event_service_ok ?es"
    by (rule event_service_ok_set_waiter [OF ok cur])
      (use event_service_okD(4,9) [OF ok] w in \<open>auto simp: om_find_update\<close>)
  from WaitAgain_poll_ok [OF this, of j ?w' h] cur w
  have again: "wt_queue_handle w = h \<Longrightarrow> event_service_ok (snd (WaitAgain_poll h j ?w' ?es))"
    by (simp add: om_find_update)
  have "wt_completion w = kWaiting" if "wt_completion w \<noteq> kDeleted" "wt_completion w \<noteq> kReserved"
    using that by (cases "wt_completion w") simp_all
  with again ok event_service_ok_erase [OF ok cur] WaitAgain_poll_ok [OF ok cur w, of h] show ?thesis
    by (auto simp: WaitAgain_def Let_def split: option.splits)
qed

lemma WaitFirst_ok:
  assumes ok: "event_service_ok es" and n: "n > 0"
    and new: "\<And>j. current_thread (es_sched es) = Some j \<Longrightarrow> om_find (es_waiters es) j = None"
  shows "event_service_ok (snd (WaitFirst clock h n timeout es))"
proof -
  obtain r es1 where p: "EventQueueService_PollLocked h n es = (r, es1)" by fastforce
  note pl = PollLocked_ok [OF ok p]
  show ?thesis
  proof (cases "qp_status r = kBusy \<and> timeout \<noteq> Some 0 \<and> current_thread (es_sched es1) \<noteq> None")
    case False
    with p pl(1) show ?thesis by (auto simp: WaitFirst_def split: option.splits)
  next
    case True
    then obtain j where cur: "current_thread (es_sched es1) = Some j" by blast
    define deadline where "deadline = map_option (wait_deadline (clock Wait_Start)) timeout"
    define w where "w = \<lparr>wt_queue_handle = h, wt_maximum_count = n,
      wt_deadline_nanoseconds = deadline, wt_completion = kWaiting, wt_events = []\<rparr>"
    let ?es2 = "es1\<lparr>es_waiters := om_emplace j w (es_waiters es1)\<rparr>"
    have none: "om_find (es_waiters es1) j = None" using new cur pl(2,3) by simp
    have ok2: "event_service_ok ?es2"
      by (rule event_service_ok_set_waiter [OF pl(1) cur])
        (use event_service_okD(4) [OF pl(1)] none n in \<open>auto simp: om_find_emplace w_def\<close>)
    obtain b s where bk: "BlockCurrentLocked (EventQueue_MakeWaitKey h) deadline (es_sched ?es2) = (b, s)"
      by fastforce
    have wf: "om_find (es_waiters ?es2) j = Some w" "waits_for h w" using none
      by (simp_all add: om_find_emplace w_def)
    have found: "HandleTable_Find h kEventQueue (handles (es_kernel ?es2)) \<noteq> None"
      using pl(4) True by simp
    have ok3: "event_service_ok (es_set_sched s ?es2)"
      using event_service_ok_block [OF ok2 _ wf found bk] cur by simp
    have "b" using bk cur BlockCurrentLocked_iff [OF event_service_okD(2) [OF pl(1)],
          of "EventQueue_MakeWaitKey h" deadline] by simp
    with p True cur bk ok3 show ?thesis
      by (simp add: WaitFirst_def Let_def deadline_def [symmetric] w_def [symmetric])
  qed
qed

lemma EventQueueService_Wait_ok:
  assumes ok: "event_service_ok es"
  shows "event_service_ok (snd (EventQueueService_Wait clock h n timeout es))"
  using ok WaitFirst_ok [OF ok, of n clock h timeout] WaitAgain_ok [OF ok]
  by (auto simp: EventQueueService_Wait_def split: option.splits)

section \<open>Properties\<close>


definition example_queue :: event_queue where
  "example_queue = run_queue [Q_Register 5 kEventFilterUser 1 0, Q_Trigger_User 5 7] (empty_event_queue ''q'')"



definition example_service :: event_queue_service where
  "example_service = snd (EventQueueService_AddUserEvent 1 5 True
     (snd (EventQueueService_Create ''q'' \<lparr>es_kernel = empty_kernel, es_queues = [], es_waiters = []\<rparr>)))"


text \<open>
  C19: The deadline of a timed wait is the exact sum of the clock reading and the timeout in
  nanoseconds, cut off at the largest 64-bit value: neither the conversion nor the addition wraps.
\<close>

theorem wait_deadline_saturates:
  "unat (wait_deadline now timeout) = min (unat u64_max) (unat now + 1000 * unat timeout)"
proof -
  have d: "unat (u64_max div 1000 :: u64) = 18446744073709551615 div 1000"
    by (simp add: unat_div)
  have c: "timeout > u64_max div 1000 \<longleftrightarrow> 18446744073709551615 < 1000 * unat timeout"
    unfolding word_less_nat_alt d by linarith
  have m: "unat (timeout * 1000) = 1000 * unat timeout" if "\<not> timeout > u64_max div 1000"
    using that c by (subst unat_mult_lem [THEN iffD1]) (simp_all add: mult.commute)
  show ?thesis
    using m c unat_u64_less [of now] unat_add_exact [of now "timeout * 1000"]
    by (cases "now = 0") (auto simp: wait_deadline_def Let_def u64_overflow_test min_def Suc_le_eq unat_gt_0)
qed

end
