(* ===== verification/Kernel_System.thy ===== *)
theory Kernel_System
  imports Event_Flag Semaphore Cxa_Guard Event_Queue
begin

text \<open>
  The services of \<open>kernel/runtime.h\<close> that share the handle table and the scheduler, as one state
  machine: a step is one call of a service or of the scheduler, in any order. The services meet
  in the scheduler's wait keys and in the table's handles; \<open>frame\<close> states what a call of one
  service leaves to the others, and the invariant of the whole system follows from the invariants
  of the services.
\<close>

section \<open>Wait keys of the services\<close>

definition flag_keys :: "string set" where "flag_keys = range EventFlag_MakeWaitKey"
definition semaphore_keys :: "string set" where "semaphore_keys = range Semaphore_MakeWaitKey"
definition queue_keys :: "string set" where "queue_keys = range EventQueue_MakeWaitKey"
definition guard_keys :: "string set" where "guard_keys = range CxaGuard_WaitKey"
definition exit_keys :: "string set" where "exit_keys = range ThreadExitWaitKey"

lemmas wait_key_defs = flag_keys_def semaphore_keys_def queue_keys_def guard_keys_def exit_keys_def
  EventFlag_MakeWaitKey_def Semaphore_MakeWaitKey_def EventQueue_MakeWaitKey_def CxaGuard_WaitKey_def
  ThreadExitWaitKey_def

lemma keys_disjoint:
  "flag_keys \<inter> semaphore_keys = {}" "flag_keys \<inter> queue_keys = {}" "flag_keys \<inter> guard_keys = {}"
  "flag_keys \<inter> exit_keys = {}" "semaphore_keys \<inter> queue_keys = {}" "semaphore_keys \<inter> guard_keys = {}"
  "semaphore_keys \<inter> exit_keys = {}" "queue_keys \<inter> guard_keys = {}" "queue_keys \<inter> exit_keys = {}"
  "guard_keys \<inter> exit_keys = {}"
  by (auto simp: wait_key_defs)

lemma in_keys [simp]:
  "EventFlag_MakeWaitKey h \<in> flag_keys" "Semaphore_MakeWaitKey h \<in> semaphore_keys"
  "EventQueue_MakeWaitKey h \<in> queue_keys" "CxaGuard_WaitKey h \<in> guard_keys"
  "ThreadExitWaitKey h \<in> exit_keys"
  by (simp_all add: flag_keys_def semaphore_keys_def queue_keys_def guard_keys_def exit_keys_def)

section \<open>Frames\<close>

definition frame :: "kernel_object_type set \<Rightarrow> string set \<Rightarrow> kernel \<Rightarrow> kernel \<Rightarrow> bool" where
  "frame tys keys k k' \<longleftrightarrow>
     kernel_ok k' \<and> keeps_threads (sched k) (sched k') \<and>
     (\<forall>h ty. ty \<notin> tys \<longrightarrow> HandleTable_Find h ty (handles k') = HandleTable_Find h ty (handles k)) \<and>
     (\<forall>key. key \<notin> keys \<longrightarrow> waiters (sched k') key \<subseteq> waiters (sched k) key)"

lemma frameD:
  assumes "frame tys keys k k'"
  shows "kernel_ok k'" "keeps_threads (sched k) (sched k')"
    "ty \<notin> tys \<Longrightarrow> HandleTable_Find h ty (handles k') = HandleTable_Find h ty (handles k)"
    "key \<notin> keys \<Longrightarrow> waiters (sched k') key \<subseteq> waiters (sched k) key"
  using assms unfolding frame_def by blast+

lemma frame_refl: "kernel_ok k \<Longrightarrow> frame tys keys k k"
  by (simp add: frame_def)

lemma frame_trans: "frame tys keys k k1 \<Longrightarrow> frame tys keys k1 k2 \<Longrightarrow> frame tys keys k k2"
  unfolding frame_def by (metis keeps_threads_trans subset_trans)

lemma find_insert_other:
  assumes "handle_table_ok t" "HandleTable_Insert (Some ob) t = (r, t')" "ty \<noteq> object_type ob"
  shows "HandleTable_Find h ty t' = HandleTable_Find h ty t"
proof (cases r)
  case None
  then show ?thesis using assms ht.insert_fails by metis
next
  case (Some h')
  then show ?thesis
    using ht.insert_find [OF assms(1), of ob h' t' h ty] ht.insert_fresh [OF assms(1), of ob h' t' ty]
      assms(2,3) by auto
qed

lemma find_remove_other:
  "HandleTable_Remove h ty1 t = (r, t') \<Longrightarrow> ty \<noteq> ty1 \<Longrightarrow> HandleTable_Find x ty t' = HandleTable_Find x ty t"
  by (cases r) (auto simp: HandleTable_Remove_Some HandleTable_Find_def om_find_erase
      split: option.splits if_splits dest!: HandleTable_Remove_NoneD)

lemma frame_insert:
  assumes "HandleTable_Insert (Some ob) (handles k) = (r, t)" "kernel_ok k" "object_type ob = ty"
    "ty \<noteq> kThread"
  shows "frame {ty} keys k (k\<lparr>handles := t\<rparr>)"
proof -
  have "ob \<noteq> ThreadObject" using assms(3,4) by auto
  then show ?thesis
    using assms kernel_ok_insert [OF assms(2)] find_insert_other [OF kernel_okD(1) [OF assms(2)] assms(1)]
    by (auto simp: frame_def)
qed

lemma frame_store:
  assumes "kernel_ok k" "HandleTable_Find h ty (handles k) = Some ob" "ty \<noteq> kThread" "object_type ob' = ty"
  shows "frame {ty} keys k (k\<lparr>handles := store_object h ob' (handles k)\<rparr>)"
proof -
  have "HandleTable_Find h ty1 (handles k) = None" if "ty1 \<noteq> ty" for ty1
    using assms(2) that by (auto simp: HandleTable_Find_def split: option.splits if_splits)
  with kernel_ok_store [OF assms] find_after_store [OF assms(2,4)] show ?thesis
    by (auto simp: frame_def)
qed

lemma frame_remove:
  assumes "kernel_ok k" "HandleTable_Remove h ty (handles k) = (r, t)" "ty \<noteq> kThread"
  shows "frame {ty} keys k (k\<lparr>handles := t\<rparr>)"
  using kernel_ok_remove [OF assms(1,3,2)] find_remove_other [OF assms(2)] by (auto simp: frame_def)

lemma frame_wake_all:
  assumes "kernel_ok k"
  shows "frame tys keys k (k\<lparr>sched := WakeAllBlocked now key (sched k)\<rparr>)"
  using assms kernel_ok_wake_all [OF assms] waiters_WakeAllBlocked_subset [OF kernel_okD(2) [OF assms]]
  by (auto simp: frame_def keeps_threads_WakeAllBlocked kernel_okD(2))

lemma frame_block:
  assumes "kernel_ok k" "BlockCurrentLocked key d (sched k) = (b, s')" "key \<in> keys"
  shows "frame tys keys k (k\<lparr>sched := s'\<rparr>)"
  unfolding frame_def
proof (intro conjI allI impI subsetI)
  show "kernel_ok (k\<lparr>sched := s'\<rparr>)" using kernel_ok_block assms by blast
  show "keeps_threads (sched k) (sched (k\<lparr>sched := s'\<rparr>))"
    using keeps_threads_BlockCurrentLocked [of "sched k" key d] assms(2) by simp
  fix x j
  assume "x \<notin> keys" "j \<in> waiters (sched (k\<lparr>sched := s'\<rparr>)) x"
  then show "j \<in> waiters (sched k) x"
    using wq.block_new_waiter [OF kernel_okD(2) [OF assms(1)] assms(2)] assms(3) by auto
qed simp

lemma frame_store_wake:
  assumes "kernel_ok k" "HandleTable_Find h ty (handles k) = Some ob" "ty \<noteq> kThread" "object_type ob' = ty"
  shows "frame {ty} keys k (k\<lparr>handles := store_object h ob' (handles k),
    sched := WakeAllBlocked now key (sched k)\<rparr>)"
  using frame_trans [OF frame_store [OF assms] frame_wake_all] kernel_ok_store [OF assms] by simp

lemma frame_remove_wake:
  assumes "kernel_ok k" "HandleTable_Remove h ty (handles k) = (r, t)" "ty \<noteq> kThread"
  shows "frame {ty} keys k (k\<lparr>handles := t, sched := WakeAllBlocked now key (sched k)\<rparr>)"
  using frame_trans [OF frame_remove [OF assms] frame_wake_all] kernel_ok_remove [OF assms(1,3,2)] by simp

section \<open>Frames of the service calls\<close>

lemma frame_flag_Create:
  "kernel_ok k \<Longrightarrow> frame {kEventFlag} flag_keys k (snd (EventFlagService_Create name attributes bits k))"
  by (auto simp: EventFlagService_Create_def Let_def intro: frame_refl elim!: frame_insert
      split: prod.splits option.splits)

lemma frame_flag_Delete:
  "kernel_ok k \<Longrightarrow> frame {kEventFlag} flag_keys k (snd (EventFlagService_Delete now h k))"
  by (auto simp: EventFlagService_Delete_def intro: frame_refl frame_remove_wake
      split: prod.splits option.splits)

lemma frame_flag_Set:
  "kernel_ok k \<Longrightarrow> frame {kEventFlag} flag_keys k (snd (EventFlagService_Set now h pattern k))"
  by (auto simp: EventFlagService_Set_def EventFlagService_Find_Some
      intro: frame_refl frame_store_wake split: option.splits)

lemma frame_flag_Clear:
  "kernel_ok k \<Longrightarrow> frame {kEventFlag} flag_keys k (snd (EventFlagService_Clear h mask_bits k))"
  by (auto simp: EventFlagService_Clear_def EventFlagService_Find_Some
      intro: frame_refl frame_store split: option.splits)

lemma frame_flag_Poll:
  "kernel_ok k \<Longrightarrow> frame {kEventFlag} flag_keys k (snd (EventFlagService_Poll h pattern mode k))"
  by (cases rule: EventFlagService_Poll_cases [of h k pattern mode])
    (auto intro: frame_refl frame_store)

lemma frame_flag_Wait:
  assumes ok: "kernel_ok k"
  shows "frame {kEventFlag} flag_keys k (snd (EventFlagService_Wait h pattern mode k))"
proof -
  obtain r k1 where p: "EventFlagService_Poll h pattern mode k = (r, k1)" by fastforce
  have f1: "frame {kEventFlag} flag_keys k k1"
    using frame_flag_Poll [OF ok, of h pattern mode] p by simp
  obtain b s where bl: "BlockCurrent (EventFlag_MakeWaitKey h) (sched k1) = (b, s)" by fastforce
  have "frame {kEventFlag} flag_keys k1 (k1\<lparr>sched := s\<rparr>)"
    by (rule frame_block [OF frameD(1) [OF f1] bl [unfolded BlockCurrent_def]]) simp
  with f1 p bl show ?thesis
    by (cases b) (simp_all add: EventFlagService_Wait_def frame_trans [OF f1])
qed

lemma frame_semaphore_Create:
  "kernel_ok k \<Longrightarrow>
   frame {kSemaphore} semaphore_keys k (snd (SemaphoreService_Create name attributes n mx k))"
  by (auto simp: SemaphoreService_Create_def Let_def intro: frame_refl elim!: frame_insert
      split: prod.splits option.splits)

lemma frame_semaphore_Delete:
  "kernel_ok k \<Longrightarrow> frame {kSemaphore} semaphore_keys k (snd (SemaphoreService_Delete now h k))"
  by (auto simp: SemaphoreService_Delete_def intro: frame_refl frame_remove_wake
      split: prod.splits option.splits)

lemma frame_semaphore_Signal:
  "kernel_ok k \<Longrightarrow> frame {kSemaphore} semaphore_keys k (snd (SemaphoreService_Signal now h n k))"
  by (cases rule: SemaphoreService_Signal_cases [of h k now n])
    (auto intro: frame_refl frame_store frame_store_wake)

lemma frame_semaphore_Poll:
  "kernel_ok k \<Longrightarrow> frame {kSemaphore} semaphore_keys k (snd (SemaphoreService_Poll h n k))"
  by (cases rule: SemaphoreService_Poll_cases [of h k n]) (auto intro: frame_refl frame_store)

lemma frame_semaphore_Wait:
  assumes ok: "kernel_ok k"
  shows "frame {kSemaphore} semaphore_keys k (snd (SemaphoreService_Wait h n k))"
proof -
  obtain r k1 where p: "SemaphoreService_Poll h n k = (r, k1)" by fastforce
  have f1: "frame {kSemaphore} semaphore_keys k k1" using frame_semaphore_Poll [OF ok, of h n] p by simp
  obtain b s where bl: "BlockCurrent (Semaphore_MakeWaitKey h) (sched k1) = (b, s)" by fastforce
  have "frame {kSemaphore} semaphore_keys k1 (k1\<lparr>sched := s\<rparr>)"
    by (rule frame_block [OF frameD(1) [OF f1] bl [unfolded BlockCurrent_def]]) simp
  with f1 p bl show ?thesis
    by (cases b) (simp_all add: SemaphoreService_Wait_def frame_trans [OF f1])
qed

text \<open>The event queues: each call is composed of stores, wakes and blocks.\<close>

definition es_frame :: "event_queue_service \<Rightarrow> event_queue_service \<Rightarrow> bool" where
  "es_frame es es' \<longleftrightarrow> frame {kEventQueue} queue_keys (es_kernel es) (es_kernel es')"

lemma es_frame_trans: "es_frame es es1 \<Longrightarrow> es_frame es1 es2 \<Longrightarrow> es_frame es es2"
  unfolding es_frame_def by (rule frame_trans)

lemma es_frame_kernel: "es_frame es es' \<Longrightarrow> kernel_ok (es_kernel es')"
  unfolding es_frame_def by (rule frameD(1))

lemma es_frame_same: "kernel_ok (es_kernel es) \<Longrightarrow> es_kernel es' = es_kernel es \<Longrightarrow> es_frame es es'"
  by (simp add: es_frame_def frame_refl)

lemma es_kernel_simps [simp]:
  "es_kernel (es_set_sched s es) = (es_kernel es)\<lparr>sched := s\<rparr>"
  "es_kernel (es_store_queue h q es) =
     (es_kernel es)\<lparr>handles := store_object h (EventQueueObject q) (handles (es_kernel es))\<rparr>"
  by (simp_all add: es_set_sched_def es_store_queue_def)

lemma es_frame_store:
  "kernel_ok (es_kernel es) \<Longrightarrow> EventQueueService_Find h es = Some q0 \<Longrightarrow> es_frame es (es_store_queue h q es)"
  by (auto simp: es_frame_def EventQueueService_Find_Some intro: frame_store)

lemma frame_wakes_only:
  assumes "kernel_ok k" "wakes_only (sched k) s"
  shows "frame tys keys k (k\<lparr>sched := s\<rparr>)"
  using assms by (auto simp: frame_def wakes_only_def intro: kernel_ok_sched)

lemma es_frame_wakes_only:
  "kernel_ok (es_kernel es) \<Longrightarrow> wakes_only (es_sched es) s \<Longrightarrow> es_frame es (es_set_sched s es)"
  by (simp add: es_frame_def es_sched_def frame_wakes_only)

lemma es_frame_block:
  assumes "kernel_ok (es_kernel es)" "BlockCurrentLocked (EventQueue_MakeWaitKey h) d (es_sched es) = (b, s)"
  shows "es_frame es (es_set_sched s es)"
  using frame_block [OF assms(1), of "EventQueue_MakeWaitKey h" d b s queue_keys] assms(2)
  by (simp add: es_frame_def es_sched_def)

lemma es_frame_consume:
  assumes "kernel_ok (es_kernel es)" "ConsumeCurrentThreadTimeout key (es_sched es) = (b, s)"
  shows "es_frame es (es_set_sched s es)"
proof -
  have "om_keys (threads s) = om_keys (threads (es_sched es))"
    using assms(2) thread_keys_consume by (metis snd_conv)
  then have "kernel_ok ((es_kernel es)\<lparr>sched := s\<rparr>)"
    using kernel_ok_sched [OF assms(1)] ConsumeCurrentThreadTimeout_ok [OF kernel_okD(2) [OF assms(1)], of key]
      assms(2) by (simp add: es_sched_def)
  then show ?thesis
    using waiters_consume [of key "es_sched es"] keeps_threads_ConsumeCurrentThreadTimeout [of "es_sched es" key]
      assms(2) by (simp add: es_frame_def frame_def es_sched_def)
qed

lemma es_frame_Create:
  "kernel_ok (es_kernel es) \<Longrightarrow> es_frame es (snd (EventQueueService_Create name es))"
  by (auto simp: EventQueueService_Create_def es_frame_def intro: frame_refl elim!: frame_insert
      split: prod.splits option.splits)

lemma es_frame_Delete:
  assumes ok: "kernel_ok (es_kernel es)" "om_ok (es_waiters es)"
  shows "es_frame es (snd (EventQueueService_Delete clock h es))"
proof (cases "HandleTable_Remove h kEventQueue (handles (es_kernel es))")
  case (Pair r t)
  obtain ws s where l: "DeleteWaiters_loop clock h (es_waiters es) (es_sched es) = (ws, s)" by fastforce
  have "sched_ok (es_sched es)" using kernel_okD(2) [OF ok(1)] by (simp add: es_sched_def)
  from DeleteWaiters_loop_spec [OF this ok(2) l] have w: "wakes_only (es_sched es) s" by blast
  have f: "frame {kEventQueue} queue_keys (es_kernel es) ((es_kernel es)\<lparr>handles := t\<rparr>)"
    by (rule frame_remove [OF ok(1) Pair]) simp
  have "frame {kEventQueue} queue_keys (es_kernel es) ((es_kernel es)\<lparr>handles := t, sched := s\<rparr>)"
    using frame_trans [OF f frame_wakes_only [OF frameD(1) [OF f]]] w by (simp add: es_sched_def)
  with Pair l ok show ?thesis
    by (auto simp: EventQueueService_Delete_def es_frame_def frame_refl split: option.splits)
qed

lemma es_frame_on_queue:
  "kernel_ok (es_kernel es) \<Longrightarrow> es_frame es (snd (on_queue h f es))"
  by (auto simp: on_queue_def case_prod_beta intro: es_frame_same es_frame_store split: option.splits)

lemma es_frame_Reserve:
  assumes ok: "event_service_ok es" and q: "event_queue_ok q" and f: "EventQueueService_Find h es = Some q0"
  shows "es_frame es (ReserveWaitingThreadsLocked clock h q es)"
proof -
  obtain ws q' s where l: "ReserveWaiting_loop clock h (es_waiters es) q (es_sched es) = (ws, q', s)"
    by (metis surj_pair)
  have w: "wakes_only (es_sched es) s"
    using ReserveWaiting_loop_spec [OF event_service_okD(2) [OF ok] q event_service_okD(4) [OF ok] _ l]
      event_service_okD(9) [OF ok] by (auto simp: reserve_spec_def)
  have fr: "es_frame es (es_store_queue h q' es)"
    by (rule es_frame_store [OF event_service_okD(1) [OF ok] f])
  from es_frame_trans [OF fr es_frame_wakes_only [OF es_frame_kernel [OF fr]], of s] w
  show ?thesis by (simp add: ReserveWaitingThreadsLocked_def l es_frame_def)
qed

lemma es_frame_TriggerUserEvent:
  assumes ok: "event_service_ok es"
  shows "es_frame es (snd (EventQueueService_TriggerUserEvent clock h i u es))"
proof (cases "EventQueueService_Find h es")
  case None
  then show ?thesis
    by (simp add: EventQueueService_TriggerUserEvent_def es_frame_same event_service_okD(1) [OF ok])
next
  case (Some q)
  obtain st q' where t: "EventQueue_TriggerUserEvent i u q = (st, q')" by fastforce
  have "event_queue_ok q"
    using event_service_okD(6) [OF ok, of h q] Some by (simp add: EventQueueService_Find_Some)
  from TriggerUserEvent_ok [OF this t] Some t es_frame_store [OF event_service_okD(1) [OF ok] Some]
  show ?thesis by (simp add: EventQueueService_TriggerUserEvent_def es_frame_Reserve [OF ok])
qed

lemma es_frame_TriggerEvents:
  "event_service_ok es \<Longrightarrow> es_frame es (snd (TriggerEvents_loop clock filt d hs n es))"
proof (induction hs arbitrary: n es)
  case Nil
  then show ?case by (simp add: es_frame_same event_service_okD(1))
next
  case (Cons h hs)
  show ?case
  proof (cases "EventQueueService_Find h es")
    case None
    with Cons show ?thesis by simp
  next
    case (Some q)
    obtain b q' where t: "EventQueue_TriggerFirstByFilter filt d q = (b, q')" by fastforce
    have f: "HandleTable_Find h kEventQueue (handles (es_kernel es)) = Some (EventQueueObject q)"
      using Some by (simp add: EventQueueService_Find_Some)
    have q': "event_queue_ok q'"
      using TriggerFirstByFilter_ok [OF event_service_okD(6) [OF Cons.prems f] t] .
    let ?es1 = "ReserveWaitingThreadsLocked clock h q' es"
    have "es_frame es ?es1" using es_frame_Reserve [OF Cons.prems q' Some] .
    moreover have "event_service_ok ?es1" using ReserveWaitingThreadsLocked_ok [OF Cons.prems q' f] .
    ultimately show ?thesis
      using Cons.IH Some t Cons.prems by (cases b) (auto intro: es_frame_trans)
  qed
qed

lemma es_frame_PollLocked:
  "kernel_ok (es_kernel es) \<Longrightarrow> es_frame es (snd (EventQueueService_PollLocked h n es))"
  by (auto simp: EventQueueService_PollLocked_def Let_def case_prod_beta
      intro: es_frame_same es_frame_store split: option.splits)

lemma es_frame_WaitAgain_poll:
  assumes ok: "kernel_ok (es_kernel es)"
  shows "es_frame es (snd (WaitAgain_poll h j w es))"
proof -
  obtain b s where c: "ConsumeCurrentThreadTimeout (EventQueue_MakeWaitKey h) (es_sched es) = (b, s)"
    by fastforce
  let ?es1 = "es_set_sched s es"
  have f1: "es_frame es ?es1" using es_frame_consume [OF ok c] .
  obtain r es2 where p: "EventQueueService_PollLocked h (wt_maximum_count w) ?es1 = (r, es2)" by fastforce
  have f2: "es_frame es es2"
    using es_frame_trans [OF f1] es_frame_PollLocked [OF es_frame_kernel [OF f1], of h "wt_maximum_count w"] p
    by simp
  obtain bl s2 where bk: "BlockCurrentLocked (EventQueue_MakeWaitKey h) (wt_deadline_nanoseconds w)
      (es_sched es2) = (bl, s2)" by fastforce
  have f3: "es_frame es (es_set_sched s2 es2)"
    using es_frame_trans [OF f2 es_frame_block [OF es_frame_kernel [OF f2] bk]] .
  have "es_frame es (erase_waiter j es2)" "es_frame es (erase_waiter j ?es1)"
    using f1 f2 by (simp_all add: es_frame_def)
  with f3 c p bk show ?thesis by (simp add: WaitAgain_poll_def Let_def)
qed

lemma es_frame_WaitAgain:
  assumes ok: "kernel_ok (es_kernel es)"
  shows "es_frame es (snd (WaitAgain h j w es))"
proof -
  have "es_frame es (snd (WaitAgain_poll h j w' (es\<lparr>es_waiters := ws\<rparr>)))" for w' ws
    using es_frame_WaitAgain_poll [of "es\<lparr>es_waiters := ws\<rparr>" h j w'] ok by (simp add: es_frame_def)
  then show ?thesis
    using ok es_frame_WaitAgain_poll [OF ok]
    by (auto simp: WaitAgain_def Let_def es_frame_same split: option.splits)
qed

lemma es_frame_WaitFirst:
  assumes ok: "kernel_ok (es_kernel es)"
  shows "es_frame es (snd (WaitFirst clock h n timeout es))"
proof -
  obtain r es1 where p: "EventQueueService_PollLocked h n es = (r, es1)" by fastforce
  have f1: "es_frame es es1" using es_frame_PollLocked [OF ok, of h n] p by simp
  have blk: "es_frame es (es_set_sched s (es1\<lparr>es_waiters := ws\<rparr>))"
    if "BlockCurrentLocked (EventQueue_MakeWaitKey h) d (es_sched es1) = (b, s)" for d b s ws
    using es_frame_trans [OF f1 es_frame_block [OF es_frame_kernel [OF f1] that]] by (simp add: es_frame_def)
  have "es_frame es (erase_waiter j es')" if "es_frame es es'" for j es'
    using that by (simp add: es_frame_def)
  with p f1 show ?thesis
    by (auto simp: WaitFirst_def Let_def split: option.splits prod.splits intro: blk)
qed

lemma es_frame_Wait:
  "kernel_ok (es_kernel es) \<Longrightarrow> es_frame es (snd (EventQueueService_Wait clock h n timeout es))"
  by (auto simp: EventQueueService_Wait_def es_frame_same es_frame_WaitFirst es_frame_WaitAgain
      split: option.splits)

section \<open>The shared state and its invariant\<close>

record kernel_system =
  ks_kernel :: kernel
  ks_queues :: "(u64, unit) omap"
  ks_waiters :: "(u64, waiter) omap"
  ks_owners :: "(u64, u64) omap"

definition empty_system :: kernel_system where
  "empty_system = \<lparr>ks_kernel = empty_kernel, ks_queues = [], ks_waiters = [], ks_owners = []\<rparr>"

text \<open>The state as the event queue service and as the guard service see it.\<close>

definition ks_events :: "kernel_system \<Rightarrow> event_queue_service" where
  "ks_events ks = \<lparr>es_kernel = ks_kernel ks, es_queues = ks_queues ks, es_waiters = ks_waiters ks\<rparr>"

definition ks_put_events :: "event_queue_service \<Rightarrow> kernel_system \<Rightarrow> kernel_system" where
  "ks_put_events es ks =
     ks\<lparr>ks_kernel := es_kernel es, ks_queues := es_queues es, ks_waiters := es_waiters es\<rparr>"

definition ks_guards :: "kernel_system \<Rightarrow> cxa_guard_state" where
  "ks_guards ks = \<lparr>cg_owners = ks_owners ks, cg_sched = sched (ks_kernel ks)\<rparr>"

definition ks_put_guards :: "cxa_guard_state \<Rightarrow> kernel_system \<Rightarrow> kernel_system" where
  "ks_put_guards g ks =
     ks\<lparr>ks_kernel := (ks_kernel ks)\<lparr>sched := cg_sched g\<rparr>, ks_owners := cg_owners g\<rparr>"

text \<open>A thread joins only threads that exist and have not exited.\<close>

definition joins_ok :: "guest_scheduler \<Rightarrow> bool" where
  "joins_ok s \<longleftrightarrow>
     (\<forall>h. waiters s (ThreadExitWaitKey h) \<noteq> {} \<longrightarrow>
        (\<exists>t. om_find (threads s) h = Some t \<and> th_state t \<noteq> kExited))"

definition system_ok :: "kernel_system \<Rightarrow> bool" where
  "system_ok ks \<longleftrightarrow>
     event_service_ok (ks_events ks) \<and> cxa_guard_ok (ks_guards ks) \<and>
     semaphores_ok (ks_kernel ks) \<and> joins_ok (sched (ks_kernel ks)) \<and>
     no_orphans kEventFlag EventFlag_MakeWaitKey (ks_kernel ks) \<and>
     no_orphans kSemaphore Semaphore_MakeWaitKey (ks_kernel ks)"

lemma system_okD:
  assumes "system_ok ks"
  shows "event_service_ok (ks_events ks)" "cxa_guard_ok (ks_guards ks)" "semaphores_ok (ks_kernel ks)"
    "joins_ok (sched (ks_kernel ks))" "no_orphans kEventFlag EventFlag_MakeWaitKey (ks_kernel ks)"
    "no_orphans kSemaphore Semaphore_MakeWaitKey (ks_kernel ks)" "kernel_ok (ks_kernel ks)"
    "sched_ok (sched (ks_kernel ks))"
  using assms event_service_okD(1) [of "ks_events ks"]
  by (auto simp: system_ok_def ks_events_def kernel_okD(2))

lemma no_waiters_empty [simp]: "waiters (sched empty_kernel) key = {}"
  by (simp add: waiters_def empty_kernel_def)

lemma empty_system_ok: "system_ok empty_system"
  using empty_kernel_ok kernel_okD(2) [OF empty_kernel_ok]
  by (auto simp: system_ok_def empty_system_def ks_events_def ks_guards_def event_service_ok_def
      cxa_guard_ok_def semaphores_ok_def joins_ok_def no_orphans_def es_sched_def HandleTable_Find_def)
    (simp_all add: empty_kernel_def empty_handle_table_def om_keys_def)

section \<open>What a frame keeps\<close>

lemma event_service_ok_kernel:
  assumes ok: "event_service_ok es" and k: "kernel_ok k'"
    and f: "\<And>h. HandleTable_Find h kEventQueue (handles k') = HandleTable_Find h kEventQueue (handles (es_kernel es))"
    and w: "\<And>key. key \<in> queue_keys \<Longrightarrow> waiters (sched k') key \<subseteq> waiters (es_sched es) key"
  shows "event_service_ok (es\<lparr>es_kernel := k'\<rparr>)"
proof -
  have w': "j \<in> waiters (es_sched es) (EventQueue_MakeWaitKey h)"
    if "j \<in> waiters (sched k') (EventQueue_MakeWaitKey h)" for j h
    using w [of "EventQueue_MakeWaitKey h"] that by auto
  show ?thesis
    unfolding event_service_ok_def
    using event_service_okD(3-6,9) [OF ok] event_service_okD(7,8) [OF ok w'] k f
    by (simp add: es_sched_def)
qed

lemma cxa_guard_ok_sched:
  assumes ok: "cxa_guard_ok g" and s: "sched_ok s"
    and w: "\<And>key. key \<in> guard_keys \<Longrightarrow> waiters s key \<subseteq> waiters (cg_sched g) key"
  shows "cxa_guard_ok (g\<lparr>cg_sched := s\<rparr>)"
proof -
  have "waiters (cg_sched g) (CxaGuard_WaitKey a) \<noteq> {}" if "waiters s (CxaGuard_WaitKey a) \<noteq> {}" for a
    using w [of "CxaGuard_WaitKey a"] that by auto
  then show ?thesis using ok s unfolding cxa_guard_ok_def by simp
qed

lemma joins_ok_keeps:
  assumes ok: "joins_ok s" and t: "keeps_threads s s'"
    and w: "\<And>key. key \<in> exit_keys \<Longrightarrow> waiters s' key \<subseteq> waiters s key"
  shows "joins_ok s'"
  unfolding joins_ok_def
proof (intro allI impI)
  fix h
  assume "waiters s' (ThreadExitWaitKey h) \<noteq> {}"
  then have "waiters s (ThreadExitWaitKey h) \<noteq> {}" using w [of "ThreadExitWaitKey h"] by auto
  then obtain u where "om_find (threads s) h = Some u" "th_state u \<noteq> kExited"
    using ok by (auto simp: joins_ok_def)
  then show "\<exists>u. om_find (threads s') h = Some u \<and> th_state u \<noteq> kExited"
    using t unfolding keeps_threads_def by metis
qed

lemma semaphores_ok_finds:
  "semaphores_ok k \<Longrightarrow>
   (\<And>h. HandleTable_Find h kSemaphore (handles k') = HandleTable_Find h kSemaphore (handles k)) \<Longrightarrow>
   semaphores_ok k'"
  by (simp add: semaphores_ok_def)

lemma no_orphans_frame:
  assumes "no_orphans ty key k" "\<And>h. HandleTable_Find h ty (handles k') = HandleTable_Find h ty (handles k)"
    "\<And>h. waiters (sched k') (key h) \<subseteq> waiters (sched k) (key h)"
  shows "no_orphans ty key k'"
  using no_orphans_weaken [OF assms(1,3)] assms(2) by simp

text \<open>The invariants of the services a call does not belong to.\<close>

lemma events_frame:
  assumes "system_ok ks" "frame tys keys (ks_kernel ks) k'" "kEventQueue \<notin> tys" "queue_keys \<inter> keys = {}"
  shows "event_service_ok (ks_events (ks\<lparr>ks_kernel := k'\<rparr>))"
  using event_service_ok_kernel [OF system_okD(1) [OF assms(1)] frameD(1) [OF assms(2)]]
    frameD(3,4) [OF assms(2)] assms(3,4)
  by (simp add: ks_events_def es_sched_def disjoint_iff)

lemma guards_frame:
  assumes "system_ok ks" "frame tys keys (ks_kernel ks) k'" "guard_keys \<inter> keys = {}"
  shows "cxa_guard_ok (ks_guards (ks\<lparr>ks_kernel := k'\<rparr>))"
  using cxa_guard_ok_sched [OF system_okD(2) [OF assms(1)] kernel_okD(2) [OF frameD(1) [OF assms(2)]]]
    frameD(4) [OF assms(2)] assms(3)
  by (simp add: ks_guards_def disjoint_iff)

lemma joins_frame:
  assumes "system_ok ks" "frame tys keys (ks_kernel ks) k'" "exit_keys \<inter> keys = {}"
  shows "joins_ok (sched k')"
  using joins_ok_keeps [OF system_okD(4) [OF assms(1)] frameD(2) [OF assms(2)]] frameD(4) [OF assms(2)] assms(3)
  by (simp add: disjoint_iff)

lemma semaphores_frame:
  assumes "system_ok ks" "frame tys keys (ks_kernel ks) k'" "kSemaphore \<notin> tys"
  shows "semaphores_ok k'"
  using semaphores_ok_finds [OF system_okD(3) [OF assms(1)]] frameD(3) [OF assms(2,3)] by simp

lemma flag_orphans_frame:
  assumes "system_ok ks" "frame tys keys (ks_kernel ks) k'" "kEventFlag \<notin> tys" "flag_keys \<inter> keys = {}"
  shows "no_orphans kEventFlag EventFlag_MakeWaitKey k'"
  by (rule no_orphans_frame [OF system_okD(5) [OF assms(1)] frameD(3) [OF assms(2,3)] frameD(4) [OF assms(2)]])
    (use assms(4) in_keys(1) in blast)

lemma semaphore_orphans_frame:
  assumes "system_ok ks" "frame tys keys (ks_kernel ks) k'" "kSemaphore \<notin> tys" "semaphore_keys \<inter> keys = {}"
  shows "no_orphans kSemaphore Semaphore_MakeWaitKey k'"
  by (rule no_orphans_frame [OF system_okD(6) [OF assms(1)] frameD(3) [OF assms(2,3)] frameD(4) [OF assms(2)]])
    (use assms(4) in_keys(2) in blast)

lemma keys_disjoint_sym:
  "semaphore_keys \<inter> flag_keys = {}" "queue_keys \<inter> flag_keys = {}" "guard_keys \<inter> flag_keys = {}"
  "exit_keys \<inter> flag_keys = {}" "queue_keys \<inter> semaphore_keys = {}" "guard_keys \<inter> semaphore_keys = {}"
  "exit_keys \<inter> semaphore_keys = {}" "guard_keys \<inter> queue_keys = {}" "exit_keys \<inter> queue_keys = {}"
  "exit_keys \<inter> guard_keys = {}"
  using keys_disjoint by blast+

section \<open>Steps\<close>

text \<open>Calls of the event flag and semaphore services; \<open>now\<close> is the reading of the clock.\<close>

inductive flag_call :: "kernel \<Rightarrow> kernel \<Rightarrow> bool" where
  flag_create: "flag_call k (snd (EventFlagService_Create name attributes bits k))"
| flag_delete: "flag_call k (snd (EventFlagService_Delete now h k))"
| flag_set: "flag_call k (snd (EventFlagService_Set now h pattern k))"
| flag_clear: "flag_call k (snd (EventFlagService_Clear h mask_bits k))"
| flag_poll: "flag_call k (snd (EventFlagService_Poll h pattern mode k))"
| flag_wait: "flag_call k (snd (EventFlagService_Wait h pattern mode k))"

text \<open>The counts are \<open>std::int32_t\<close>, so a maximum is below \<open>2 ^ 31\<close>.\<close>

inductive semaphore_call :: "kernel \<Rightarrow> kernel \<Rightarrow> bool" where
  semaphore_create: "maximum < 2 ^ 31 \<Longrightarrow>
     semaphore_call k (snd (SemaphoreService_Create name attributes initial maximum k))"
| semaphore_delete: "semaphore_call k (snd (SemaphoreService_Delete now h k))"
| semaphore_signal: "semaphore_call k (snd (SemaphoreService_Signal now h n k))"
| semaphore_poll: "semaphore_call k (snd (SemaphoreService_Poll h n k))"
| semaphore_wait: "semaphore_call k (snd (SemaphoreService_Wait h n k))"

inductive queue_call :: "event_queue_service \<Rightarrow> event_queue_service \<Rightarrow> bool" where
  queue_create: "queue_call es (snd (EventQueueService_Create name es))"
| queue_delete: "queue_call es (snd (EventQueueService_Delete clock h es))"
| queue_add_user: "queue_call es (snd (EventQueueService_AddUserEvent h i edge es))"
| queue_delete_user: "queue_call es (snd (EventQueueService_DeleteUserEvent h i es))"
| queue_add_graphics: "queue_call es (snd (EventQueueService_AddGraphicsEvent h i u es))"
| queue_delete_graphics: "queue_call es (snd (EventQueueService_DeleteGraphicsEvent h i es))"
| queue_add_video_out: "queue_call es (snd (EventQueueService_AddVideoOutEvent h i u es))"
| queue_delete_video_out: "queue_call es (snd (EventQueueService_DeleteVideoOutEvent h i es))"
| queue_trigger_user: "queue_call es (snd (EventQueueService_TriggerUserEvent clock h i u es))"
| queue_trigger_graphics: "queue_call es (snd (EventQueueService_TriggerGraphicsEvents clock data es))"
| queue_trigger_video_out: "queue_call es (snd (EventQueueService_TriggerVideoOutEvents clock data es))"
| queue_poll: "queue_call es (snd (EventQueueService_Poll h n es))"
| queue_wait: "queue_call es (snd (EventQueueService_Wait clock h n timeout es))"

inductive guard_call :: "cxa_guard_state \<Rightarrow> cxa_guard_state \<Rightarrow> bool" where
  guard_acquire: "guard_call g (snd (CxaGuard_Acquire address initialized g))"
| guard_release: "guard_call g (snd (CxaGuard_Release now address g))"
| guard_abort: "guard_call g (snd (CxaGuard_Abort now address g))"

text \<open>
  Calls of the scheduler. A thread is only discarded by the code that has just created it, so
  nobody joins it yet.
\<close>

inductive thread_call :: "kernel \<Rightarrow> kernel \<Rightarrow> bool" where
  thread_create: "thread_call k (snd (CreateThread name priority entry argument k))"
| thread_discard: "waiters (sched k) (ThreadExitWaitKey h) = {} \<Longrightarrow>
     thread_call k (snd (DiscardReadyThread h k))"
| thread_select: "thread_call k (k\<lparr>sched := snd (SelectNext now (sched k))\<rparr>)"
| thread_yield: "thread_call k (k\<lparr>sched := snd (YieldCurrent (sched k))\<rparr>)"
| thread_exit: "thread_call k (k\<lparr>sched := snd (ExitCurrent v (sched k))\<rparr>)"
| thread_join: "thread_call k (k\<lparr>sched := snd (JoinThread h (sched k))\<rparr>)"

inductive system_step :: "kernel_system \<Rightarrow> kernel_system \<Rightarrow> bool" where
  flags: "flag_call (ks_kernel ks) k' \<Longrightarrow> system_step ks (ks\<lparr>ks_kernel := k'\<rparr>)"
| semaphores: "semaphore_call (ks_kernel ks) k' \<Longrightarrow> system_step ks (ks\<lparr>ks_kernel := k'\<rparr>)"
| queues: "queue_call (ks_events ks) es' \<Longrightarrow> system_step ks (ks_put_events es' ks)"
| guards: "guard_call (ks_guards ks) g' \<Longrightarrow> system_step ks (ks_put_guards g' ks)"
| threads: "thread_call (ks_kernel ks) k' \<Longrightarrow> system_step ks (ks\<lparr>ks_kernel := k'\<rparr>)"

inductive system_steps :: "kernel_system \<Rightarrow> kernel_system \<Rightarrow> bool" where
  steps_refl: "system_steps ks ks"
| steps_step: "system_steps ks ks1 \<Longrightarrow> system_step ks1 ks2 \<Longrightarrow> system_steps ks ks2"

section \<open>Every step keeps the invariant\<close>

lemma flag_call_frame: "flag_call k k' \<Longrightarrow> kernel_ok k \<Longrightarrow> frame {kEventFlag} flag_keys k k'"
  by (induction rule: flag_call.induct)
    (simp_all add: frame_flag_Create frame_flag_Delete frame_flag_Set frame_flag_Clear
      frame_flag_Poll frame_flag_Wait)

lemma flag_call_orphans:
  "flag_call k k' \<Longrightarrow> kernel_ok k \<Longrightarrow> no_orphans kEventFlag EventFlag_MakeWaitKey k \<Longrightarrow>
   no_orphans kEventFlag EventFlag_MakeWaitKey k'"
  by (induction rule: flag_call.induct)
    (auto intro: EventFlagService_Create_orphans EventFlagService_Delete_orphans
      EventFlagService_Set_orphans EventFlagService_Clear_orphans EventFlagService_Poll_orphans
      EventFlagService_Wait_orphans)

lemma flag_step_ok:
  assumes ok: "system_ok ks" and c: "flag_call (ks_kernel ks) k'"
  shows "system_ok (ks\<lparr>ks_kernel := k'\<rparr>)"
proof -
  have f: "frame {kEventFlag} flag_keys (ks_kernel ks) k'"
    by (rule flag_call_frame [OF c system_okD(7) [OF ok]])
  show ?thesis
    unfolding system_ok_def
    using events_frame [OF ok f] guards_frame [OF ok f] joins_frame [OF ok f] semaphores_frame [OF ok f]
      semaphore_orphans_frame [OF ok f] flag_call_orphans [OF c system_okD(7,5) [OF ok]]
    by (simp add: keys_disjoint_sym)
qed

lemma semaphore_call_frame:
  "semaphore_call k k' \<Longrightarrow> kernel_ok k \<Longrightarrow> frame {kSemaphore} semaphore_keys k k'"
  by (induction rule: semaphore_call.induct)
    (simp_all add: frame_semaphore_Create frame_semaphore_Delete frame_semaphore_Signal
      frame_semaphore_Poll frame_semaphore_Wait)

lemma semaphore_call_orphans:
  "semaphore_call k k' \<Longrightarrow> kernel_ok k \<Longrightarrow> no_orphans kSemaphore Semaphore_MakeWaitKey k \<Longrightarrow>
   no_orphans kSemaphore Semaphore_MakeWaitKey k'"
  by (induction rule: semaphore_call.induct)
    (auto intro: SemaphoreService_Create_orphans SemaphoreService_Delete_orphans
      SemaphoreService_Signal_orphans SemaphoreService_Poll_orphans SemaphoreService_Wait_orphans)

lemma SemaphoreService_Delete_semaphores:
  assumes "semaphores_ok k" "kernel_ok k"
  shows "semaphores_ok (snd (SemaphoreService_Delete now h k))"
  using assms ht.remove_find [OF kernel_okD(1) [OF assms(2)]]
  by (auto simp: SemaphoreService_Delete_def semaphores_ok_def split: prod.splits option.splits if_splits)

lemma SemaphoreService_Wait_semaphores:
  assumes "semaphores_ok k"
  shows "semaphores_ok (snd (SemaphoreService_Wait h n k))"
proof -
  have "handles (snd (SemaphoreService_Wait h n k)) = handles (snd (SemaphoreService_Poll h n k))"
    by (auto simp: SemaphoreService_Wait_def split: prod.splits bool.splits)
  then show ?thesis using SemaphoreService_Poll_semaphores [OF assms] semaphores_ok_cong by blast
qed

lemma semaphore_call_counts:
  "semaphore_call k k' \<Longrightarrow> kernel_ok k \<Longrightarrow> semaphores_ok k \<Longrightarrow> semaphores_ok k'"
  by (induction rule: semaphore_call.induct)
    (simp_all add: SemaphoreService_Create_semaphores SemaphoreService_Delete_semaphores
      SemaphoreService_Signal_semaphores SemaphoreService_Poll_semaphores SemaphoreService_Wait_semaphores)

lemma semaphore_step_ok:
  assumes ok: "system_ok ks" and c: "semaphore_call (ks_kernel ks) k'"
  shows "system_ok (ks\<lparr>ks_kernel := k'\<rparr>)"
proof -
  have f: "frame {kSemaphore} semaphore_keys (ks_kernel ks) k'"
    by (rule semaphore_call_frame [OF c system_okD(7) [OF ok]])
  show ?thesis
    unfolding system_ok_def
    using events_frame [OF ok f] guards_frame [OF ok f] joins_frame [OF ok f] flag_orphans_frame [OF ok f]
      semaphore_call_orphans [OF c system_okD(7,6) [OF ok]] semaphore_call_counts [OF c system_okD(7,3) [OF ok]]
    by (simp add: keys_disjoint_sym keys_disjoint)
qed

lemma DeleteUserEvent_ok:
  "event_queue_ok q \<Longrightarrow> EventQueue_DeleteUserEvent i q = (st, q') \<Longrightarrow> event_queue_ok q'"
  unfolding EventQueue_DeleteUserEvent_def by (rule DeleteEvent_ok)

lemma queue_call_ok: "queue_call es es' \<Longrightarrow> event_service_ok es \<Longrightarrow> event_service_ok es'"
  by (induction rule: queue_call.induct)
    (auto simp: EventQueueService_AddUserEvent_def EventQueueService_DeleteUserEvent_def
      EventQueueService_AddGraphicsEvent_def EventQueueService_DeleteGraphicsEvent_def
      EventQueueService_AddVideoOutEvent_def EventQueueService_DeleteVideoOutEvent_def
      EventQueueService_TriggerGraphicsEvents_def EventQueueService_TriggerVideoOutEvents_def
      EventQueueService_Poll_def
      intro: EventQueueService_Create_ok EventQueueService_Delete_ok on_queue_ok AddUserEvent_ok DeleteEvent_ok DeleteUserEvent_ok
      register_status_ok TriggerUserEvent_service_ok TriggerEvents_loop_ok EventQueueService_Wait_ok
      PollLocked_ok(1) [OF _ surjective_pairing])

lemma queue_call_frame: "queue_call es es' \<Longrightarrow> event_service_ok es \<Longrightarrow> es_frame es es'"
  by (induction rule: queue_call.induct)
    (auto simp: EventQueueService_AddUserEvent_def EventQueueService_DeleteUserEvent_def
      EventQueueService_AddGraphicsEvent_def EventQueueService_DeleteGraphicsEvent_def
      EventQueueService_AddVideoOutEvent_def EventQueueService_DeleteVideoOutEvent_def
      EventQueueService_TriggerGraphicsEvents_def EventQueueService_TriggerVideoOutEvents_def
      EventQueueService_Poll_def
      intro: es_frame_Create es_frame_Delete es_frame_on_queue es_frame_TriggerUserEvent
      es_frame_TriggerEvents es_frame_PollLocked es_frame_Wait event_service_okD(1,4))

lemma ks_put_simps [simp]:
  "ks_events (ks_put_events es ks) = es" "ks_kernel (ks_put_events es ks) = es_kernel es"
  "ks_guards (ks_put_guards g ks) = g" "ks_kernel (ks_put_guards g ks) = (ks_kernel ks)\<lparr>sched := cg_sched g\<rparr>"
  "ks_guards (ks_put_events es ks) = ks_guards (ks\<lparr>ks_kernel := es_kernel es\<rparr>)"
  "ks_events (ks_put_guards g ks) = ks_events (ks\<lparr>ks_kernel := (ks_kernel ks)\<lparr>sched := cg_sched g\<rparr>\<rparr>)"
  "es_kernel (ks_events ks) = ks_kernel ks" "cg_sched (ks_guards ks) = sched (ks_kernel ks)"
  by (simp_all add: ks_put_events_def ks_events_def ks_put_guards_def ks_guards_def)

lemma queue_step_system_ok:
  assumes ok: "system_ok ks" and c: "queue_call (ks_events ks) es'"
  shows "system_ok (ks_put_events es' ks)"
proof -
  have f: "frame {kEventQueue} queue_keys (ks_kernel ks) (es_kernel es')"
    using queue_call_frame [OF c system_okD(1) [OF ok]] by (simp add: es_frame_def)
  show ?thesis
    unfolding system_ok_def
    using queue_call_ok [OF c system_okD(1) [OF ok]] guards_frame [OF ok f] joins_frame [OF ok f]
      semaphores_frame [OF ok f] flag_orphans_frame [OF ok f] semaphore_orphans_frame [OF ok f]
    by (simp add: keys_disjoint_sym keys_disjoint)
qed

lemma guard_call_ok: "guard_call g g' \<Longrightarrow> cxa_guard_ok g \<Longrightarrow> cxa_guard_ok g'"
  by (induction rule: guard_call.induct)
    (simp_all add: CxaGuard_Acquire_ok CxaGuard_Complete_ok CxaGuard_Release_def CxaGuard_Abort_def)

lemma guard_call_frame:
  assumes "guard_call g g'" "kernel_ok k" "cg_sched g = sched k"
  shows "frame tys guard_keys k (k\<lparr>sched := cg_sched g'\<rparr>)"
proof -
  have blk: "frame tys guard_keys k (k\<lparr>sched := s\<rparr>)"
    if "BlockCurrent (CxaGuard_WaitKey a) (sched k) = (b, s)" for a b s
    using frame_block [OF assms(2) that [unfolded BlockCurrent_def]] by simp
  have cmp: "frame tys guard_keys k (k\<lparr>sched := cg_sched (snd (CxaGuard_Complete now a g))\<rparr>)" for now a
    using assms(2,3) frame_refl frame_wake_all
    by (auto simp: CxaGuard_Complete_def split: option.splits)
  from assms(1) show ?thesis
  proof cases
    case (guard_acquire a initialized)
    then show ?thesis using blk assms(2,3)
      by (auto simp: CxaGuard_Acquire_def frame_refl split: option.splits prod.splits bool.splits)
  qed (simp_all add: CxaGuard_Release_def CxaGuard_Abort_def cmp)
qed

lemma guard_step_ok:
  assumes ok: "system_ok ks" and c: "guard_call (ks_guards ks) g'"
  shows "system_ok (ks_put_guards g' ks)"
proof -
  have f: "frame {} guard_keys (ks_kernel ks) ((ks_kernel ks)\<lparr>sched := cg_sched g'\<rparr>)"
    by (rule guard_call_frame [OF c system_okD(7) [OF ok]]) simp
  show ?thesis
    unfolding system_ok_def
    using guard_call_ok [OF c system_okD(2) [OF ok]] events_frame [OF ok f] joins_frame [OF ok f]
      semaphores_frame [OF ok f] flag_orphans_frame [OF ok f] semaphore_orphans_frame [OF ok f]
    by (simp add: keys_disjoint_sym keys_disjoint)
qed

lemma thread_step_okI:
  assumes ok: "system_ok ks" and k: "kernel_ok k'" and j: "joins_ok (sched k')"
    and f: "\<And>h ty. ty \<noteq> kThread \<Longrightarrow> HandleTable_Find h ty (handles k') = HandleTable_Find h ty (handles (ks_kernel ks))"
    and w: "\<And>key. key \<notin> exit_keys \<Longrightarrow> waiters (sched k') key \<subseteq> waiters (sched (ks_kernel ks)) key"
  shows "system_ok (ks\<lparr>ks_kernel := k'\<rparr>)"
proof -
  have notin: "key \<notin> exit_keys" if "key \<in> flag_keys \<or> key \<in> semaphore_keys \<or> key \<in> queue_keys \<or> key \<in> guard_keys" for key
    using that keys_disjoint by blast
  have "event_service_ok (ks_events (ks\<lparr>ks_kernel := k'\<rparr>))"
    using event_service_ok_kernel [OF system_okD(1) [OF ok] k] f w notin by (simp add: ks_events_def es_sched_def)
  moreover have "cxa_guard_ok (ks_guards (ks\<lparr>ks_kernel := k'\<rparr>))"
    using cxa_guard_ok_sched [OF system_okD(2) [OF ok] kernel_okD(2) [OF k]] w notin by (simp add: ks_guards_def)
  moreover have "semaphores_ok k'" using semaphores_ok_finds [OF system_okD(3) [OF ok]] f by simp
  moreover have "no_orphans kEventFlag EventFlag_MakeWaitKey k'" "no_orphans kSemaphore Semaphore_MakeWaitKey k'"
    using no_orphans_frame [OF system_okD(5) [OF ok], of k'] no_orphans_frame [OF system_okD(6) [OF ok], of k']
      f w notin by simp_all
  ultimately show ?thesis using j by (simp add: system_ok_def)
qed

lemma thread_sched_step_okI:
  assumes "system_ok ks" "sched_ok s'" "om_keys (threads s') = om_keys (threads (sched (ks_kernel ks)))" "joins_ok s'"
    "\<And>key. key \<notin> exit_keys \<Longrightarrow> waiters s' key \<subseteq> waiters (sched (ks_kernel ks)) key"
  shows "system_ok (ks\<lparr>ks_kernel := (ks_kernel ks)\<lparr>sched := s'\<rparr>\<rparr>)"
  by (rule thread_step_okI [OF assms(1) kernel_ok_sched [OF system_okD(7) [OF assms(1)]]]) (use assms in simp_all)

lemma waiters_SelectNext:
  assumes ok: "sched_ok s"
  shows "waiters (snd (SelectNext now s)) key \<subseteq> waiters s key"
proof (cases "current_thread s")
  case (Some c)
  then show ?thesis by (simp add: SelectNext_def)
next
  case None
  obtain r s' where r: "SelectNext now s = (r, s')" by fastforce
  show ?thesis
    unfolding r using SelectNext_result(4) [OF ok None r]
    by (auto simp: waiters_def blocked_on_def expire_thread_def Let_def split: if_splits)
qed

lemma waiters_YieldCurrent: "waiters (snd (YieldCurrent s)) key \<subseteq> waiters s key"
  by (auto simp: YieldCurrent_def waiters_def om_find_update blocked_on_def split: option.splits if_splits)

lemma waiters_ExitCurrent:
  assumes ok: "sched_ok s" and run: "running_thread s = Some (h, t)"
  shows "waiters (snd (ExitCurrent v s)) key \<subseteq>
    (if key = ThreadExitWaitKey h then {} else waiters s key)"
proof -
  obtain b s' where e: "ExitCurrent v s = (b, s')" by fastforce
  have "th_state t = kRunning" "om_find (threads s) h = Some t" using run by (auto simp: running_thread_Some)
  then show ?thesis
    unfolding e using ExitCurrent_result(3) [OF ok run e]
    by (auto simp: waiters_def blocked_on_def exit_thread_def awaken_thread_def split: if_splits)
qed

lemma exit_step_ok:
  assumes ok: "system_ok ks"
  shows "system_ok (ks\<lparr>ks_kernel := (ks_kernel ks)\<lparr>sched := snd (ExitCurrent v (sched (ks_kernel ks)))\<rparr>\<rparr>)"
proof (cases "running_thread (sched (ks_kernel ks))")
  case None
  then show ?thesis using ok by (simp add: ExitCurrent_def)
next
  case (Some p)
  then obtain h t where run: "running_thread (sched (ks_kernel ks)) = Some (h, t)" by (cases p) simp
  let ?s = "sched (ks_kernel ks)"
  let ?s' = "snd (ExitCurrent v ?s)"
  note so = system_okD(8) [OF ok]
  obtain b s' where e: "ExitCurrent v ?s = (b, s')" by fastforce
  note w = waiters_ExitCurrent [OF so run, of v]
  have "joins_ok ?s'"
    unfolding joins_ok_def
  proof (intro allI impI)
    fix x
    assume nz: "waiters ?s' (ThreadExitWaitKey x) \<noteq> {}"
    then have x: "x \<noteq> h" and "waiters ?s (ThreadExitWaitKey x) \<noteq> {}"
      using w [of "ThreadExitWaitKey x"] by (auto split: if_splits)
    then obtain u where u: "om_find (threads ?s) x = Some u" "th_state u \<noteq> kExited"
      using system_okD(4) [OF ok] by (auto simp: joins_ok_def)
    have "om_find (threads s') x = Some (if blocked_on (ThreadExitWaitKey h) u then awaken_thread u else u)"
      using ExitCurrent_result(3) [OF so run e, of x] u(1) x by simp
    then show "\<exists>t. om_find (threads ?s') x = Some t \<and> th_state t \<noteq> kExited"
      using u(2) by (simp add: e awaken_thread_def)
  qed
  moreover have "waiters ?s' key \<subseteq> waiters ?s key" for key using w [of key] by (auto split: if_splits)
  ultimately show ?thesis
    by (intro thread_sched_step_okI [OF ok ExitCurrent_ok [OF so]]) simp_all
qed

lemma join_step_ok:
  assumes ok: "system_ok ks"
  shows "system_ok (ks\<lparr>ks_kernel := (ks_kernel ks)\<lparr>sched := snd (JoinThread h (sched (ks_kernel ks)))\<rparr>\<rparr>)"
proof -
  let ?s = "sched (ks_kernel ks)"
  let ?s' = "snd (JoinThread h ?s)"
  note so = system_okD(8) [OF ok]
  show ?thesis
  proof (cases "?s' = ?s")
    case True
    then show ?thesis using ok by simp
  next
    case False
    then obtain t c u where t: "om_find (threads ?s) h = Some t" "th_state t \<noteq> kExited"
      and c: "running_thread ?s = Some (c, u)"
      and e: "?s' = ?s\<lparr>threads := om_update c (block_thread (ThreadExitWaitKey h) None) (threads ?s),
                       current_thread := None\<rparr>"
      by (auto simp: JoinThread_def running_thread_Some split: option.splits if_splits)
    have blk: "BlockCurrentLocked (ThreadExitWaitKey h) None ?s = (True, ?s')"
      using c e by (simp add: BlockCurrentLocked_def)
    have w: "waiters ?s' key \<subseteq> waiters ?s key" if "key \<noteq> ThreadExitWaitKey h" for key
      using wq.block_new_waiter [OF so blk] that by blast
    have kt: "keeps_threads ?s ?s'"
      using keeps_threads_BlockCurrentLocked [of ?s "ThreadExitWaitKey h" None] blk by simp
    have "joins_ok ?s'"
      unfolding joins_ok_def
    proof (intro allI impI)
      fix x
      assume nz: "waiters ?s' (ThreadExitWaitKey x) \<noteq> {}"
      have "\<exists>u. om_find (threads ?s) x = Some u \<and> th_state u \<noteq> kExited"
      proof (cases "x = h")
        case False
        then have "waiters ?s (ThreadExitWaitKey x) \<noteq> {}" using w [of "ThreadExitWaitKey x"] nz by auto
        then show ?thesis using system_okD(4) [OF ok] by (auto simp: joins_ok_def)
      qed (use t in auto)
      with kt show "\<exists>t. om_find (threads ?s') x = Some t \<and> th_state t \<noteq> kExited"
        unfolding keeps_threads_def by metis
    qed
    moreover have "waiters ?s' key \<subseteq> waiters ?s key" if "key \<notin> exit_keys" for key
      using w that in_keys(5) by metis
    ultimately show ?thesis
      by (intro thread_sched_step_okI [OF ok JoinThread_ok [OF so]]) simp_all
  qed
qed

lemma sched_step_ok:
  assumes ok: "system_ok ks" and s: "sched_ok s'" "om_keys (threads s') = om_keys (threads (sched (ks_kernel ks)))"
    and k: "keeps_threads (sched (ks_kernel ks)) s'" and w: "\<And>key. waiters s' key \<subseteq> waiters (sched (ks_kernel ks)) key"
  shows "system_ok (ks\<lparr>ks_kernel := (ks_kernel ks)\<lparr>sched := s'\<rparr>\<rparr>)"
  by (rule thread_sched_step_okI [OF ok s joins_ok_keeps [OF system_okD(4) [OF ok] k w] w])

lemma CreateThread_step_ok:
  assumes ok: "system_ok ks"
  shows "system_ok (ks\<lparr>ks_kernel := snd (CreateThread name priority entry arg (ks_kernel ks))\<rparr>)"
proof -
  let ?k = "ks_kernel ks"
  let ?k' = "snd (CreateThread name priority entry arg ?k)"
  obtain r t where ins: "HandleTable_Insert (Some ThreadObject) (handles ?k) = (r, t)" by fastforce
  have fnd: "HandleTable_Find h ty t = HandleTable_Find h ty (handles ?k)" if "ty \<noteq> kThread" for h ty
    using find_insert_other [OF kernel_okD(1) [OF system_okD(7) [OF ok]] ins] that by simp
  have new: "\<not> blocked_on key (new_thread name priority entry arg)" for key
    by (simp add: blocked_on_def new_thread_def)
  have w: "waiters (sched ?k') key \<subseteq> waiters (sched ?k) key" for key
    using ins new by (auto simp: CreateThread_def waiters_def om_find_emplace split: option.splits if_splits)
  have "keeps_threads (sched ?k) (sched ?k')"
    using ins by (auto simp: CreateThread_def keeps_threads_def om_find_emplace split: option.splits)
  then have "joins_ok (sched ?k')" by (rule joins_ok_keeps [OF system_okD(4) [OF ok] _ w])
  with w fnd ins show ?thesis
    by (intro thread_step_okI [OF ok kernel_ok_CreateThread [OF system_okD(7) [OF ok]]])
      (auto simp: CreateThread_def split: option.splits)
qed

lemma Discard_step_ok:
  assumes ok: "system_ok ks" and nj: "waiters (sched (ks_kernel ks)) (ThreadExitWaitKey h) = {}"
  shows "system_ok (ks\<lparr>ks_kernel := snd (DiscardReadyThread h (ks_kernel ks))\<rparr>)"
proof -
  let ?k = "ks_kernel ks"
  let ?k' = "snd (DiscardReadyThread h ?k)"
  obtain r t where rm: "HandleTable_Remove h kThread (handles ?k) = (r, t)" by fastforce
  have om: "om_ok (threads (sched ?k))" using sched_okD(1) [OF system_okD(8) [OF ok]] .
  have fnd: "HandleTable_Find x ty t = HandleTable_Find x ty (handles ?k)" if "ty \<noteq> kThread" for x ty
    using find_remove_other [OF rm that] .
  have w: "waiters (sched ?k') key \<subseteq> waiters (sched ?k) key" for key
    using rm om by (auto simp: DiscardReadyThread_def waiters_def om_find_erase split: option.splits if_splits)
  have "joins_ok (sched ?k')"
    unfolding joins_ok_def
  proof (intro allI impI)
    fix x
    assume "waiters (sched ?k') (ThreadExitWaitKey x) \<noteq> {}"
    then have "waiters (sched ?k) (ThreadExitWaitKey x) \<noteq> {}" using w by blast
    then have "x \<noteq> h" "\<exists>u. om_find (threads (sched ?k)) x = Some u \<and> th_state u \<noteq> kExited"
      using nj system_okD(4) [OF ok] by (auto simp: joins_ok_def)
    then show "\<exists>u. om_find (threads (sched ?k')) x = Some u \<and> th_state u \<noteq> kExited"
      using rm om by (auto simp: DiscardReadyThread_def om_find_erase split: option.splits)
  qed
  with w fnd rm show ?thesis
    by (intro thread_step_okI [OF ok kernel_ok_DiscardReadyThread [OF system_okD(7) [OF ok]]])
      (auto simp: DiscardReadyThread_def split: option.splits)
qed

lemma thread_step_ok:
  assumes ok: "system_ok ks" and c: "thread_call (ks_kernel ks) k'"
  shows "system_ok (ks\<lparr>ks_kernel := k'\<rparr>)"
  using c
proof cases
  case (thread_select now)
  note so = system_okD(8) [OF ok]
  show ?thesis
    unfolding thread_select
    by (rule sched_step_ok [OF ok SelectNext_ok [OF so] _ keeps_threads_SelectNext [OF so] waiters_SelectNext [OF so]])
      simp
next
  case thread_yield
  show ?thesis
    unfolding thread_yield
    by (rule sched_step_ok [OF ok YieldCurrent_ok [OF system_okD(8) [OF ok]] _ keeps_threads_YieldCurrent
          waiters_YieldCurrent]) simp
qed (use ok in \<open>simp_all add: CreateThread_step_ok Discard_step_ok exit_step_ok join_step_ok\<close>)

lemma system_step_ok: "system_step ks ks' \<Longrightarrow> system_ok ks \<Longrightarrow> system_ok ks'"
  by (induction rule: system_step.induct)
    (auto intro: flag_step_ok semaphore_step_ok queue_step_system_ok guard_step_ok thread_step_ok)

lemma system_steps_ok: "system_steps ks ks' \<Longrightarrow> system_ok ks \<Longrightarrow> system_ok ks'"
  by (induction rule: system_steps.induct) (auto intro: system_step_ok)

section \<open>Exited threads\<close>

definition exited_kept :: "guest_scheduler \<Rightarrow> guest_scheduler \<Rightarrow> bool" where
  "exited_kept s s' \<longleftrightarrow>
     (\<forall>h t. om_find (threads s) h = Some t \<longrightarrow> th_state t = kExited \<longrightarrow> om_find (threads s') h = Some t)"

lemma keeps_exited: "keeps_threads s s' \<Longrightarrow> exited_kept s s'"
  unfolding keeps_threads_def exited_kept_def by (metis (full_types))

lemma exited_kept_ExitCurrent:
  assumes ok: "sched_ok s"
  shows "exited_kept s (snd (ExitCurrent v s))"
proof (cases "running_thread s")
  case None
  then show ?thesis by (simp add: ExitCurrent_def exited_kept_def)
next
  case (Some p)
  then obtain h t where run: "running_thread s = Some (h, t)" by (cases p) simp
  obtain b s' where e: "ExitCurrent v s = (b, s')" by fastforce
  show ?thesis
    unfolding e exited_kept_def using ExitCurrent_result(3) [OF ok run e] run
    by (auto simp: running_thread_Some blocked_on_def)
qed

lemma exited_kept_JoinThread: "exited_kept s (snd (JoinThread h s))"
  by (auto simp: JoinThread_def exited_kept_def running_thread_Some om_find_update split: option.splits if_splits)

lemma exited_kept_CreateThread: "exited_kept (sched k) (sched (snd (CreateThread name priority entry arg k)))"
  by (auto simp: CreateThread_def exited_kept_def om_find_emplace split: prod.splits option.splits)

lemma exited_kept_Discard:
  "sched_ok (sched k) \<Longrightarrow> exited_kept (sched k) (sched (snd (DiscardReadyThread h k)))"
  using sched_okD(1) [of "sched k"]
  by (auto simp: DiscardReadyThread_def exited_kept_def om_find_erase split: prod.splits option.splits)

lemma thread_call_exited: "thread_call k k' \<Longrightarrow> kernel_ok k \<Longrightarrow> exited_kept (sched k) (sched k')"
  by (induction rule: thread_call.induct)
    (simp_all add: kernel_okD(2) exited_kept_ExitCurrent exited_kept_JoinThread exited_kept_CreateThread
      exited_kept_Discard keeps_exited [OF keeps_threads_SelectNext] keeps_exited [OF keeps_threads_YieldCurrent])

lemma system_step_exited:
  assumes "system_step ks ks'" "system_ok ks"
  shows "exited_kept (sched (ks_kernel ks)) (sched (ks_kernel ks'))"
  using assms
proof (induction rule: system_step.induct)
  case (flags ks k')
  then show ?case using frameD(2) [OF flag_call_frame] system_okD(7) keeps_exited by simp
next
  case (semaphores ks k')
  then show ?case using frameD(2) [OF semaphore_call_frame] system_okD(7) keeps_exited by simp
next
  case (queues ks es')
  then have "es_frame (ks_events ks) es'" using queue_call_frame system_okD(1) by blast
  then show ?case using frameD(2) keeps_exited by (simp add: es_frame_def)
next
  case (guards ks g')
  have "frame {} guard_keys (ks_kernel ks) ((ks_kernel ks)\<lparr>sched := cg_sched g'\<rparr>)"
    by (rule guard_call_frame [OF guards(1) system_okD(7) [OF guards(2)]]) simp
  then show ?case using frameD(2) keeps_exited by fastforce
next
  case (threads ks k')
  then show ?case using thread_call_exited system_okD(7) by simp
qed

lemma system_steps_exited:
  "system_steps ks ks' \<Longrightarrow> system_ok ks \<Longrightarrow> exited_kept (sched (ks_kernel ks)) (sched (ks_kernel ks'))"
proof (induction rule: system_steps.induct)
  case (steps_refl ks)
  then show ?case by (simp add: exited_kept_def)
next
  case (steps_step ks ks1 ks2)
  then have "exited_kept (sched (ks_kernel ks1)) (sched (ks_kernel ks2))"
    using system_step_exited system_steps_ok by blast
  with steps_step show ?case by (simp add: exited_kept_def)
qed

lemma JoinThread_Ok:
  "tj_status (fst (JoinThread h s)) = kOk \<longleftrightarrow>
     (\<exists>t. om_find (threads s) h = Some t \<and> th_state t = kExited)"
  by (auto simp: JoinThread_def split: option.splits if_splits)

section \<open>Properties of the kernel\<close>

text \<open>
  The example of the witnesses: a thread is created and selected, and waits on a new semaphore whose
  count is zero.
\<close>

definition example_kernel_1 :: kernel where
  "example_kernel_1 = snd (CreateThread ''t'' 0 0 0 empty_kernel)"

definition example_kernel_2 :: kernel where
  "example_kernel_2 = example_kernel_1\<lparr>sched := snd (SelectNext 0 (sched example_kernel_1))\<rparr>"

definition example_kernel_3 :: kernel where
  "example_kernel_3 = snd (SemaphoreService_Create ''s'' 1 0 1 example_kernel_2)"

definition example_kernel_4 :: kernel where
  "example_kernel_4 = snd (SemaphoreService_Wait 2 1 example_kernel_3)"

definition example_system :: kernel_system where
  "example_system = empty_system\<lparr>ks_kernel := example_kernel_4\<rparr>"

lemma example_system_steps: "system_steps empty_system example_system"
proof -
  have e: "empty_system\<lparr>ks_kernel := empty_kernel\<rparr> = empty_system" by (simp add: empty_system_def)
  let ?s = "\<lambda>k. empty_system\<lparr>ks_kernel := k\<rparr>"
  have "system_step (?s empty_kernel) (?s example_kernel_1)"
    using system_step.threads [OF thread_call.thread_create, of "?s empty_kernel" "''t''" 0 0 0]
    by (simp add: example_kernel_1_def)
  moreover have "system_step (?s example_kernel_1) (?s example_kernel_2)"
    using system_step.threads [OF thread_call.thread_select, of "?s example_kernel_1" 0]
    by (simp add: example_kernel_2_def)
  moreover have "system_step (?s example_kernel_2) (?s example_kernel_3)"
    using system_step.semaphores [OF semaphore_call.semaphore_create, of 1 "?s example_kernel_2" "''s''" 1 0]
    by (simp add: example_kernel_3_def)
  moreover have "system_step (?s example_kernel_3) (?s example_kernel_4)"
    using system_step.semaphores [OF semaphore_call.semaphore_wait, of "?s example_kernel_3" 2 1]
    by (simp add: example_kernel_4_def)
  ultimately show ?thesis
    unfolding example_system_def e by (meson steps_refl steps_step)
qed

lemma example_system_waiter:
  "1 \<in> waiters (sched (ks_kernel example_system)) (Semaphore_MakeWaitKey 2)"
proof -
  have "map_option (blocked_on (Semaphore_MakeWaitKey 2)) (om_find (threads (sched example_kernel_4)) 1) = Some True"
    by code_simp
  then show ?thesis by (auto simp: waiters_def example_system_def)
qed

text \<open>
  C1: In every state that calls of the services and of the scheduler reach from the initial one,
  in any order and number, the handle table and the scheduler are well-formed, every semaphore's
  count is between zero and its maximum and every event queue is well-formed.
\<close>

theorem kernel_invariant:
  assumes "system_steps empty_system ks"
  shows "kernel_ok (ks_kernel ks) \<and>
    (\<forall>h m. HandleTable_Find h kSemaphore (handles (ks_kernel ks)) = Some (SemaphoreObject m) \<longrightarrow>
       0 \<le> sm_count m \<and> sm_count m \<le> sm_maximum_count m) \<and>
    (\<forall>h q. HandleTable_Find h kEventQueue (handles (ks_kernel ks)) = Some (EventQueueObject q) \<longrightarrow>
       event_queue_ok q)"
proof -
  have ok: "system_ok ks" by (rule system_steps_ok [OF assms empty_system_ok])
  show ?thesis
    using system_okD(3,7) [OF ok] event_service_okD(6) [OF system_okD(1) [OF ok]]
    by (auto simp: semaphores_ok_def semaphore_ok_def)
qed

theorem kernel_invariant_witness:
  "system_steps empty_system example_system \<and> kernel_ok (ks_kernel example_system)"
  using kernel_invariant [OF example_system_steps] example_system_steps by blast



text \<open>
  C3: Once a thread has exited, joining it succeeds with the same exit value in every later state
  of the kernel.
\<close>

theorem join_result_stable:
  assumes "system_steps empty_system ks" "system_steps ks ks'"
    "JoinThread h (sched (ks_kernel ks)) = (\<lparr>tj_status = kOk, tj_exit_value = v\<rparr>, s)"
  shows "fst (JoinThread h (sched (ks_kernel ks'))) = \<lparr>tj_status = kOk, tj_exit_value = v\<rparr>"
proof -
  have ok: "system_ok ks" by (rule system_steps_ok [OF assms(1) empty_system_ok])
  obtain t where t: "om_find (threads (sched (ks_kernel ks))) h = Some t" "th_state t = kExited"
    using JoinThread_Ok [of h "sched (ks_kernel ks)"] assms(3) by auto
  then have "om_find (threads (sched (ks_kernel ks'))) h = Some t"
    using system_steps_exited [OF assms(2) ok] by (simp add: exited_kept_def)
  then show ?thesis
    using t assms(3) JoinThread_exited [OF t] by (simp add: JoinThread_exited)
qed

definition example_exited :: kernel_system where
  "example_exited = empty_system\<lparr>ks_kernel := example_kernel_2\<lparr>sched := snd (ExitCurrent 7 (sched example_kernel_2))\<rparr>\<rparr>"

lemma example_exited_steps: "system_steps empty_system example_exited"
proof -
  have e: "empty_system\<lparr>ks_kernel := empty_kernel\<rparr> = empty_system" by (simp add: empty_system_def)
  let ?s = "\<lambda>k. empty_system\<lparr>ks_kernel := k\<rparr>"
  have "system_step (?s empty_kernel) (?s example_kernel_1)"
    using system_step.threads [OF thread_call.thread_create, of "?s empty_kernel" "''t''" 0 0 0]
    by (simp add: example_kernel_1_def)
  moreover have "system_step (?s example_kernel_1) (?s example_kernel_2)"
    using system_step.threads [OF thread_call.thread_select, of "?s example_kernel_1" 0]
    by (simp add: example_kernel_2_def)
  moreover have "system_step (?s example_kernel_2) example_exited"
    using system_step.threads [OF thread_call.thread_exit, of "?s example_kernel_2" 7]
    by (simp add: example_exited_def)
  ultimately show ?thesis unfolding e by (meson steps_refl steps_step)
qed

lemma example_exited_join:
  "JoinThread 1 (sched (ks_kernel example_exited)) =
     (\<lparr>tj_status = kOk, tj_exit_value = 7\<rparr>, sched (ks_kernel example_exited))"
proof -
  have "map_option (\<lambda>t. (th_state t, th_exit_value t)) (om_find (threads (sched (ks_kernel example_exited))) 1) =
      Some (kExited, 7)" by code_simp
  then show ?thesis by (auto simp: JoinThread_def)
qed

theorem join_result_stable_witness:
  "fst (JoinThread 1 (sched (ks_kernel example_exited))) = \<lparr>tj_status = kOk, tj_exit_value = 7\<rparr>"
  by (rule join_result_stable [OF example_exited_steps steps_refl example_exited_join])

text \<open>
  C4: The services share one name space of wait keys without interfering: each service's key
  determines the object it was made for, and no key of one service is a key of another.
\<close>

theorem wait_keys_do_not_clash:
  "inj EventFlag_MakeWaitKey \<and> inj Semaphore_MakeWaitKey \<and> inj EventQueue_MakeWaitKey \<and>
   inj CxaGuard_WaitKey \<and> inj ThreadExitWaitKey \<and>
   EventFlag_MakeWaitKey a \<noteq> Semaphore_MakeWaitKey b \<and> EventFlag_MakeWaitKey a \<noteq> EventQueue_MakeWaitKey b \<and>
   EventFlag_MakeWaitKey a \<noteq> CxaGuard_WaitKey b \<and> EventFlag_MakeWaitKey a \<noteq> ThreadExitWaitKey b \<and>
   Semaphore_MakeWaitKey a \<noteq> EventQueue_MakeWaitKey b \<and> Semaphore_MakeWaitKey a \<noteq> CxaGuard_WaitKey b \<and>
   Semaphore_MakeWaitKey a \<noteq> ThreadExitWaitKey b \<and> EventQueue_MakeWaitKey a \<noteq> CxaGuard_WaitKey b \<and>
   EventQueue_MakeWaitKey a \<noteq> ThreadExitWaitKey b \<and> CxaGuard_WaitKey a \<noteq> ThreadExitWaitKey b"
  by (auto simp: inj_def wait_key_defs)

end
