(* ===== verification/Segments.thy ===== *)
theory Segments
  imports Ordered_Map
begin

text \<open>
  Sorted tables of disjoint address intervals. The guest memory keeps three of them (regions
  with their protection, mapping identities with their generation, shared mappings with their
  place in a backing) and searches, inserts into, cuts and coalesces them in the same way, so
  the operations and their facts are stated once here, for intervals that carry a value.
  Addresses are 64-bit words and an interval's end is computed with wrap-around; the invariant
  \<open>segs_ok\<close> says that no interval reaches beyond the largest address.
\<close>

section \<open>Intervals\<close>

datatype 'p seg = Seg (seg_address: u64) (seg_size: u64) (seg_val: 'p)

definition seg_end :: "'p seg \<Rightarrow> u64" where
  "seg_end s = seg_address s + seg_size s"

definition seg_lo :: "'p seg \<Rightarrow> nat" where
  "seg_lo s = unat (seg_address s)"

definition seg_hi :: "'p seg \<Rightarrow> nat" where
  "seg_hi s = unat (seg_address s) + unat (seg_size s)"

definition in_range :: "u64 \<Rightarrow> u64 \<Rightarrow> u64 \<Rightarrow> bool" where
  "in_range address len x \<longleftrightarrow> unat address \<le> unat x \<and> unat x < unat address + unat len"

definition in_seg :: "u64 \<Rightarrow> 'p seg \<Rightarrow> bool" where
  "in_seg x s \<longleftrightarrow> seg_lo s \<le> unat x \<and> unat x < seg_hi s"

definition seg_ok :: "'p seg \<Rightarrow> bool" where
  "seg_ok s \<longleftrightarrow> seg_lo s < seg_hi s \<and> seg_hi s < 18446744073709551616"

definition segs_ok :: "'p seg list \<Rightarrow> bool" where
  "segs_ok segs \<longleftrightarrow>
     (\<forall>s \<in> set segs. seg_ok s) \<and> sorted_wrt (\<lambda>s t. seg_hi s \<le> seg_lo t) segs"

definition segs_within :: "nat \<Rightarrow> nat \<Rightarrow> 'p seg list \<Rightarrow> bool" where
  "segs_within b e segs \<longleftrightarrow> (\<forall>s \<in> set segs. b \<le> seg_lo s \<and> seg_hi s \<le> e)"

text \<open>The value at an address; \<open>adv n v\<close> is the value \<open>n\<close> bytes into an interval with value \<open>v\<close>.\<close>

definition seg_at :: "(u64 \<Rightarrow> 'p \<Rightarrow> 'q) \<Rightarrow> 'p seg list \<Rightarrow> u64 \<Rightarrow> 'q option" where
  "seg_at adv segs x =
     map_option (\<lambda>s. adv (x - seg_address s) (seg_val s)) (List.find (in_seg x) segs)"

abbreviation val_at :: "'p seg list \<Rightarrow> u64 \<Rightarrow> 'p option" where
  "val_at \<equiv> seg_at (\<lambda>_ v. v)"

section \<open>Operations\<close>

definition seg_lower_bound :: "'p seg list \<Rightarrow> u64 \<Rightarrow> nat" where
  "seg_lower_bound segs a = length (takeWhile (\<lambda>s. seg_address s < a) segs)"

text \<open>The index of the interval that contains an address, or the length of the table.\<close>

definition seg_index :: "'p seg list \<Rightarrow> u64 \<Rightarrow> nat" where
  "seg_index segs a =
     (let i = seg_lower_bound segs a in
      if i < length segs \<and> seg_address (segs ! i) = a then i
      else if i = 0 then length segs
      else if a < seg_end (segs ! (i - 1)) then i - 1 else length segs)"

definition seg_insert :: "'p seg \<Rightarrow> 'p seg list \<Rightarrow> 'p seg list" where
  "seg_insert new segs =
     (let i = seg_lower_bound segs (seg_address new) in take i segs @ new # drop i segs)"

fun coalesce_from :: "'p seg \<Rightarrow> 'p seg list \<Rightarrow> 'p seg list" where
  "coalesce_from previous [] = [previous]"
| "coalesce_from previous (current # rest) =
     (if seg_end previous = seg_address current \<and> seg_val previous = seg_val current
      then coalesce_from (Seg (seg_address previous) (seg_size previous + seg_size current)
                            (seg_val previous)) rest
      else previous # coalesce_from current rest)"

fun coalesce :: "'p seg list \<Rightarrow> 'p seg list" where
  "coalesce [] = []"
| "coalesce (s # rest) = coalesce_from s rest"

text \<open>Walking a range over consecutive intervals.\<close>

fun access_walk :: "('p \<Rightarrow> bool) \<Rightarrow> u64 \<Rightarrow> u64 \<Rightarrow> 'p seg list \<Rightarrow> bool" where
  "access_walk allowed current remaining [] = False"
| "access_walk allowed current remaining (s # rest) =
     (if current < seg_address s \<or> current \<ge> seg_end s then False
      else if \<not> allowed (seg_val s) then False
      else if remaining = 0 then True
      else
        let chunk = min remaining (seg_end s - current) in
        if remaining - chunk = 0 then True
        else access_walk allowed (current + chunk) (remaining - chunk) rest)"

section \<open>Basic facts\<close>

lemma seg_end_unat: "seg_ok s \<Longrightarrow> unat (seg_end s) = seg_hi s"
  by (simp add: seg_ok_def seg_end_def seg_hi_def unat_add_exact)

lemma seg_hi_Seg [simp]: "seg_hi (Seg a n v) = unat a + unat n"
  by (simp add: seg_hi_def)

lemma seg_lo_Seg [simp]: "seg_lo (Seg a n v) = unat a"
  by (simp add: seg_lo_def)

lemma unat_seg_address: "unat (seg_address s) = seg_lo s"
  by (simp add: seg_lo_def)

lemma segs_ok_Nil [simp]: "segs_ok []"
  by (simp add: segs_ok_def)

lemma segs_ok_Cons:
  "segs_ok (s # segs) \<longleftrightarrow> seg_ok s \<and> (\<forall>t \<in> set segs. seg_hi s \<le> seg_lo t) \<and> segs_ok segs"
  by (auto simp: segs_ok_def)

lemma segs_ok_append:
  "segs_ok (xs @ ys) \<longleftrightarrow>
     segs_ok xs \<and> segs_ok ys \<and> (\<forall>s \<in> set xs. \<forall>t \<in> set ys. seg_hi s \<le> seg_lo t)"
  by (auto simp: segs_ok_def sorted_wrt_append)

lemma segs_okD: "segs_ok segs \<Longrightarrow> s \<in> set segs \<Longrightarrow> seg_ok s"
  by (simp add: segs_ok_def)

lemma in_seg_unique:
  "segs_ok segs \<Longrightarrow> s \<in> set segs \<Longrightarrow> t \<in> set segs \<Longrightarrow> in_seg x s \<Longrightarrow> in_seg x t \<Longrightarrow> s = t"
  by (induction segs) (fastforce simp: segs_ok_Cons in_seg_def)+

lemma seg_at_Some:
  assumes "segs_ok segs"
  shows "seg_at adv segs x = Some v \<longleftrightarrow>
    (\<exists>s \<in> set segs. in_seg x s \<and> v = adv (x - seg_address s) (seg_val s))"
proof -
  have "List.find (in_seg x) segs = Some s \<longleftrightarrow> s \<in> set segs \<and> in_seg x s" for s
  proof
    assume "List.find (in_seg x) segs = Some s"
    then show "s \<in> set segs \<and> in_seg x s" by (auto simp: find_Some_iff)
  next
    assume s: "s \<in> set segs \<and> in_seg x s"
    then obtain t where t: "List.find (in_seg x) segs = Some t"
      by (cases "List.find (in_seg x) segs") (auto simp: find_None_iff)
    then have "t \<in> set segs \<and> in_seg x t" by (auto simp: find_Some_iff)
    with s t in_seg_unique [OF assms] show "List.find (in_seg x) segs = Some s" by blast
  qed
  then show ?thesis by (auto simp: seg_at_def)
qed

lemma seg_at_None: "seg_at adv segs x = None \<longleftrightarrow> (\<forall>s \<in> set segs. \<not> in_seg x s)"
  by (auto simp: seg_at_def find_None_iff)

lemma segs_ok_sorted: "segs_ok segs \<Longrightarrow> sorted_wrt (<) (map seg_address segs)"
proof (induction segs)
  case (Cons s segs)
  have "seg_lo s < seg_lo t" if "t \<in> set segs" for t
    using Cons.prems that by (auto simp: segs_ok_Cons seg_ok_def)
  with Cons show ?case by (auto simp: segs_ok_Cons seg_lo_def word_less_nat_alt)
qed simp

section \<open>Searching\<close>

lemma seg_lower_bound_nth:
  assumes "segs_ok segs" "i < length segs"
  shows "i < seg_lower_bound segs a \<longleftrightarrow> seg_lo (segs ! i) < unat a"
proof -
  have "i < length (takeWhile (\<lambda>x. x < a) (map seg_address segs)) \<longleftrightarrow> map seg_address segs ! i < a"
    using assms by (intro sorted_takeWhile_less) (auto simp: segs_ok_sorted)
  then show ?thesis
    using assms(2) by (simp add: seg_lower_bound_def takeWhile_map o_def seg_lo_def word_less_nat_alt)
qed

lemma seg_lower_bound_le: "seg_lower_bound segs a \<le> length segs"
  by (simp add: seg_lower_bound_def length_takeWhile_le)

lemma segs_ok_nth:
  "segs_ok segs \<Longrightarrow> i < j \<Longrightarrow> j < length segs \<Longrightarrow> seg_hi (segs ! i) \<le> seg_lo (segs ! j)"
  by (simp add: segs_ok_def sorted_wrt_iff_nth_less)

lemma seg_index_spec:
  assumes ok: "segs_ok segs"
  shows "(seg_index segs a < length segs \<and> in_seg a (segs ! seg_index segs a)) \<or>
    (seg_index segs a = length segs \<and> (\<forall>s \<in> set segs. \<not> in_seg a s))"
proof -
  define i where "i = seg_lower_bound segs a"
  have below: "seg_lo (segs ! j) < unat a" if "j < i" for j
    using seg_lower_bound_nth [OF ok, of j a] that seg_lower_bound_le [of segs a] by (simp add: i_def)
  have above: "unat a \<le> seg_lo (segs ! j)" if "i \<le> j" "j < length segs" for j
    using seg_lower_bound_nth [OF ok that(2), of a] that by (simp add: i_def)
  have okn: "seg_ok (segs ! j)" if "j < length segs" for j using segs_okD [OF ok] that by simp
  have ile: "i \<le> length segs" by (simp add: i_def seg_lower_bound_le)
  consider "i < length segs" "seg_address (segs ! i) = a"
    | "\<not> (i < length segs \<and> seg_address (segs ! i) = a)" "0 < i" "a < seg_end (segs ! (i - 1))"
    | "\<not> (i < length segs \<and> seg_address (segs ! i) = a)" "i = 0 \<or> \<not> a < seg_end (segs ! (i - 1))"
    by blast
  then show ?thesis
  proof cases
    case 1
    then have "in_seg a (segs ! i)" using okn [of i] by (auto simp: in_seg_def seg_ok_def seg_lo_def)
    with 1 show ?thesis by (simp add: seg_index_def Let_def i_def [symmetric])
  next
    case 2
    then have "seg_index segs a = i - 1" by (auto simp: seg_index_def Let_def i_def [symmetric])
    moreover have "in_seg a (segs ! (i - 1))"
      using 2(2,3) below [of "i - 1"] okn [of "i - 1"] ile
      by (simp add: in_seg_def word_less_nat_alt seg_end_unat)
    ultimately show ?thesis using 2(2) ile by auto
  next
    case 3
    then have "seg_index segs a = length segs"
      by (auto simp: seg_index_def Let_def i_def [symmetric])
    moreover have "\<not> in_seg a s" if "s \<in> set segs" for s
    proof -
      from that obtain j where j: "j < length segs" "s = segs ! j" by (auto simp: in_set_conv_nth)
      consider "i \<le> j" | "j = i - 1" "0 < i" | "j < i - 1" "0 < i" by linarith
      then show ?thesis
      proof cases
        case 1
        have "unat a \<noteq> seg_lo (segs ! i)" if "i < length segs"
          using 3(1) that by (auto simp: seg_lo_def unat_eq_iff)
        then have "unat a < seg_lo s"
          using above [of i] above [OF 1 j(1)] 1 j segs_ok_nth [OF ok, of i j] okn [of i]
          by (cases "i = j") (auto simp: seg_ok_def)
        then show ?thesis by (simp add: in_seg_def)
      next
        case 2
        with 3(2) okn [OF j(1)] j show ?thesis
          by (auto simp: in_seg_def word_less_nat_alt seg_end_unat)
      next
        case 3
        then have "seg_hi s \<le> seg_lo (segs ! (i - 1))" using segs_ok_nth [OF ok, of j "i - 1"] j ile by simp
        also have "\<dots> < unat a" using below [of "i - 1"] 3 by simp
        finally show ?thesis by (simp add: in_seg_def)
      qed
    qed
    ultimately show ?thesis by blast
  qed
qed

lemma seg_index_at:
  assumes "segs_ok segs"
  shows "seg_index segs a < length segs \<longleftrightarrow> seg_at adv segs a \<noteq> None"
    and "seg_index segs a < length segs \<Longrightarrow> seg_at adv segs a =
      Some (adv (a - seg_address (segs ! seg_index segs a)) (seg_val (segs ! seg_index segs a)))"
proof -
  show "seg_index segs a < length segs \<longleftrightarrow> seg_at adv segs a \<noteq> None"
    using seg_index_spec [OF assms, of a] by (force simp: seg_at_None)
  show "seg_index segs a < length segs \<Longrightarrow> seg_at adv segs a =
      Some (adv (a - seg_address (segs ! seg_index segs a)) (seg_val (segs ! seg_index segs a)))"
    using seg_index_spec [OF assms, of a] unfolding seg_at_Some [OF assms] by force
qed

section \<open>Walking\<close>

lemma covered_end_hd:
  assumes ok: "segs_ok (s # rest)" and t: "t \<in> set rest" "in_seg c t" and c: "unat c = seg_hi s"
  shows "rest \<noteq> [] \<and> in_seg c (hd rest)"
proof -
  from t obtain h rs where rest: "rest = h # rs" by (cases rest) auto
  have "seg_lo t = seg_hi s" using ok t c by (auto simp: in_seg_def segs_ok_Cons)
  moreover have "seg_hi h \<le> seg_lo t" "seg_hi s \<le> seg_lo h" "seg_lo h < seg_hi h" if "t \<noteq> h"
    using t(1) that ok by (auto simp: rest segs_ok_Cons seg_ok_def)
  ultimately have "t = h" by fastforce
  with rest t show ?thesis by simp
qed

lemma max_1_nonzero: "v \<noteq> 0 \<Longrightarrow> max 1 v = (v :: u64)"
  by (simp add: max_def word_le_nat_alt Suc_le_eq unat_gt_0)

lemma in_range_self: "in_range c (max 1 n) c"
  by (auto simp: in_range_def max_def word_le_nat_alt)

text \<open>A range that goes beyond an interval splits at the interval's end.\<close>

lemma in_range_split:
  assumes ok: "seg_ok s" and cur: "in_seg current s" and big: "seg_hi s - unat current < unat remaining"
    and nov: "unat current + unat remaining < 18446744073709551616"
  defines "c \<equiv> current + (seg_end s - current)" and "r \<equiv> remaining - (seg_end s - current)"
  shows "unat c = seg_hi s" "unat r = unat remaining - (seg_hi s - unat current)" "r \<noteq> 0" "remaining \<noteq> 0"
    "unat c + unat r < 18446744073709551616"
    "in_range current (max 1 remaining) x \<longleftrightarrow>
       (unat current \<le> unat x \<and> unat x < seg_hi s) \<or> in_range c (max 1 r) x"
    "min remaining (seg_end s - current) = seg_end s - current"
proof -
  have av: "unat (seg_end s - current) = seg_hi s - unat current"
    using cur ok by (subst unat_sub_exact) (auto simp: seg_end_unat in_seg_def)
  show c: "unat c = seg_hi s" using ok by (simp add: c_def seg_end_unat)
  show r: "unat r = unat remaining - (seg_hi s - unat current)"
    unfolding r_def using big by (subst unat_sub_exact) (auto simp: av)
  show r0: "r \<noteq> 0" "remaining \<noteq> 0" using r big by auto
  show "unat c + unat r < 18446744073709551616"
    using nov cur big unfolding c r in_seg_def by linarith
  show "min remaining (seg_end s - current) = seg_end s - current"
    using big by (simp add: min_def word_le_nat_alt av)
  show "in_range current (max 1 remaining) x \<longleftrightarrow>
      (unat current \<le> unat x \<and> unat x < seg_hi s) \<or> in_range c (max 1 r) x"
    using big cur unfolding max_1_nonzero [OF r0(1)] max_1_nonzero [OF r0(2)] in_range_def c r in_seg_def
    by linarith
qed

lemma access_walk_iff:
  assumes "segs_ok segs" "unat current + unat remaining < 18446744073709551616"
  shows "access_walk allowed current remaining segs \<longleftrightarrow>
    (segs \<noteq> [] \<and> in_seg current (hd segs)) \<and>
    (\<forall>x. in_range current (max 1 remaining) x \<longrightarrow> (\<exists>s \<in> set segs. in_seg x s \<and> allowed (seg_val s)))"
  using assms
proof (induction allowed current remaining segs rule: access_walk.induct)
  case (1 allowed current remaining)
  then show ?case by simp
next
  case (2 allowed current remaining s rest)
  have ok: "seg_ok s" "segs_ok rest" using 2(2) by (auto simp: segs_ok_Cons)
  have inseg: "in_seg current s \<longleftrightarrow> \<not> (current < seg_address s \<or> current \<ge> seg_end s)"
    using ok(1) by (auto simp: in_seg_def word_less_nat_alt word_le_nat_alt seg_end_unat seg_lo_def)
  have only_s: "t = s" if "t \<in> set (s # rest)" "in_seg x t" "in_seg x s" for t x
    using in_seg_unique [OF 2(2), of t s x] that by simp
  consider "\<not> in_seg current s \<or> \<not> allowed (seg_val s)"
    | "in_seg current s" "allowed (seg_val s)" "unat remaining \<le> seg_hi s - unat current"
    | "in_seg current s" "allowed (seg_val s)" "seg_hi s - unat current < unat remaining"
    by linarith
  then show ?case
  proof cases
    case 1
    have "\<not> (\<exists>t \<in> set (s # rest). in_seg current t \<and> allowed (seg_val t))" if "in_seg current s"
      using 1 that only_s by blast
    then show ?thesis
      using 1 inseg in_range_self [of current remaining]
      by (metis access_walk.simps(2) list.sel(1))
  next
    case 2
    have "unat (seg_end s - current) = seg_hi s - unat current"
      using 2(1) ok(1) by (subst unat_sub_exact) (auto simp: seg_end_unat in_seg_def)
    then have "remaining = 0 \<or> remaining - min remaining (seg_end s - current) = 0"
      using 2(3) by (auto simp: min_def word_le_nat_alt)
    moreover have "in_seg x s" if "in_range current (max 1 remaining) x" for x
      using that 2(1,3) by (auto simp: in_range_def in_seg_def max_def split: if_splits)
    ultimately show ?thesis using inseg 2 by auto
  next
    case 3
    note sp = in_range_split [OF ok(1) 3(1,3) "2.prems"(2)]
    let ?c = "current + (seg_end s - current)" and ?r = "remaining - (seg_end s - current)"
    have prem: "\<not> (current < seg_address s \<or> seg_end s \<le> current)" "\<not> \<not> allowed (seg_val s)"
      using 3 inseg by auto
    have walk: "access_walk allowed current remaining (s # rest) = access_walk allowed ?c ?r rest"
      using prem sp(3,4) by (simp add: sp(7))
    have IH: "access_walk allowed ?c ?r rest \<longleftrightarrow>
        (rest \<noteq> [] \<and> in_seg ?c (hd rest)) \<and>
        (\<forall>x. in_range ?c (max 1 ?r) x \<longrightarrow> (\<exists>s \<in> set rest. in_seg x s \<and> allowed (seg_val s)))"
      using "2.IH" [OF prem sp(4) refl] sp(3,5) ok(2) by (simp only: sp(7) simp_thms)
    have notin: "\<not> in_seg x s" if "in_range ?c (max 1 ?r) x" for x
      using that sp(1) by (simp add: in_range_def in_seg_def)
    show ?thesis
      unfolding walk IH
      using 3 sp(6) notin covered_end_hd [OF "2.prems"(1) _ _ sp(1)] in_range_self [of ?c ?r]
      by (auto simp: in_seg_def)
  qed
qed

section \<open>Inserting\<close>

lemma set_seg_insert [simp]: "set (seg_insert new segs) = insert new (set segs)"
proof -
  have "set segs = set (take i segs) \<union> set (drop i segs)" for i
    by (metis append_take_drop_id set_append)
  then show ?thesis by (auto simp: seg_insert_def Let_def)
qed

lemma segs_ok_insert:
  assumes ok: "segs_ok segs" and new: "seg_ok new"
    and free: "\<forall>s \<in> set segs. seg_hi s \<le> seg_lo new \<or> seg_hi new \<le> seg_lo s"
  shows "segs_ok (seg_insert new segs)"
proof -
  define i where "i = seg_lower_bound segs (seg_address new)"
  have pre: "seg_hi s \<le> seg_lo new" if s: "s \<in> set (take i segs)" for s
  proof -
    from s obtain j where j: "j < i" "j < length segs" "s = segs ! j"
      by (auto simp: in_set_conv_nth)
    then have "seg_lo s < seg_lo new"
      using seg_lower_bound_nth [OF ok j(2), of "seg_address new"] by (simp add: i_def seg_lo_def)
    with free j new show ?thesis by (fastforce simp: seg_ok_def)
  qed
  have post: "seg_hi new \<le> seg_lo s" if s: "s \<in> set (drop i segs)" for s
  proof -
    from s obtain j where j: "i \<le> j" "j < length segs" "s = segs ! j"
      by (auto simp: in_set_conv_nth) (metis add.commute le_add2 less_diff_conv)
    then have "\<not> seg_lo s < seg_lo new"
      using seg_lower_bound_nth [OF ok j(2), of "seg_address new"] by (simp add: i_def seg_lo_def)
    moreover have "s \<in> set segs" using s by (rule in_set_dropD)
    ultimately show ?thesis using free segs_okD [OF ok, of s] by (auto simp: seg_ok_def)
  qed
  have sep: "\<forall>s \<in> set (take i segs). \<forall>t \<in> set (drop i segs). seg_hi s \<le> seg_lo t"
    using ok by (metis append_take_drop_id segs_ok_append)
  have "segs_ok (take i segs)" "segs_ok (drop i segs)"
    using ok by (metis append_take_drop_id segs_ok_append)+
  with pre post sep new show ?thesis
    by (auto simp: seg_insert_def Let_def i_def [symmetric] segs_ok_append segs_ok_Cons)
qed

lemma seg_at_insert:
  assumes "segs_ok segs" "segs_ok (seg_insert new segs)"
  shows "seg_at adv (seg_insert new segs) x =
    (if in_seg x new then Some (adv (x - seg_address new) (seg_val new)) else seg_at adv segs x)"
proof (cases "in_seg x new")
  case True
  then show ?thesis by (auto simp: seg_at_Some [OF assms(2)])
next
  case False
  then have "seg_at adv (seg_insert new segs) x = Some v \<longleftrightarrow> seg_at adv segs x = Some v" for v
    by (auto simp: seg_at_Some [OF assms(1)] seg_at_Some [OF assms(2)])
  with False show ?thesis by (metis not_Some_eq)
qed

section \<open>Coalescing\<close>

text \<open>Adjacent intervals of a coalesced table do not touch or carry different values.\<close>

fun canonical :: "'p seg list \<Rightarrow> bool" where
  "canonical (s # t # rest) \<longleftrightarrow>
     \<not> (seg_hi s = seg_lo t \<and> seg_val s = seg_val t) \<and> canonical (t # rest)"
| "canonical _ \<longleftrightarrow> True"

lemma coalesce_merge:
  assumes "seg_ok p" "seg_ok c" "seg_end p = seg_address c" "seg_val p = seg_val c"
  defines "m \<equiv> Seg (seg_address p) (seg_size p + seg_size c) (seg_val p)"
  shows "seg_lo m = seg_lo p" "seg_hi m = seg_hi c" "seg_ok m" "seg_val m = seg_val p"
    "in_seg x m \<longleftrightarrow> in_seg x p \<or> in_seg x c"
proof -
  have touch: "seg_hi p = seg_lo c"
    using seg_end_unat [OF assms(1)] assms(3) by (simp add: seg_lo_def)
  have "unat (seg_size p + seg_size c) = unat (seg_size p) + unat (seg_size c)"
    using assms(2) touch by (intro unat_add_exact) (auto simp: seg_ok_def seg_hi_def seg_lo_def)
  then show hi: "seg_hi m = seg_hi c" using touch by (simp add: m_def seg_hi_def seg_lo_def)
  show lo: "seg_lo m = seg_lo p" and "seg_val m = seg_val p" by (simp_all add: m_def seg_lo_def)
  show "seg_ok m" using assms(1,2) touch hi lo by (auto simp: seg_ok_def)
  show "in_seg x m \<longleftrightarrow> in_seg x p \<or> in_seg x c"
    using hi lo touch assms(1,2) by (auto simp: in_seg_def seg_ok_def)
qed

lemma coalesce_merge_ok:
  assumes "segs_ok (p # c # rest)" "seg_end p = seg_address c \<and> seg_val p = seg_val c"
  shows "segs_ok (Seg (seg_address p) (seg_size p + seg_size c) (seg_val p) # rest)"
  using assms coalesce_merge(2,3) [of p c] by (auto simp: segs_ok_Cons)

lemma coalesce_from_ok:
  "segs_ok (p # segs) \<Longrightarrow>
   segs_ok (coalesce_from p segs) \<and> (\<forall>s \<in> set (coalesce_from p segs). seg_lo p \<le> seg_lo s)"
proof (induction p segs rule: coalesce_from.induct)
  case (2 p c rest)
  show ?case
  proof (cases "seg_end p = seg_address c \<and> seg_val p = seg_val c")
    case True
    from 2(1) [OF True coalesce_merge_ok [OF 2(3) True]] True show ?thesis by (simp add: seg_lo_def)
  next
    case False
    have "segs_ok (c # rest)" using 2(3) by (simp add: segs_ok_Cons)
    from 2(2) [OF False this] 2(3) False show ?thesis
      by (auto simp: segs_ok_Cons seg_ok_def)
  qed
qed simp

lemma coalesce_from_at:
  "segs_ok (p # segs) \<Longrightarrow>
   (\<exists>s \<in> set (coalesce_from p segs). in_seg x s \<and> seg_val s = v) \<longleftrightarrow>
   (\<exists>s \<in> set (p # segs). in_seg x s \<and> seg_val s = v)"
proof (induction p segs rule: coalesce_from.induct)
  case (2 p c rest)
  show ?case
  proof (cases "seg_end p = seg_address c \<and> seg_val p = seg_val c")
    case True
    have "seg_ok p" "seg_ok c" using 2(3) by (auto simp: segs_ok_Cons)
    from coalesce_merge(4,5) [OF this] 2(1) [OF True coalesce_merge_ok [OF 2(3) True]] True
    show ?thesis by auto
  next
    case False
    have "segs_ok (c # rest)" using 2(3) by (simp add: segs_ok_Cons)
    from 2(2) [OF False this] False show ?thesis by auto
  qed
qed simp

lemma coalesce_from_hd:
  "\<exists>q rest. coalesce_from p segs = q # rest \<and> seg_lo q = seg_lo p \<and> seg_val q = seg_val p"
  by (induction p segs rule: coalesce_from.induct) (auto simp: seg_lo_def)

lemma coalesce_from_canonical: "segs_ok (p # segs) \<Longrightarrow> canonical (coalesce_from p segs)"
proof (induction p segs rule: coalesce_from.induct)
  case (2 p c rest)
  show ?case
  proof (cases "seg_end p = seg_address c \<and> seg_val p = seg_val c")
    case True
    from 2(1) [OF True coalesce_merge_ok [OF 2(3) True]] True show ?thesis by simp
  next
    case False
    have ok: "segs_ok (c # rest)" "seg_ok p" using 2(3) by (auto simp: segs_ok_Cons)
    obtain q r where q: "coalesce_from c rest = q # r" "seg_lo q = seg_lo c" "seg_val q = seg_val c"
      using coalesce_from_hd [of c rest] by blast
    have "\<not> (seg_hi p = seg_lo q \<and> seg_val p = seg_val q)"
      using False q(2,3) seg_end_unat [OF ok(2)] by (auto simp: seg_lo_def unat_eq_iff)
    with 2(2) [OF False ok(1)] False q show ?thesis by auto
  qed
qed simp

lemma segs_within_Cons:
  "segs_within b e (s # segs) \<longleftrightarrow> b \<le> seg_lo s \<and> seg_hi s \<le> e \<and> segs_within b e segs"
  by (simp add: segs_within_def)

lemma coalesce_from_within:
  "segs_ok (p # segs) \<Longrightarrow> segs_within b e (p # segs) \<Longrightarrow> segs_within b e (coalesce_from p segs)"
proof (induction p segs rule: coalesce_from.induct)
  case (2 p c rest)
  have ok: "seg_ok p" "seg_ok c" "segs_ok (c # rest)" using 2(3) by (simp_all add: segs_ok_Cons)
  show ?case
  proof (cases "seg_end p = seg_address c \<and> seg_val p = seg_val c")
    case True
    have "segs_within b e (Seg (seg_address p) (seg_size p + seg_size c) (seg_val p) # rest)"
      using coalesce_merge(1,2) [OF ok(1,2)] True 2(4) by (simp add: segs_within_Cons)
    from 2(1) [OF True coalesce_merge_ok [OF 2(3) True] this] show ?thesis
      by (simp only: coalesce_from.simps if_P [OF True])
  next
    case False
    have "segs_within b e (c # rest)" using 2(4) by (simp add: segs_within_Cons)
    from 2(2) [OF False ok(3) this] 2(4) show ?thesis
      by (simp only: coalesce_from.simps if_not_P [OF False] segs_within_Cons)
  qed
qed simp

lemma coalesce_ok: "segs_ok segs \<Longrightarrow> segs_ok (coalesce segs)"
  by (cases segs) (simp_all add: coalesce_from_ok)

lemma coalesce_canonical: "segs_ok segs \<Longrightarrow> canonical (coalesce segs)"
  by (cases segs) (simp_all add: coalesce_from_canonical)

lemma coalesce_within: "segs_ok segs \<Longrightarrow> segs_within b e segs \<Longrightarrow> segs_within b e (coalesce segs)"
  by (cases segs) (simp_all add: coalesce_from_within)

lemma val_at_iff:
  "segs_ok segs \<Longrightarrow> val_at segs x = Some v \<longleftrightarrow> (\<exists>s \<in> set segs. in_seg x s \<and> seg_val s = v)"
  by (auto simp: seg_at_Some)

lemma option_eqI: "(\<And>v. a = Some v \<longleftrightarrow> b = Some v) \<Longrightarrow> a = b"
  by (metis not_Some_eq)

lemma coalesce_at: "segs_ok segs \<Longrightarrow> val_at (coalesce segs) x = val_at segs x"
proof (rule option_eqI)
  fix v
  assume ok: "segs_ok segs"
  show "val_at (coalesce segs) x = Some v \<longleftrightarrow> val_at segs x = Some v"
    unfolding val_at_iff [OF ok] val_at_iff [OF coalesce_ok [OF ok]]
    using ok by (cases segs) (simp_all add: coalesce_from_at)
qed

section \<open>Cutting a range out\<close>

text \<open>What replaces an interval when a range gets another value.\<close>

definition protect_piece :: "u64 \<Rightarrow> u64 \<Rightarrow> 'p \<Rightarrow> 'p seg \<Rightarrow> 'p seg list" where
  "protect_piece address range_end new region =
     (let region_end = seg_end region in
      if range_end \<le> seg_address region \<or> address \<ge> region_end then [region]
      else
        (if seg_address region < address
         then [Seg (seg_address region) (address - seg_address region) (seg_val region)] else []) @
        (let protected_start = max (seg_address region) address;
             protected_end = min region_end range_end
         in [Seg protected_start (protected_end - protected_start) new]) @
        (if range_end < region_end
         then [Seg range_end (region_end - range_end) (seg_val region)] else []))"

definition unmap_piece :: "u64 \<Rightarrow> u64 \<Rightarrow> 'p seg \<Rightarrow> 'p seg list" where
  "unmap_piece address range_end region =
     (let region_end = seg_end region in
      if range_end \<le> seg_address region \<or> address \<ge> region_end then [region]
      else
        (if seg_address region < address
         then [Seg (seg_address region) (address - seg_address region) (seg_val region)] else []) @
        (if range_end < region_end
         then [Seg range_end (region_end - range_end) (seg_val region)] else []))"

text \<open>The in-place variant, for intervals whose value moves with their start.\<close>

definition cut_piece :: "(u64 \<Rightarrow> 'p \<Rightarrow> 'p) \<Rightarrow> u64 \<Rightarrow> u64 \<Rightarrow> 'p seg \<Rightarrow> 'p seg list" where
  "cut_piece adv address range_end m =
     (let mapping_end = seg_end m;
          overlap_start = max address (seg_address m);
          overlap_end = min range_end mapping_end
      in if overlap_start \<ge> overlap_end then [m]
         else if overlap_start = seg_address m \<and> overlap_end = mapping_end then []
         else if overlap_start = seg_address m
         then let removed = overlap_end - seg_address m
              in [Seg overlap_end (seg_size m - removed) (adv removed (seg_val m))]
         else if overlap_end = mapping_end
         then [Seg (seg_address m) (overlap_start - seg_address m) (seg_val m)]
         else [Seg (seg_address m) (overlap_start - seg_address m) (seg_val m),
               Seg overlap_end (mapping_end - overlap_end) (adv (overlap_end - seg_address m) (seg_val m))])"

text \<open>A list of pieces of an interval, and what it has at each address.\<close>

definition pieces :: "'p seg \<Rightarrow> 'p seg list \<Rightarrow> bool" where
  "pieces s ps \<longleftrightarrow> segs_ok ps \<and> (\<forall>p \<in> set ps. seg_lo s \<le> seg_lo p \<and> seg_hi p \<le> seg_hi s)"

lemma segs_ok_concat:
  assumes "segs_ok segs" "\<And>s. s \<in> set segs \<Longrightarrow> pieces s (f s)"
  shows "segs_ok (concat (map f segs))"
  using assms
proof (induction segs)
  case (Cons s segs)
  have "seg_hi p \<le> seg_lo q" if p: "p \<in> set (f s)" and q: "t \<in> set segs" "q \<in> set (f t)" for p q t
  proof -
    have "seg_hi p \<le> seg_hi s" using Cons.prems(2) [of s] p by (simp add: pieces_def)
    also have "\<dots> \<le> seg_lo t" using Cons.prems(1) q(1) by (simp add: segs_ok_Cons)
    also have "\<dots> \<le> seg_lo q" using Cons.prems(2) [of t] q by (simp add: pieces_def)
    finally show ?thesis .
  qed
  with Cons show ?case by (auto simp: segs_ok_append segs_ok_Cons pieces_def)
qed simp

lemma segs_within_concat:
  assumes "segs_within b e segs" "\<And>s. s \<in> set segs \<Longrightarrow> pieces s (f s)"
  shows "segs_within b e (concat (map f segs))"
  using assms by (fastforce simp: segs_within_def pieces_def)

lemma in_seg_pieces: "pieces s ps \<Longrightarrow> p \<in> set ps \<Longrightarrow> in_seg x p \<Longrightarrow> in_seg x s"
  by (auto simp: pieces_def in_seg_def)

text \<open>The value after the replacement, from the value before.\<close>

lemma seg_at_concat:
  assumes ok: "segs_ok segs" and ps: "\<And>s. s \<in> set segs \<Longrightarrow> pieces s (f s)"
    and at: "\<And>s v. s \<in> set segs \<Longrightarrow> in_seg x s \<Longrightarrow>
      (\<exists>p \<in> set (f s). in_seg x p \<and> adv (x - seg_address p) (seg_val p) = v) \<longleftrightarrow>
      g (adv (x - seg_address s) (seg_val s)) = Some v"
  shows "seg_at adv (concat (map f segs)) x = Option.bind (seg_at adv segs x) g"
proof (rule option_eqI)
  fix v
  have ok': "segs_ok (concat (map f segs))" using segs_ok_concat [OF ok ps] .
  have "seg_at adv (concat (map f segs)) x = Some v \<longleftrightarrow>
      (\<exists>s \<in> set segs. in_seg x s \<and> (\<exists>p \<in> set (f s). in_seg x p \<and> adv (x - seg_address p) (seg_val p) = v))"
    unfolding seg_at_Some [OF ok'] using in_seg_pieces [OF ps] by fastforce
  also have "\<dots> \<longleftrightarrow> (\<exists>s \<in> set segs. in_seg x s \<and> g (adv (x - seg_address s) (seg_val s)) = Some v)"
    using at by blast
  also have "\<dots> \<longleftrightarrow> Option.bind (seg_at adv segs x) g = Some v"
    by (auto simp: bind_eq_Some_conv seg_at_Some [OF ok])
  finally show "seg_at adv (concat (map f segs)) x = Some v \<longleftrightarrow> Option.bind (seg_at adv segs x) g = Some v" .
qed

lemmas piece_simps = segs_ok_Cons seg_ok_def nat_of_word seg_end_unat unat_sub_exact max_def min_def
  seg_lo_def Let_def

lemma protect_piece_pieces:
  assumes "seg_ok s" "unat address < unat range_end"
  shows "pieces s (protect_piece address range_end new s)"
  using assms unfolding protect_piece_def pieces_def by (auto simp: piece_simps)

lemma protect_piece_at:
  assumes "seg_ok s" "unat address < unat range_end" "in_seg x s"
  shows "(\<exists>p \<in> set (protect_piece address range_end new s). in_seg x p \<and> seg_val p = v) \<longleftrightarrow>
    (if unat address \<le> unat x \<and> unat x < unat range_end then new else seg_val s) = v"
  using assms unfolding protect_piece_def by (auto simp: in_seg_def piece_simps)

lemma unmap_piece_pieces:
  assumes "seg_ok s" "unat address < unat range_end"
  shows "pieces s (unmap_piece address range_end s)"
  using assms unfolding unmap_piece_def pieces_def by (auto simp: piece_simps)

lemma unmap_piece_at:
  assumes "seg_ok s" "unat address < unat range_end" "in_seg x s"
  shows "(\<exists>p \<in> set (unmap_piece address range_end s). in_seg x p \<and> seg_val p = v) \<longleftrightarrow>
    \<not> (unat address \<le> unat x \<and> unat x < unat range_end) \<and> seg_val s = v"
  using assms unfolding unmap_piece_def by (auto simp: in_seg_def piece_simps)

text \<open>The four branches of the in-place cut are a prefix and a suffix, each if it is not empty.\<close>

lemma cut_piece_alt:
  assumes "seg_ok m"
  shows "cut_piece adv address range_end m =
    (let os = max address (seg_address m); oe = min range_end (seg_end m) in
     if os \<ge> oe then [m]
     else (if seg_address m < os then [Seg (seg_address m) (os - seg_address m) (seg_val m)] else []) @
          (if oe < seg_end m then [Seg oe (seg_end m - oe) (adv (oe - seg_address m) (seg_val m))] else []))"
proof -
  have "seg_size m - (oe - seg_address m) = seg_end m - oe" for oe by (simp add: seg_end_def)
  moreover have "\<not> seg_address m < max address (seg_address m) \<longleftrightarrow>
      max address (seg_address m) = seg_address m"
    by (auto simp: max_def)
  moreover have "\<not> min range_end (seg_end m) < seg_end m \<longleftrightarrow> min range_end (seg_end m) = seg_end m"
    by (auto simp: min_def)
  ultimately show ?thesis by (simp add: cut_piece_def Let_def)
qed

lemma cut_piece_pieces:
  assumes "seg_ok s" "unat address < unat range_end"
  shows "pieces s (cut_piece adv address range_end s)"
  using assms unfolding cut_piece_alt [OF assms(1)] pieces_def by (auto simp: piece_simps)

lemma cut_piece_at:
  assumes ok: "seg_ok s" and r: "unat address < unat range_end" and x: "in_seg x s"
    and adv: "\<And>a b v. adv b (adv a v) = adv (a + b) v"
  shows "(\<exists>p \<in> set (cut_piece adv address range_end s).
      in_seg x p \<and> adv (x - seg_address p) (seg_val p) = v) \<longleftrightarrow>
    \<not> (unat address \<le> unat x \<and> unat x < unat range_end) \<and> adv (x - seg_address s) (seg_val s) = v"
proof -
  have suffix: "adv (x - oe) (adv (oe - seg_address s) (seg_val s)) = adv (x - seg_address s) (seg_val s)" for oe
    by (simp add: adv)
  show ?thesis
    using ok r x unfolding cut_piece_alt [OF ok] by (auto simp: in_seg_def piece_simps suffix)
qed

text \<open>The three table-wide operations.\<close>

definition seg_protect :: "u64 \<Rightarrow> u64 \<Rightarrow> 'p \<Rightarrow> 'p seg list \<Rightarrow> 'p seg list" where
  "seg_protect address range_end new segs = concat (map (protect_piece address range_end new) segs)"

definition seg_unmap :: "u64 \<Rightarrow> u64 \<Rightarrow> 'p seg list \<Rightarrow> 'p seg list" where
  "seg_unmap address range_end segs = concat (map (unmap_piece address range_end) segs)"

definition seg_cut :: "(u64 \<Rightarrow> 'p \<Rightarrow> 'p) \<Rightarrow> u64 \<Rightarrow> u64 \<Rightarrow> 'p seg list \<Rightarrow> 'p seg list" where
  "seg_cut adv address range_end segs = concat (map (cut_piece adv address range_end) segs)"

lemma segs_ok_protect:
  "segs_ok segs \<Longrightarrow> unat a < unat e \<Longrightarrow> segs_ok (seg_protect a e new segs)"
  unfolding seg_protect_def by (intro segs_ok_concat) (auto simp: protect_piece_pieces segs_okD)

lemma segs_ok_unmap: "segs_ok segs \<Longrightarrow> unat a < unat e \<Longrightarrow> segs_ok (seg_unmap a e segs)"
  unfolding seg_unmap_def by (intro segs_ok_concat) (auto simp: unmap_piece_pieces segs_okD)

lemma segs_ok_cut: "segs_ok segs \<Longrightarrow> unat a < unat e \<Longrightarrow> segs_ok (seg_cut adv a e segs)"
  unfolding seg_cut_def by (intro segs_ok_concat) (auto simp: cut_piece_pieces segs_okD)

lemma segs_within_ops:
  assumes "segs_ok segs" "segs_within lo hi segs" "unat a < unat e"
  shows "segs_within lo hi (seg_protect a e new segs)" "segs_within lo hi (seg_unmap a e segs)"
    "segs_within lo hi (seg_cut adv a e segs)"
  unfolding seg_protect_def seg_unmap_def seg_cut_def
  using assms by (auto intro!: segs_within_concat
      simp: protect_piece_pieces unmap_piece_pieces cut_piece_pieces segs_okD)

lemma val_at_protect:
  assumes ok: "segs_ok segs" and r: "unat a < unat e"
  shows "val_at (seg_protect a e new segs) x =
    map_option (\<lambda>v. if unat a \<le> unat x \<and> unat x < unat e then new else v) (val_at segs x)"
proof -
  have "val_at (seg_protect a e new segs) x =
      Option.bind (val_at segs x) (\<lambda>v. Some (if unat a \<le> unat x \<and> unat x < unat e then new else v))"
    unfolding seg_protect_def
    by (rule seg_at_concat [OF ok])
      (use r segs_okD [OF ok] in \<open>simp_all add: protect_piece_pieces protect_piece_at\<close>)
  then show ?thesis by (cases "val_at segs x") simp_all
qed

lemma val_at_unmap:
  assumes ok: "segs_ok segs" and r: "unat a < unat e"
  shows "val_at (seg_unmap a e segs) x =
    (if unat a \<le> unat x \<and> unat x < unat e then None else val_at segs x)"
proof -
  have "val_at (seg_unmap a e segs) x =
      Option.bind (val_at segs x) (\<lambda>v. if unat a \<le> unat x \<and> unat x < unat e then None else Some v)"
    unfolding seg_unmap_def
    by (rule seg_at_concat [OF ok])
      (use r segs_okD [OF ok] in \<open>auto simp: unmap_piece_pieces unmap_piece_at\<close>)
  then show ?thesis by (cases "val_at segs x") simp_all
qed

lemma seg_at_cut:
  assumes ok: "segs_ok segs" and r: "unat a < unat e" and adv: "\<And>a b v. adv b (adv a v) = adv (a + b) v"
  shows "seg_at adv (seg_cut adv a e segs) x =
    (if unat a \<le> unat x \<and> unat x < unat e then None else seg_at adv segs x)"
proof -
  have "seg_at adv (seg_cut adv a e segs) x =
      Option.bind (seg_at adv segs x) (\<lambda>v. if unat a \<le> unat x \<and> unat x < unat e then None else Some v)"
    unfolding seg_cut_def
    by (rule seg_at_concat [OF ok])
      (use r segs_okD [OF ok] adv in \<open>auto simp: cut_piece_pieces cut_piece_at\<close>)
  then show ?thesis by (cases "seg_at adv segs x") simp_all
qed

end
