(* ===== verification/Shared_Backing.thy ===== *)
theory Shared_Backing
  imports Ordered_Map
begin

text \<open>
  The sparse page store behind shared mappings (\<open>core/memory/shared_memory_backing\<close>). A page that
  was never written, or was cleared as a whole, is absent and reads as zero. The meaning of a
  backing is the function \<open>sb_byte\<close> from offsets to bytes; reading, writing, filling and clearing
  are proved to be what they should be on it, whatever page boundaries a range crosses. The
  allocation of a page is taken to succeed.
\<close>

section \<open>Operations\<close>

abbreviation kSharedMemoryBackingPageSize :: u64 where
  "kSharedMemoryBackingPageSize \<equiv> 0x4000"

record shared_backing =
  sb_size :: u64
  sb_pages :: "(u64, u8 list) omap"

definition new_backing :: "u64 \<Rightarrow> shared_backing" where
  "new_backing size_bytes = \<lparr>sb_size = size_bytes, sb_pages = []\<rparr>"

definition sb_Contains :: "u64 \<Rightarrow> u64 \<Rightarrow> shared_backing \<Rightarrow> bool" where
  "sb_Contains offset len b \<longleftrightarrow> offset \<le> sb_size b \<and> len \<le> sb_size b - offset"

text \<open>The bytes left in the page of an offset, from that offset on.\<close>

definition page_rest :: "u64 \<Rightarrow> nat" where
  "page_rest current = unat (kSharedMemoryBackingPageSize - current mod kSharedMemoryBackingPageSize)"

lemma page_rest_unat: "page_rest c = 16384 - unat c mod 16384"
proof -
  have "unat (c mod 0x4000) = unat c mod 16384" by (simp add: unat_mod)
  moreover have "unat c mod 16384 < 16384" by simp
  ultimately show ?thesis
    unfolding page_rest_def by (subst unat_sub_exact) auto
qed

lemma page_rest_pos [simp]: "0 < page_rest c" "page_rest c \<noteq> 0"
  using mod_less_divisor [of 16384 "unat c"] by (simp_all add: page_rest_unat)

function sb_read_loop :: "shared_backing \<Rightarrow> u64 \<Rightarrow> nat \<Rightarrow> u8 list" where
  "sb_read_loop b current remaining =
     (if remaining = 0 then []
      else
        let page_index = current div kSharedMemoryBackingPageSize;
            page_offset = current mod kSharedMemoryBackingPageSize;
            chunk = min remaining (page_rest current)
        in (case om_find (sb_pages b) page_index of
              None \<Rightarrow> replicate chunk 0
            | Some page \<Rightarrow> take chunk (drop (unat page_offset) page)) @
           sb_read_loop b (current + of_nat chunk) (remaining - chunk))"
  by pat_completeness auto
termination by (relation "measure (\<lambda>(b, c, n). n)") (auto simp: min_def)

declare sb_read_loop.simps [simp del]

definition sb_Read :: "u64 \<Rightarrow> nat \<Rightarrow> shared_backing \<Rightarrow> u8 list option" where
  "sb_Read offset len b =
     (if \<not> sb_Contains offset (of_nat len) b then None else Some (sb_read_loop b offset len))"

definition sb_ensure_page :: "u64 \<Rightarrow> shared_backing \<Rightarrow> shared_backing" where
  "sb_ensure_page page b =
     (case om_find (sb_pages b) page of
        None \<Rightarrow> b\<lparr>sb_pages := om_emplace page (replicate 16384 0) (sb_pages b)\<rparr>
      | Some _ \<Rightarrow> b)"

definition sb_EnsurePagesLocked :: "u64 \<Rightarrow> u64 \<Rightarrow> shared_backing \<Rightarrow> shared_backing" where
  "sb_EnsurePagesLocked offset len b =
     (if len = 0 then b
      else
        let first_page = offset div kSharedMemoryBackingPageSize;
            last_page = (offset + len - 1) div kSharedMemoryBackingPageSize
        in fold (\<lambda>page. sb_ensure_page (of_nat page)) [unat first_page..<Suc (unat last_page)] b)"

function sb_write_loop :: "u64 \<Rightarrow> u8 list \<Rightarrow> shared_backing \<Rightarrow> shared_backing" where
  "sb_write_loop current source b =
     (if source = [] then b
      else
        let page_index = current div kSharedMemoryBackingPageSize;
            page_offset = current mod kSharedMemoryBackingPageSize;
            chunk = min (length source) (page_rest current)
        in sb_write_loop (current + of_nat chunk) (drop chunk source)
             (b\<lparr>sb_pages := om_update page_index
                  (\<lambda>page. overwrite page (unat page_offset) (take chunk source)) (sb_pages b)\<rparr>))"
  by pat_completeness auto
termination by (relation "measure (\<lambda>(c, s, b). length s)") (auto simp: min_def)

declare sb_write_loop.simps [simp del]

definition sb_Write :: "u64 \<Rightarrow> u8 list \<Rightarrow> shared_backing \<Rightarrow> bool \<times> shared_backing" where
  "sb_Write offset source b =
     (if \<not> sb_Contains offset (of_nat (length source)) b then (False, b)
      else (True, sb_write_loop offset source
                    (sb_EnsurePagesLocked offset (of_nat (length source)) b)))"

definition sb_clear_page :: "u64 \<Rightarrow> u64 \<Rightarrow> u64 \<times> u8 list \<Rightarrow> (u64 \<times> u8 list) list" where
  "sb_clear_page offset end_offset = (\<lambda>(index, page).
     let page_start = index * kSharedMemoryBackingPageSize;
         page_end = page_start + kSharedMemoryBackingPageSize;
         overlap_start = max offset page_start;
         overlap_end = min end_offset page_end
     in if overlap_start \<ge> overlap_end then [(index, page)]
        else if overlap_start = page_start \<and> overlap_end = page_end then []
        else [(index, overwrite page (unat (overlap_start - page_start))
                        (replicate (unat (overlap_end - overlap_start)) 0))])"

definition sb_Clear :: "u64 \<Rightarrow> u64 \<Rightarrow> shared_backing \<Rightarrow> shared_backing" where
  "sb_Clear offset len b =
     (if \<not> sb_Contains offset len b \<or> len = 0 then b
      else b\<lparr>sb_pages := concat (map (sb_clear_page offset (offset + len)) (sb_pages b))\<rparr>)"

function sb_fill_loop :: "u64 \<Rightarrow> nat \<Rightarrow> u8 \<Rightarrow> shared_backing \<Rightarrow> shared_backing" where
  "sb_fill_loop current remaining v b =
     (if remaining = 0 then b
      else
        let page_index = current div kSharedMemoryBackingPageSize;
            page_offset = current mod kSharedMemoryBackingPageSize;
            chunk = min remaining (page_rest current)
        in sb_fill_loop (current + of_nat chunk) (remaining - chunk) v
             (b\<lparr>sb_pages := om_update page_index
                  (\<lambda>page. overwrite page (unat page_offset) (replicate chunk v)) (sb_pages b)\<rparr>))"
  by pat_completeness auto
termination by (relation "measure (\<lambda>(c, n, v, b). n)") (auto simp: min_def)

declare sb_fill_loop.simps [simp del]

definition sb_Fill :: "u64 \<Rightarrow> u64 \<Rightarrow> u8 \<Rightarrow> shared_backing \<Rightarrow> bool \<times> shared_backing" where
  "sb_Fill offset len v b =
     (if \<not> sb_Contains offset len b then (False, b)
      else if v = 0 then (True, sb_Clear offset len b)
      else (True, sb_fill_loop offset (unat len) v (sb_EnsurePagesLocked offset len b)))"

section \<open>Meaning\<close>

definition sb_byte :: "shared_backing \<Rightarrow> u64 \<Rightarrow> u8" where
  "sb_byte b off =
     (case om_find (sb_pages b) (off div kSharedMemoryBackingPageSize) of
        None \<Rightarrow> 0
      | Some page \<Rightarrow> page ! unat (off mod kSharedMemoryBackingPageSize))"

text \<open>
  Pages are whole. The size stays one page below the end of the 64-bit range, so that the
  end of a page is always representable.
\<close>

definition sb_ok :: "shared_backing \<Rightarrow> bool" where
  "sb_ok b \<longleftrightarrow>
     om_ok (sb_pages b) \<and> unat (sb_size b) + 16384 \<le> 18446744073709551616 \<and>
     (\<forall>i page. om_find (sb_pages b) i = Some page \<longrightarrow>
        length page = 16384 \<and> unat i * 16384 < unat (sb_size b))"

lemma sb_Contains_unat:
  "sb_Contains offset len b \<longleftrightarrow> unat offset + unat len \<le> unat (sb_size b)"
proof (cases "offset \<le> sb_size b")
  case True
  then have "unat (sb_size b - offset) = unat (sb_size b) - unat offset"
    by (intro unat_sub_exact) (simp add: word_le_nat_alt)
  with True show ?thesis by (auto simp: sb_Contains_def word_le_nat_alt)
qed (auto simp: sb_Contains_def word_le_nat_alt)

section \<open>Pages\<close>

lemma unat_page: "unat ((c :: u64) div 0x4000) = unat c div 16384" "unat (c mod 0x4000) = unat c mod 16384"
  by (simp_all add: unat_div unat_mod)

lemma page_eq_iff: "(c :: u64) div 0x4000 = d div 0x4000 \<longleftrightarrow> unat c div 16384 = unat d div 16384"
  by (simp add: unat_eq_iff unat_page)

lemma page_div_mod: "unat (x :: u64) = unat x div 16384 * 16384 + unat x mod 16384 \<and> unat x mod 16384 < 16384"
  by simp

lemma unat_add_of_nat:
  "unat (c :: u64) + i < 18446744073709551616 \<Longrightarrow> unat (c + of_nat i) = unat c + i"
  by (subst unat_add_exact) (simp_all add: unat_of_nat)

lemma nat_same_page:
  "i < 16384 - u mod 16384 \<Longrightarrow> (u + i) div 16384 = u div (16384::nat) \<and> (u + i) mod 16384 = u mod 16384 + i"
proof -
  assume i: "i < 16384 - u mod 16384"
  define q r where "q = u div 16384" and "r = u mod 16384"
  have u: "u = r + q * 16384" by (simp add: q_def r_def)
  have "r + i < 16384" using i by (simp add: r_def)
  then have "((r + i) + q * 16384) div 16384 = q" "((r + i) + q * 16384) mod 16384 = r + i" by simp_all
  moreover have "u + i = (r + i) + q * 16384" using u by linarith
  ultimately have "(u + i) div 16384 = q \<and> (u + i) mod 16384 = r + i" by (simp only:)
  then show ?thesis unfolding q_def r_def .
qed

lemma same_page:
  assumes "unat c + i < 18446744073709551616" "i < page_rest c"
  shows "(c + of_nat i) div 0x4000 = c div 0x4000" "unat ((c + of_nat i) mod 0x4000) = unat (c mod 0x4000) + i"
  using nat_same_page [of i "unat c"] assms(2) unat_add_of_nat [OF assms(1)]
  by (simp_all add: page_eq_iff page_rest_unat unat_page)

lemma page_room: "unat (c mod 0x4000) \<le> 16384" "i \<le> page_rest c \<Longrightarrow> unat (c mod 0x4000) + i \<le> 16384"
  using mod_less_divisor [of 16384 "unat c"] by (simp_all add: unat_page page_rest_unat)

lemma sb_read_loop_bytes:
  "sb_ok b \<Longrightarrow> unat c + n < 18446744073709551616 \<Longrightarrow>
   sb_read_loop b c n = map (\<lambda>i. sb_byte b (c + of_nat i)) [0..<n]"
proof (induction b c n rule: sb_read_loop.induct)
  case (1 b c n)
  show ?case
  proof (cases "n = 0")
    case True
    then show ?thesis by (simp add: sb_read_loop.simps)
  next
    case False
    let ?k = "min n (page_rest c)"
    have part: "(case om_find (sb_pages b) (c div 0x4000) of
          None \<Rightarrow> replicate ?k 0
        | Some page \<Rightarrow> take ?k (drop (unat (c mod 0x4000)) page)) =
        map (\<lambda>i. sb_byte b (c + of_nat i)) [0..<?k]"
    proof (rule nth_equalityI)
      have "unat (c mod 0x4000) + ?k \<le> 16384" by (simp add: unat_page page_rest_unat)
      with 1(2) show "length (case om_find (sb_pages b) (c div 0x4000) of
          None \<Rightarrow> replicate ?k 0
        | Some page \<Rightarrow> take ?k (drop (unat (c mod 0x4000)) page)) =
        length (map (\<lambda>i. sb_byte b (c + of_nat i)) [0..<?k])"
        by (auto simp: sb_ok_def split: option.splits)
    next
      fix i
      assume "i < length (case om_find (sb_pages b) (c div 0x4000) of
          None \<Rightarrow> replicate ?k 0
        | Some page \<Rightarrow> take ?k (drop (unat (c mod 0x4000)) page))"
      then have i: "i < ?k" by (auto split: option.splits)
      with 1(3) have "unat c + i < 18446744073709551616" "i < page_rest c" by simp_all
      with i 1(2) same_page [OF this] show "(case om_find (sb_pages b) (c div 0x4000) of
          None \<Rightarrow> replicate ?k 0
        | Some page \<Rightarrow> take ?k (drop (unat (c mod 0x4000)) page)) ! i =
        map (\<lambda>i. sb_byte b (c + of_nat i)) [0..<?k] ! i"
        by (auto simp: sb_byte_def sb_ok_def page_room split: option.splits)
    qed
    have "unat (c + of_nat ?k) + (n - ?k) < 18446744073709551616"
      using 1(3) unat_add_of_nat [of c ?k] by simp
    from 1(1) [OF False refl refl refl 1(2) this]
    have rest: "sb_read_loop b (c + of_nat ?k) (n - ?k) =
        map (\<lambda>i. sb_byte b (c + of_nat i)) [?k..<n]"
      using map_add_upt [of ?k "n - ?k", symmetric] by (simp add: o_def ac_simps)
    have "[0..<n] = [0..<?k] @ [?k..<n]" using upt_add_eq_append [of 0 ?k "n - ?k"] by simp
    then show ?thesis
      using False part rest by (subst sb_read_loop.simps) (simp add: Let_def)
  qed
qed

text \<open>Writing into one page that is present.\<close>

lemma sb_byte_page_write:
  assumes ok: "sb_ok b" and page: "om_find (sb_pages b) (c div 0x4000) \<noteq> None"
    and len: "length xs \<le> page_rest c"
  defines "b' \<equiv> b\<lparr>sb_pages := om_update (c div 0x4000)
    (\<lambda>page. overwrite page (unat (c mod 0x4000)) xs) (sb_pages b)\<rparr>"
  shows "sb_byte b' x =
      (if unat c \<le> unat x \<and> unat x < unat c + length xs then xs ! (unat x - unat c) else sb_byte b x)"
    and "sb_ok b'"
proof -
  from page obtain p where p: "om_find (sb_pages b) (c div 0x4000) = Some p" by blast
  then have lp: "length p = 16384" using ok by (simp add: sb_ok_def)
  have room: "unat c mod 16384 + length xs \<le> 16384" using len mod_less_divisor [of 16384 "unat c"] by (simp add: page_rest_unat)
  have "unat c div 16384 * 16384 < unat (sb_size b)"
    using ok p by (auto simp: sb_ok_def simp flip: unat_page)
  then show "sb_ok b'"
    using ok room by (auto simp: sb_ok_def b'_def om_find_update unat_page split: if_splits)
  show "sb_byte b' x =
      (if unat c \<le> unat x \<and> unat x < unat c + length xs then xs ! (unat x - unat c) else sb_byte b x)"
  proof (cases "x div 0x4000 = c div 0x4000")
    case False
    then have "unat x div 16384 < unat c div 16384 \<or> unat c div 16384 < unat x div 16384"
      unfolding page_eq_iff by linarith
    then have "\<not> (unat c \<le> unat x \<and> unat x < unat c + length xs)"
      using room page_div_mod [of x] page_div_mod [of c] by linarith
    with False show ?thesis by (auto simp: sb_byte_def b'_def om_find_update)
  next
    case True
    then have same: "unat x div 16384 = unat c div 16384" by (simp add: page_eq_iff)
    then have "unat c mod 16384 \<le> unat x mod 16384 \<and> unat x mod 16384 < unat c mod 16384 + length xs \<longleftrightarrow>
        unat c \<le> unat x \<and> unat x < unat c + length xs"
      "unat x mod 16384 - unat c mod 16384 = unat x - unat c"
      using page_div_mod [of x] page_div_mod [of c] by linarith+
    with True p lp room show ?thesis
      by (simp add: sb_byte_def b'_def om_find_update unat_page nth_overwrite)
  qed
qed

section \<open>Writing and filling\<close>

definition pages_present :: "shared_backing \<Rightarrow> u64 \<Rightarrow> nat \<Rightarrow> bool" where
  "pages_present b c n \<longleftrightarrow>
     (\<forall>x. unat c \<le> unat x \<and> unat x < unat c + n \<longrightarrow> om_find (sb_pages b) (x div 0x4000) \<noteq> None)"

lemma pages_present_update [simp]:
  "pages_present (b\<lparr>sb_pages := om_update i f (sb_pages b)\<rparr>) c n = pages_present b c n"
  by (auto simp: pages_present_def om_find_update)

lemma sb_write_loop_bytes:
  "sb_ok b \<Longrightarrow> unat c + length xs < 18446744073709551616 \<Longrightarrow> pages_present b c (length xs) \<Longrightarrow>
   sb_ok (sb_write_loop c xs b) \<and> sb_size (sb_write_loop c xs b) = sb_size b \<and>
   (\<forall>x. sb_byte (sb_write_loop c xs b) x =
     (if unat c \<le> unat x \<and> unat x < unat c + length xs then xs ! (unat x - unat c) else sb_byte b x))"
proof (induction c xs b rule: sb_write_loop.induct)
  case (1 c xs b)
  show ?case
  proof (cases "xs = []")
    case True
    with 1(2) show ?thesis by (auto simp: sb_write_loop.simps)
  next
    case False
    let ?k = "min (length xs) (page_rest c)"
    let ?b = "b\<lparr>sb_pages := om_update (c div 0x4000)
      (\<lambda>page. overwrite page (unat (c mod 0x4000)) (take ?k xs)) (sb_pages b)\<rparr>"
    have "om_find (sb_pages b) (c div 0x4000) \<noteq> None"
      using 1(4) False by (simp add: pages_present_def)
    note one = sb_byte_page_write [OF 1(2) this, of "take ?k xs"]
    have c': "unat (c + of_nat ?k) = unat c + ?k" using 1(3) by (intro unat_add_of_nat) simp
    have "unat (c + of_nat ?k) + length (drop ?k xs) < 18446744073709551616"
      unfolding c' using 1(3) by simp
    moreover have "pages_present ?b (c + of_nat ?k) (length (drop ?k xs))"
      using 1(4) c' unfolding pages_present_update by (auto simp: pages_present_def)
    ultimately have IH: "sb_ok (sb_write_loop (c + of_nat ?k) (drop ?k xs) ?b)"
      "sb_size (sb_write_loop (c + of_nat ?k) (drop ?k xs) ?b) = sb_size b"
      "sb_byte (sb_write_loop (c + of_nat ?k) (drop ?k xs) ?b) x =
        (if unat (c + of_nat ?k) \<le> unat x \<and> unat x < unat (c + of_nat ?k) + length (drop ?k xs)
         then drop ?k xs ! (unat x - unat (c + of_nat ?k)) else sb_byte ?b x)" for x
      using 1(1) [OF False refl refl refl] one(2) by simp_all
    have e: "sb_write_loop c xs b = sb_write_loop (c + of_nat ?k) (drop ?k xs) ?b"
      using False by (subst sb_write_loop.simps) (simp add: Let_def)
    define k where "k = ?k"
    have k: "k \<le> length xs" "k \<le> page_rest c" by (simp_all add: k_def)
    have "sb_byte (sb_write_loop c xs b) x =
        (if unat c \<le> unat x \<and> unat x < unat c + length xs then xs ! (unat x - unat c) else sb_byte b x)" for x
    proof (cases "unat x < unat c + k")
      case True
      with k one(1) [of x] show ?thesis unfolding e IH(3) c' by (auto simp flip: k_def)
    next
      case False
      with k one(1) [of x] show ?thesis unfolding e IH(3) c' by (auto simp flip: k_def)
    qed
    with IH(1,2) show ?thesis unfolding e by blast
  qed
qed

lemma sb_ensure_page_spec:
  assumes "sb_ok b" "unat p * 16384 < unat (sb_size b)"
  shows "sb_ok (sb_ensure_page p b)" "sb_size (sb_ensure_page p b) = sb_size b"
    "sb_byte (sb_ensure_page p b) x = sb_byte b x"
    "om_find (sb_pages (sb_ensure_page p b)) p \<noteq> None"
    "om_find (sb_pages b) q \<noteq> None \<Longrightarrow> om_find (sb_pages (sb_ensure_page p b)) q \<noteq> None"
proof -
  have "unat (x mod 0x4000) < 16384" by (simp add: unat_page)
  then show "sb_byte (sb_ensure_page p b) x = sb_byte b x"
    by (auto simp: sb_byte_def sb_ensure_page_def om_find_emplace split: option.splits)
qed (use assms in \<open>auto simp: sb_ensure_page_def sb_ok_def om_find_emplace split: option.splits\<close>)

lemma sb_ensure_pages_fold:
  "sb_ok b \<Longrightarrow> \<forall>p \<in> set ps. p * 16384 < unat (sb_size b) \<Longrightarrow>
   sb_ok (fold (\<lambda>p. sb_ensure_page (of_nat p)) ps b) \<and>
   sb_size (fold (\<lambda>p. sb_ensure_page (of_nat p)) ps b) = sb_size b \<and>
   (\<forall>x. sb_byte (fold (\<lambda>p. sb_ensure_page (of_nat p)) ps b) x = sb_byte b x) \<and>
   (\<forall>q. om_find (sb_pages b) q \<noteq> None \<or> (\<exists>p \<in> set ps. q = of_nat p) \<longrightarrow>
      om_find (sb_pages (fold (\<lambda>p. sb_ensure_page (of_nat p)) ps b)) q \<noteq> None)"
proof (induction ps arbitrary: b)
  case (Cons p ps)
  have "unat (of_nat p :: u64) * 16384 < unat (sb_size b)"
    using Cons.prems(2) unat_u64_less [of "sb_size b"] by (simp add: unat_of_nat)
  note one = sb_ensure_page_spec [OF Cons.prems(1) this]
  show ?case
    using Cons.IH [OF one(1)] Cons.prems(2) one(2-5) by auto
qed simp

lemma sb_EnsurePagesLocked_spec:
  assumes ok: "sb_ok b" and r: "unat offset + unat len \<le> unat (sb_size b)"
  shows "sb_ok (sb_EnsurePagesLocked offset len b)"
    "sb_size (sb_EnsurePagesLocked offset len b) = sb_size b"
    "sb_byte (sb_EnsurePagesLocked offset len b) x = sb_byte b x"
    "pages_present (sb_EnsurePagesLocked offset len b) offset (unat len)"
proof -
  let ?ps = "[unat (offset div 0x4000)..<Suc (unat ((offset + len - 1) div 0x4000))]"
  have all: "sb_ok (sb_EnsurePagesLocked offset len b) \<and>
    sb_size (sb_EnsurePagesLocked offset len b) = sb_size b \<and>
    (\<forall>x. sb_byte (sb_EnsurePagesLocked offset len b) x = sb_byte b x) \<and>
    pages_present (sb_EnsurePagesLocked offset len b) offset (unat len)"
  proof (cases "len = 0")
    case True
    with ok show ?thesis by (auto simp: sb_EnsurePagesLocked_def pages_present_def)
  next
    case False
    then have l: "0 < unat len" by (simp add: unat_gt_0)
    have sum: "unat (offset + len) = unat offset + unat len"
      using r unat_u64_less [of "sb_size b"] by (intro unat_add_exact) linarith
    then have lastu: "unat (offset + len - 1) = unat offset + unat len - 1"
      using l by (subst unat_sub_exact) auto
    then have last: "unat ((offset + len - 1) div 0x4000) = (unat offset + unat len - 1) div 16384"
      by (simp only: unat_page)
    have "p * 16384 < unat (sb_size b)" if "p \<in> set ?ps" for p
    proof -
      have "p \<le> (unat offset + unat len - 1) div 16384" using that unfolding last by (auto simp del: upt_Suc)
      then have "p * 16384 \<le> unat offset + unat len - 1" by (simp add: less_eq_div_iff_mult_less_eq)
      with r l show ?thesis by linarith
    qed
    note f = sb_ensure_pages_fold [OF ok, of ?ps]
    have mem: "\<exists>p \<in> set ?ps. x div 0x4000 = of_nat p"
      if "unat offset \<le> unat x \<and> unat x < unat offset + unat len" for x :: u64
    proof
      show "x div 0x4000 = of_nat (unat (x div 0x4000))" by simp
      have "unat offset div 16384 \<le> unat x div 16384" "unat x div 16384 \<le> (unat offset + unat len - 1) div 16384"
        using that by (auto intro: div_le_mono)
      then show "unat (x div 0x4000) \<in> set ?ps"
        by (simp only: set_upt atLeastLessThan_iff lastu unat_page less_Suc_eq_le simp_thms)
    qed
    show ?thesis
      using f \<open>\<And>p. p \<in> set ?ps \<Longrightarrow> p * 16384 < unat (sb_size b)\<close> mem False
      by (auto simp: sb_EnsurePagesLocked_def Let_def pages_present_def simp del: upt_Suc)
  qed
  then show "sb_ok (sb_EnsurePagesLocked offset len b)"
    "sb_size (sb_EnsurePagesLocked offset len b) = sb_size b"
    "sb_byte (sb_EnsurePagesLocked offset len b) x = sb_byte b x"
    "pages_present (sb_EnsurePagesLocked offset len b) offset (unat len)" by blast+
qed

lemma sb_fill_loop_write: "sb_fill_loop c n v b = sb_write_loop c (replicate n v) b"
proof (induction c n v b rule: sb_fill_loop.induct)
  case (1 c n v b)
  then show ?case
    by (subst sb_fill_loop.simps, subst sb_write_loop.simps)
      (simp add: Let_def take_replicate min.commute)
qed

section \<open>Clearing\<close>

lemma om_find_concat:
  assumes "om_ok m" "\<And>k v. (k, v) \<in> set m \<Longrightarrow> fst ` set (f (k, v)) \<subseteq> {k}"
  shows "om_find (concat (map f m)) k = Option.bind (om_find m k) (\<lambda>v. om_find (f (k, v)) k)"
  using assms
proof (induction m)
  case (Cons p m)
  obtain j v where p: "p = (j, v)" by fastforce
  have IH: "om_find (concat (map f m)) k = Option.bind (om_find m k) (\<lambda>v. om_find (f (k, v)) k)"
    using Cons by (auto simp: om_ok_def)
  have app: "om_find (xs @ ys) k = (case om_find xs k of None \<Rightarrow> om_find ys k | Some v \<Rightarrow> Some v)" for xs ys k
    by (auto simp: om_find_def map_add_def split: option.split)
  show ?case
  proof (cases "k = j")
    case True
    have "om_find m k = None" using Cons.prems(1) True by (auto simp: p om_ok_Cons om_find_None_iff)
    with True IH show ?thesis by (simp add: p app om_find_Cons split: option.splits)
  next
    case False
    have "om_find (f (j, v)) k = None"
      using Cons.prems(2) [of j v] False by (auto simp: p om_find_None_iff om_keys_def)
    with False IH show ?thesis by (simp add: p app om_find_Cons)
  qed
qed simp

lemma om_ok_concat:
  assumes "om_ok m" "\<And>k v. (k, v) \<in> set m \<Longrightarrow> f (k, v) = [] \<or> (\<exists>v'. f (k, v) = [(k, v')])"
  shows "om_ok (concat (map f m))"
  using assms
proof (induction m)
  case (Cons p m)
  obtain j v where p: "p = (j, v)" by fastforce
  have sub: "om_keys (concat (map f m)) \<subseteq> om_keys m"
  proof
    fix x
    assume "x \<in> om_keys (concat (map f m))"
    then obtain i w q where q: "(i, w) \<in> set m" "q \<in> set (f (i, w))" "x = fst q"
      by (auto simp: om_keys_def)
    with Cons.prems(2) [of i w] show "x \<in> om_keys m" by (force simp: om_keys_def)
  qed
  have "om_ok (concat (map f m))" using Cons by (auto simp: om_ok_def)
  moreover have "\<forall>x \<in> om_keys (concat (map f m)). j < x"
    using Cons.prems(1) sub unfolding p om_ok_Cons by blast
  ultimately show ?case using Cons.prems(2) [of j v] by (auto simp: p om_ok_Cons)
qed simp

lemma sb_clear_page_shape:
  "sb_clear_page offset e (i, page) = [] \<or> (\<exists>page'. sb_clear_page offset e (i, page) = [(i, page')])"
  by (simp add: sb_clear_page_def Let_def)

text \<open>What one page holds after the clearing, for an index whose page end is representable.\<close>

lemma sb_clear_page_byte:
  fixes x :: u64
  assumes i: "unat i * 16384 + 16384 \<le> 18446744073709551615" and page: "length page = 16384"
    and r: "unat offset < unat e" and x: "unat x div 16384 = unat i"
  shows "(case om_find (sb_clear_page offset e (i, page)) i of None \<Rightarrow> 0 | Some p \<Rightarrow> p ! (unat x mod 16384)) =
      (if unat offset \<le> unat x \<and> unat x < unat e then 0 else page ! (unat x mod 16384))"
    and "om_find (sb_clear_page offset e (i, page)) i = Some p \<Longrightarrow> length p = 16384"
proof -
  have st: "unat (i * 0x4000) = unat i * 16384" using i by (simp add: unat_word_ariths)
  then have en: "unat (i * 0x4000 + 0x4000) = unat i * 16384 + 16384" using i by (subst unat_add_exact) simp_all
  have xs: "unat x = unat i * 16384 + unat x mod 16384" using page_div_mod [of x] x by simp
  have xm: "unat x mod 16384 < 16384" by simp
  note facts = st en page r
  show "om_find (sb_clear_page offset e (i, page)) i = Some p \<Longrightarrow> length p = 16384"
    using facts by (auto simp: sb_clear_page_def Let_def nat_of_word max_def min_def unat_sub_exact
        om_find_Cons split: if_splits)
  show "(case om_find (sb_clear_page offset e (i, page)) i of None \<Rightarrow> 0 | Some p \<Rightarrow> p ! (unat x mod 16384)) =
      (if unat offset \<le> unat x \<and> unat x < unat e then 0 else page ! (unat x mod 16384))"
    using facts xs xm
    by (auto simp: sb_clear_page_def Let_def nat_of_word max_def min_def unat_sub_exact
        om_find_Cons nth_overwrite unat_eq_iff)
qed

lemma sb_Clear_spec:
  assumes ok: "sb_ok b" and r: "unat offset + unat len \<le> unat (sb_size b)"
  shows "sb_ok (sb_Clear offset len b)" "sb_size (sb_Clear offset len b) = sb_size b"
    "sb_byte (sb_Clear offset len b) x =
      (if unat offset \<le> unat x \<and> unat x < unat offset + unat len then 0 else sb_byte b x)"
proof -
  show "sb_size (sb_Clear offset len b) = sb_size b" by (simp add: sb_Clear_def)
  have "sb_ok (sb_Clear offset len b) \<and> sb_byte (sb_Clear offset len b) x =
      (if unat offset \<le> unat x \<and> unat x < unat offset + unat len then 0 else sb_byte b x)"
  proof (cases "len = 0")
    case True
    with ok show ?thesis by (auto simp: sb_Clear_def)
  next
    case False
    have e: "unat (offset + len) = unat offset + unat len"
      using r unat_u64_less [of "sb_size b"] by (intro unat_add_exact) linarith
    have lt: "unat offset < unat (offset + len)" using False by (simp add: e unat_gt_0)
    let ?f = "sb_clear_page offset (offset + len)"
    let ?b = "b\<lparr>sb_pages := concat (map ?f (sb_pages b))\<rparr>"
    have b: "sb_Clear offset len b = ?b"
      using False r by (simp add: sb_Clear_def sb_Contains_unat)
    have omok: "om_ok (sb_pages b)" using ok by (simp add: sb_ok_def)
    have keys: "fst ` set (?f (i, page)) \<subseteq> {i}" for i page
      using sb_clear_page_shape [of offset "offset + len" i page] by auto
    have find: "om_find (sb_pages ?b) i =
        Option.bind (om_find (sb_pages b) i) (\<lambda>page. om_find (?f (i, page)) i)" for i
      using om_find_concat [OF omok keys, of i] by simp
    have bound: "unat i * 16384 + 16384 \<le> 18446744073709551615" "length page = 16384"
      if "om_find (sb_pages b) i = Some page" for i page
      using that ok by (force simp: sb_ok_def)+
    have "om_ok (sb_pages ?b)"
      using om_ok_concat [OF omok sb_clear_page_shape] by simp
    moreover have "length page = 16384 \<and> unat i * 16384 < unat (sb_size b)"
      if p: "om_find (sb_pages ?b) i = Some page" for i page
    proof -
      from p find obtain q where q: "om_find (sb_pages b) i = Some q" "om_find (?f (i, q)) i = Some page"
        by (auto simp: bind_eq_Some_conv)
      have "unat ((i * 0x4000) :: u64) div 16384 = unat i" using bound(1) [OF q(1)] by (simp add: unat_word_ariths)
      from sb_clear_page_byte(2) [OF bound [OF q(1)] lt this q(2)] q(1) ok show ?thesis by (simp add: sb_ok_def)
    qed
    ultimately have "sb_ok ?b" using ok by (simp add: sb_ok_def)
    moreover have "sb_byte ?b x =
      (if unat offset \<le> unat x \<and> unat x < unat offset + unat len then 0 else sb_byte b x)"
    proof (cases "om_find (sb_pages b) (x div 0x4000)")
      case None
      then show ?thesis using find [of "x div 0x4000"] by (simp add: sb_byte_def)
    next
      case (Some page)
      have "unat x div 16384 = unat (x div 0x4000)" by (simp add: unat_page)
      from sb_clear_page_byte(1) [OF bound [OF Some] lt this] Some find [of "x div 0x4000"] show ?thesis
        by (simp add: sb_byte_def unat_page e cong: option.case_cong)
    qed
    ultimately show ?thesis unfolding b by blast
  qed
  then show "sb_ok (sb_Clear offset len b)" "sb_byte (sb_Clear offset len b) x =
      (if unat offset \<le> unat x \<and> unat x < unat offset + unat len then 0 else sb_byte b x)" by blast+
qed

section \<open>The four operations\<close>

lemma sb_Read_bytes:
  assumes "sb_ok b" "unat offset + n \<le> unat (sb_size b)"
  shows "sb_Read offset n b = Some (map (\<lambda>i. sb_byte b (offset + of_nat i)) [0..<n])"
proof -
  have n: "n < 18446744073709551616" using assms(2) unat_u64_less [of "sb_size b"] by linarith
  then have "sb_Contains offset (of_nat n) b" using assms(2) by (simp add: sb_Contains_unat unat_of_nat)
  then show ?thesis
    using sb_read_loop_bytes [OF assms(1), of offset n] assms(2) unat_u64_less [of "sb_size b"]
    by (simp add: sb_Read_def)
qed

lemma sb_Write_bytes:
  assumes ok: "sb_ok b" and r: "unat offset + length xs \<le> unat (sb_size b)"
  obtains b' where "sb_Write offset xs b = (True, b')" "sb_ok b'" "sb_size b' = sb_size b"
    "\<And>x. sb_byte b' x = (if unat offset \<le> unat x \<and> unat x < unat offset + length xs
        then xs ! (unat x - unat offset) else sb_byte b x)"
proof -
  have lt: "unat offset + length xs < 18446744073709551616"
    using r unat_u64_less [of "sb_size b"] by linarith
  have n: "unat (of_nat (length xs) :: u64) = length xs"
    using lt by (simp add: unat_of_nat)
  have r': "unat offset + unat (of_nat (length xs) :: u64) \<le> unat (sb_size b)" using r n by simp
  note en = sb_EnsurePagesLocked_spec [OF ok r', unfolded n]
  note wr = sb_write_loop_bytes [OF en(1) lt en(4)]
  show thesis
    by (rule that [of "sb_write_loop offset xs (sb_EnsurePagesLocked offset (of_nat (length xs)) b)"])
      (use r' wr en(2,3) in \<open>simp_all add: sb_Write_def sb_Contains_unat\<close>)
qed

lemma sb_Fill_bytes:
  assumes ok: "sb_ok b" and r: "unat offset + unat len \<le> unat (sb_size b)"
  obtains b' where "sb_Fill offset len v b = (True, b')" "sb_ok b'" "sb_size b' = sb_size b"
    "\<And>x. sb_byte b' x = (if unat offset \<le> unat x \<and> unat x < unat offset + unat len
        then v else sb_byte b x)"
proof (cases "v = 0")
  case True
  then show thesis
    using that [of "sb_Clear offset len b"] sb_Clear_spec [OF ok r] r
    by (simp add: sb_Fill_def sb_Contains_unat)
next
  case False
  have lt: "unat offset + length (replicate (unat len) v) < 18446744073709551616"
    using r unat_u64_less [of "sb_size b"] by simp
  note en = sb_EnsurePagesLocked_spec [OF ok r]
  note wr = sb_write_loop_bytes [OF en(1) lt]
  show thesis
    by (rule that [of "sb_fill_loop offset (unat len) v (sb_EnsurePagesLocked offset len b)"])
      (use False r wr en in \<open>auto simp: sb_Fill_def sb_Contains_unat sb_fill_loop_write\<close>)
qed

lemma new_backing_ok: "unat n + 16384 \<le> 18446744073709551616 \<Longrightarrow> sb_ok (new_backing n)"
  by (simp add: sb_ok_def new_backing_def)

section \<open>Properties\<close>

text \<open>
  C20: A shared backing behaves as an array of its size whose bytes are zero until they are written,
  although only the touched pages exist: a write changes exactly the written bytes, a fill exactly
  the filled ones, with zero (which drops whole pages) as with any other value, and a read of any
  range afterwards returns these bytes.
\<close>

theorem backing_is_byte_array:
  assumes "sb_ok b" "unat offset + length xs \<le> unat (sb_size b)"
    "unat start + unat len \<le> unat (sb_size b)" "unat first + n \<le> unat (sb_size b)"
  shows "\<exists>b1 b2. sb_Write offset xs b = (True, b1) \<and> sb_Fill start len v b1 = (True, b2) \<and> sb_ok b2 \<and>
    sb_Read first n b2 = Some (map (\<lambda>i. let x = unat first + i in
      if unat start \<le> x \<and> x < unat start + unat len then v
      else if unat offset \<le> x \<and> x < unat offset + length xs then xs ! (x - unat offset)
      else sb_byte b (first + of_nat i)) [0..<n])"
proof -
  obtain b1 where w: "sb_Write offset xs b = (True, b1)" "sb_ok b1" "sb_size b1 = sb_size b"
    and e1: "\<And>x. sb_byte b1 x = (if unat offset \<le> unat x \<and> unat x < unat offset + length xs
        then xs ! (unat x - unat offset) else sb_byte b x)"
    using sb_Write_bytes [OF assms(1,2)] by blast
  have "unat start + unat len \<le> unat (sb_size b1)" using assms(3) w(3) by simp
  then obtain b2 where f: "sb_Fill start len v b1 = (True, b2)" "sb_ok b2" "sb_size b2 = sb_size b1"
    and e2: "\<And>x. sb_byte b2 x = (if unat start \<le> unat x \<and> unat x < unat start + unat len
        then v else sb_byte b1 x)"
    using sb_Fill_bytes [OF w(2), of start len v] by blast
  have "unat first + n \<le> unat (sb_size b2)" using assms(4) w(3) f(3) by simp
  note r = sb_Read_bytes [OF f(2) this]
  have "unat (first + of_nat i) = unat first + i" if "i < n" for i
    using assms(4) that unat_u64_less [of "sb_size b"] by (intro unat_add_of_nat) linarith
  then have "map (\<lambda>i. sb_byte b2 (first + of_nat i)) [0..<n] = map (\<lambda>i. let x = unat first + i in
      if unat start \<le> x \<and> x < unat start + unat len then v
      else if unat offset \<le> x \<and> x < unat offset + length xs then xs ! (x - unat offset)
      else sb_byte b (first + of_nat i)) [0..<n]"
    by (simp add: e1 e2 Let_def)
  with w f r show ?thesis by metis
qed

theorem backing_is_byte_array_witness:
  "\<exists>b1 b2. sb_Write 0x3fff [1, 2, 3] (new_backing 0x8000) = (True, b1) \<and>
     sb_Fill 0x4000 1 9 b1 = (True, b2) \<and> sb_Read 0x3fff 3 b2 = Some [1, 9, 3]"
proof -
  have ok: "sb_ok (new_backing 0x8000)" by (rule new_backing_ok) simp
  have "[0..<3] = [0, 1, 2 :: nat]" by (simp add: upt_rec)
  then show ?thesis
    using backing_is_byte_array [OF ok, where offset = "0x3fff" and xs = "[1, 2, 3]" and start = "0x4000" and
        len = 1 and first = "0x3fff" and n = 3 and v = 9]
    by (auto simp: new_backing_def)
qed

end
