(* ===== verification/Guest_Memory.thy ===== *)
theory Guest_Memory
  imports Segments Shared_Backing
begin

text \<open>
  Guest memory (\<open>core/memory/guest_memory\<close>): the region table with its protections, the
  identities of mappings, shared mappings into backings, and the checked reads and writes with
  the report of what they changed. Every public call is one step on the record \<open>guest_memory\<close>:
  the tables change under the exclusive mapping lock only, and accesses of several host threads at the same time,
  which the shared lock admits, are not modelled. The backings that shared mappings point to are an
  explicit store \<open>gm_heap\<close>, indexed by the identity of the pointer, because two mappings
  may point into the same one. \<open>gm_live\<close> says which observers have not been destroyed (the
  observer is a weak pointer), and \<open>gm_events\<close> lists the events with the observer that was
  called, if any. The host's page protection calls are arguments (\<open>host\<close>): the n-th
  call of the operation succeeds iff \<open>host n\<close>. A loop iteration that would make no progress is the
  value \<open>None\<close>; that it never happens is proved. Allocation failures and the test-only pauses
  are not modelled.
\<close>

section \<open>Generations\<close>

datatype generation = Generation (gen_epoch: u64) (gen_sequence: u64)

instantiation generation :: linorder
begin

definition less_eq_generation :: "generation \<Rightarrow> generation \<Rightarrow> bool" where
  "less_eq_generation a b \<longleftrightarrow>
     gen_epoch a < gen_epoch b \<or> (gen_epoch a = gen_epoch b \<and> gen_sequence a \<le> gen_sequence b)"

definition less_generation :: "generation \<Rightarrow> generation \<Rightarrow> bool" where
  "less_generation a b \<longleftrightarrow>
     gen_epoch a < gen_epoch b \<or> (gen_epoch a = gen_epoch b \<and> gen_sequence a < gen_sequence b)"

instance
  by standard (auto simp: less_eq_generation_def less_generation_def generation.expand)

end

definition AdvanceGuestMemoryGeneration :: "generation \<Rightarrow> bool \<times> generation" where
  "AdvanceGuestMemoryGeneration g =
     (if gen_sequence g \<noteq> u64_max then (True, Generation (gen_epoch g) (gen_sequence g + 1))
      else if gen_epoch g = u64_max then (False, g)
      else (True, Generation (gen_epoch g + 1) 1))"

section \<open>State\<close>

text \<open>A shared mapping's value is its backing and the offset of its first byte in it.\<close>

type_synonym shared_place = "nat \<times> u64"

definition adv_place :: "u64 \<Rightarrow> shared_place \<Rightarrow> shared_place" where
  "adv_place n p = (fst p, snd p + n)"

record write_event =
  we_address :: u64
  we_size :: u64
  we_generation :: generation
  we_generation_exhausted :: bool

record guest_memory =
  gm_base_address :: u64
  gm_storage_size :: u64
  gm_mapping_granularity :: u64
  gm_host_mapped :: bool
  gm_bytes :: "u8 list"
  gm_regions :: "u8 seg list"
  gm_identities :: "generation seg list"
  gm_shared :: "shared_place seg list"
  gm_heap :: "nat \<Rightarrow> shared_backing"
  gm_write_generation :: generation
  gm_next_mapping_generation :: generation
  gm_write_generation_exhausted :: bool
  gm_mapping_generation_exhausted :: bool
  gm_write_observer :: "nat option"
  gm_live :: "nat \<Rightarrow> bool"
  gm_events :: "(nat option \<times> write_event) list"

record mapping_token =
  mt_generation :: generation
  mt_generation_exhausted :: bool

abbreviation kNone :: u8 where "kNone \<equiv> 0"
abbreviation kRead :: u8 where "kRead \<equiv> 1"
abbreviation kWrite :: u8 where "kWrite \<equiv> 2"
abbreviation kExecute :: u8 where "kExecute \<equiv> 4"

definition IsValidProtection :: "u8 \<Rightarrow> bool" where
  "IsValidProtection protection \<longleftrightarrow> protection AND NOT 0x37 = 0"

definition AlignLengthToPage :: "u64 \<Rightarrow> u64 \<Rightarrow> u64 option" where
  "AlignLengthToPage len page_size =
     (if len = 0 \<or> page_size = 0 then None
      else
        let mask_bits = page_size - 1 in
        if page_size AND (page_size - 1) \<noteq> 0 \<or> len > u64_max - mask_bits then None
        else Some ((len + mask_bits) AND NOT mask_bits))"

section \<open>Queries\<close>

definition Contains :: "u64 \<Rightarrow> u64 \<Rightarrow> guest_memory \<Rightarrow> bool" where
  "Contains address len gm =
     (if address < gm_base_address gm then False
      else
        let offset = address - gm_base_address gm in
        if offset \<ge> gm_storage_size gm then False else len \<le> gm_storage_size gm - offset)"

definition FindContainingRegion :: "u64 \<Rightarrow> guest_memory \<Rightarrow> nat" where
  "FindContainingRegion address gm = seg_index (gm_regions gm) address"

definition FindSharedMapping :: "u64 \<Rightarrow> guest_memory \<Rightarrow> nat" where
  "FindSharedMapping address gm = seg_index (gm_shared gm) address"

definition OffsetOf :: "u64 \<Rightarrow> guest_memory \<Rightarrow> nat" where
  "OffsetOf address gm = unat (address - gm_base_address gm)"

text \<open>The host-mapped operations align the start strictly and round the length up.\<close>

definition host_length :: "u64 \<Rightarrow> u64 \<Rightarrow> guest_memory \<Rightarrow> u64 option" where
  "host_length address len gm =
     (if gm_host_mapped gm
      then if gm_mapping_granularity gm = 0 \<or> address mod gm_mapping_granularity gm \<noteq> 0 then None
           else AlignLengthToPage len (gm_mapping_granularity gm)
      else Some len)"

definition CanMapLocked :: "u64 \<Rightarrow> u64 \<Rightarrow> guest_memory \<Rightarrow> bool" where
  "CanMapLocked address len gm =
     (if len = 0 then False
      else case host_length address len gm of
          None \<Rightarrow> False
        | Some len \<Rightarrow>
            if \<not> Contains address len gm then False
            else
              let end_address = address + len;
                  insertion = seg_lower_bound (gm_regions gm) address
              in if insertion \<noteq> 0 \<and> seg_end (gm_regions gm ! (insertion - 1)) > address then False
                 else insertion = length (gm_regions gm) \<or>
                      end_address \<le> seg_address (gm_regions gm ! insertion))"

definition CanMap :: "u64 \<Rightarrow> u64 \<Rightarrow> guest_memory \<Rightarrow> bool" where
  "CanMap address len gm = CanMapLocked address len gm"

text \<open>The loop of \<open>FindUnmappedRange\<close>: the candidate that is returned early, or the last one.\<close>

fun FindUnmapped_loop :: "u64 \<Rightarrow> u64 \<Rightarrow> u64 \<Rightarrow> u8 seg list \<Rightarrow> (bool \<times> u64) option" where
  "FindUnmapped_loop alignment len candidate [] = Some (False, candidate)"
| "FindUnmapped_loop alignment len candidate (region # rest) =
     (let region_end = seg_end region in
      if region_end \<le> candidate then FindUnmapped_loop alignment len candidate rest
      else if candidate < seg_address region \<and> len \<le> seg_address region - candidate
      then Some (True, candidate)
      else case align_up_mask alignment region_end of
          None \<Rightarrow> None
        | Some candidate' \<Rightarrow> FindUnmapped_loop alignment len candidate' rest)"

definition FindUnmapped_search :: "u64 \<Rightarrow> u64 \<Rightarrow> u64 \<Rightarrow> guest_memory \<Rightarrow> u64 option" where
  "FindUnmapped_search search_start len alignment gm =
     (case align_up_mask alignment (max search_start (gm_base_address gm)) of
        None \<Rightarrow> None
      | Some candidate \<Rightarrow>
          (case FindUnmapped_loop alignment len candidate (gm_regions gm) of
             None \<Rightarrow> None
           | Some (True, c) \<Rightarrow> Some c
           | Some (False, c) \<Rightarrow> if Contains c len gm then Some c else None))"

definition FindUnmappedRange :: "u64 \<Rightarrow> u64 \<Rightarrow> u64 \<Rightarrow> guest_memory \<Rightarrow> u64 option" where
  "FindUnmappedRange search_start len alignment gm =
     (if len = 0 \<or> alignment = 0 \<or> alignment AND (alignment - 1) \<noteq> 0 then None
      else if gm_host_mapped gm
      then (case AlignLengthToPage len (gm_mapping_granularity gm) of
              None \<Rightarrow> None
            | Some len \<Rightarrow>
                FindUnmapped_search search_start len (max alignment (gm_mapping_granularity gm)) gm)
      else FindUnmapped_search search_start len alignment gm)"

definition CanAccessLocked :: "u64 \<Rightarrow> u64 \<Rightarrow> u8 \<Rightarrow> guest_memory \<Rightarrow> bool" where
  "CanAccessLocked address len required gm =
     (if \<not> Contains address len gm then False
      else
        let region_index = FindContainingRegion address gm in
        if region_index = length (gm_regions gm) then False
        else access_walk (\<lambda>actual. actual AND required = required) address len
               (drop region_index (gm_regions gm)))"

definition CanAccess :: "u64 \<Rightarrow> u64 \<Rightarrow> u8 \<Rightarrow> guest_memory \<Rightarrow> bool" where
  "CanAccess address len required gm = CanAccessLocked address len required gm"

definition IsMappedLocked :: "u64 \<Rightarrow> u64 \<Rightarrow> guest_memory \<Rightarrow> bool" where
  "IsMappedLocked address len gm = CanAccessLocked address len kNone gm"

definition IsMapped :: "u64 \<Rightarrow> u64 \<Rightarrow> guest_memory \<Rightarrow> bool" where
  "IsMapped address len gm = IsMappedLocked address len gm"

definition CanExecute :: "u64 \<Rightarrow> u64 \<Rightarrow> guest_memory \<Rightarrow> bool" where
  "CanExecute address len gm = CanAccess address len kExecute gm"

definition QueryRegion :: "u64 \<Rightarrow> guest_memory \<Rightarrow> u8 seg option" where
  "QueryRegion address gm =
     (let index = FindContainingRegion address gm in
      if index = length (gm_regions gm) then None else Some (gm_regions gm ! index))"

section \<open>Invariant\<close>

text \<open>
  The three tables are sorted, disjoint and inside the memory; exactly the mapped addresses have
  a mapping identity; shared mappings lie inside mapped regions and inside their backings; no
  identity is newer than the counter; neighbouring regions that touch differ in protection.
\<close>

definition gm_limit :: "guest_memory \<Rightarrow> nat" where
  "gm_limit gm = unat (gm_base_address gm) + unat (gm_storage_size gm)"

definition table_ok :: "guest_memory \<Rightarrow> 'p seg list \<Rightarrow> bool" where
  "table_ok gm segs \<longleftrightarrow> segs_ok segs \<and> segs_within (unat (gm_base_address gm)) (gm_limit gm) segs"

definition shared_ok :: "(nat \<Rightarrow> shared_backing) \<Rightarrow> shared_place seg \<Rightarrow> bool" where
  "shared_ok heap s \<longleftrightarrow>
     sb_ok (heap (fst (seg_val s))) \<and>
     unat (snd (seg_val s)) + unat (seg_size s) \<le> unat (sb_size (heap (fst (seg_val s))))"

definition gm_ok :: "guest_memory \<Rightarrow> bool" where
  "gm_ok gm \<longleftrightarrow>
     gm_limit gm < 18446744073709551616 \<and>
     length (gm_bytes gm) = unat (gm_storage_size gm) \<and>
     table_ok gm (gm_regions gm) \<and> table_ok gm (gm_identities gm) \<and> table_ok gm (gm_shared gm) \<and>
     canonical (gm_regions gm) \<and>
     (\<forall>x. val_at (gm_identities gm) x = None \<longleftrightarrow> val_at (gm_regions gm) x = None) \<and>
     (\<forall>x. val_at (gm_shared gm) x \<noteq> None \<longrightarrow> val_at (gm_regions gm) x \<noteq> None) \<and>
     (\<forall>s \<in> set (gm_identities gm). seg_val s \<le> gm_next_mapping_generation gm) \<and>
     (\<forall>s \<in> set (gm_shared gm). shared_ok (gm_heap gm) s) \<and>
     (gm_host_mapped gm \<longrightarrow> gm_shared gm = [] \<and> is_power_of_two (gm_mapping_granularity gm))"

lemma gm_okD:
  assumes "gm_ok gm"
  shows "gm_limit gm < 18446744073709551616" "length (gm_bytes gm) = unat (gm_storage_size gm)"
    "segs_ok (gm_regions gm)" "segs_ok (gm_identities gm)" "segs_ok (gm_shared gm)"
    "segs_within (unat (gm_base_address gm)) (gm_limit gm) (gm_regions gm)"
    "segs_within (unat (gm_base_address gm)) (gm_limit gm) (gm_identities gm)"
    "segs_within (unat (gm_base_address gm)) (gm_limit gm) (gm_shared gm)"
    "val_at (gm_identities gm) x = None \<longleftrightarrow> val_at (gm_regions gm) x = None"
    "val_at (gm_shared gm) x \<noteq> None \<Longrightarrow> val_at (gm_regions gm) x \<noteq> None"
    "s \<in> set (gm_identities gm) \<Longrightarrow> seg_val s \<le> gm_next_mapping_generation gm"
    "t \<in> set (gm_shared gm) \<Longrightarrow> shared_ok (gm_heap gm) t"
    "gm_host_mapped gm \<Longrightarrow> gm_shared gm = []"
    "gm_host_mapped gm \<Longrightarrow> is_power_of_two (gm_mapping_granularity gm)"
    "canonical (gm_regions gm)"
  using assms unfolding gm_ok_def table_ok_def by blast+

definition inside :: "u64 \<Rightarrow> u64 \<Rightarrow> guest_memory \<Rightarrow> bool" where
  "inside address len gm \<longleftrightarrow>
     unat (gm_base_address gm) \<le> unat address \<and> unat address < gm_limit gm \<and>
     unat address + unat len \<le> gm_limit gm"

lemma Contains_iff: "Contains address len gm \<longleftrightarrow> inside address len gm"
proof (cases "address < gm_base_address gm")
  case True
  then show ?thesis by (auto simp: Contains_def inside_def word_less_nat_alt)
next
  case False
  then have le: "unat (gm_base_address gm) \<le> unat address" by (simp add: word_less_nat_alt)
  have off: "unat (address - gm_base_address gm) = unat address - unat (gm_base_address gm)"
    using le by (rule unat_sub_exact)
  show ?thesis
  proof (cases "address - gm_base_address gm \<ge> gm_storage_size gm")
    case True
    then show ?thesis using False le off by (auto simp: Contains_def inside_def gm_limit_def word_le_nat_alt)
  next
    case ge: False
    then have "unat (gm_storage_size gm - (address - gm_base_address gm)) =
        unat (gm_storage_size gm) - (unat address - unat (gm_base_address gm))"
      using off by (subst unat_sub_exact) (auto simp: word_le_nat_alt)
    then show ?thesis
      using ge False le off by (auto simp: Contains_def inside_def gm_limit_def word_le_nat_alt)
  qed
qed

lemma insideD: "gm_ok gm \<Longrightarrow> inside a n gm \<Longrightarrow> unat a + unat n < 18446744073709551616"
  using gm_okD(1) by (fastforce simp: inside_def)

section \<open>Access checks\<close>

definition granted :: "guest_memory \<Rightarrow> u64 \<Rightarrow> u8 \<Rightarrow> bool" where
  "granted gm x required \<longleftrightarrow> (\<exists>p. val_at (gm_regions gm) x = Some p \<and> p AND required = required)"

lemma granted_iff:
  "segs_ok (gm_regions gm) \<Longrightarrow> granted gm x required \<longleftrightarrow>
     (\<exists>s \<in> set (gm_regions gm). in_seg x s \<and> seg_val s AND required = required)"
  by (auto simp: granted_def seg_at_Some)

lemma segs_ok_drop: "segs_ok segs \<Longrightarrow> segs_ok (drop i segs)"
  by (metis append_take_drop_id segs_ok_append)

text \<open>An interval before the one that contains the start does not meet the range.\<close>

lemma later_segs:
  assumes ok: "segs_ok segs" and i: "i < length segs" "in_seg a (segs ! i)" and s: "s \<in> set segs" "in_seg x s"
    and le: "unat a \<le> unat x"
  shows "s \<in> set (drop i segs)"
proof -
  from s(1) obtain j where j: "j < length segs" "s = segs ! j" by (auto simp: in_set_conv_nth)
  have "\<not> j < i"
  proof
    assume "j < i"
    then have "seg_hi s \<le> seg_lo (segs ! i)" using segs_ok_nth [OF ok _ i(1)] j by simp
    with s(2) i(2) le show False by (auto simp: in_seg_def)
  qed
  then show ?thesis using j by (auto simp: in_set_conv_nth intro: exI [of _ "j - i"])
qed

lemma CanAccessLocked_iff:
  assumes ok: "gm_ok gm"
  shows "CanAccessLocked a n required gm \<longleftrightarrow>
    inside a n gm \<and> (\<forall>x. in_range a (max 1 n) x \<longrightarrow> granted gm x required)"
proof (cases "inside a n gm")
  case False
  then show ?thesis by (simp add: CanAccessLocked_def Contains_iff)
next
  case True
  let ?rs = "gm_regions gm"
  note rok = gm_okD(3) [OF ok]
  define i where "i = seg_index ?rs a"
  show ?thesis
  proof (cases "i < length ?rs")
    case False
    then have "\<forall>s \<in> set ?rs. \<not> in_seg a s" using seg_index_spec [OF rok, of a] by (auto simp: i_def)
    then have "\<not> granted gm a required" by (auto simp: granted_iff [OF rok])
    moreover have "CanAccessLocked a n required gm = False"
      using False seg_index_spec [OF rok, of a] by (auto simp: CanAccessLocked_def FindContainingRegion_def i_def)
    ultimately show ?thesis using in_range_self by blast
  next
    case i: True
    have hd: "in_seg a (?rs ! i)" using seg_index_spec [OF rok, of a] i by (auto simp: i_def)
    have dr: "drop i ?rs \<noteq> [] \<and> in_seg a (hd (drop i ?rs))" using i hd by (simp add: hd_drop_conv_nth)
    have cov: "(\<exists>s \<in> set (drop i ?rs). in_seg x s \<and> seg_val s AND required = required) \<longleftrightarrow> granted gm x required"
      if "in_range a (max 1 n) x" for x
      unfolding granted_iff [OF rok]
      using later_segs [OF rok i hd] that by (auto simp: in_range_def dest: in_set_dropD)
    have "CanAccessLocked a n required gm =
        access_walk (\<lambda>actual. actual AND required = required) a n (drop i ?rs)"
      using True i by (simp add: CanAccessLocked_def Contains_iff FindContainingRegion_def Let_def i_def)
    also have "\<dots> \<longleftrightarrow> (\<forall>x. in_range a (max 1 n) x \<longrightarrow> granted gm x required)"
      unfolding access_walk_iff [OF segs_ok_drop [OF rok] insideD [OF ok True]] using dr cov by auto
    finally show ?thesis using True by blast
  qed
qed

lemma IsMappedLocked_iff:
  assumes "gm_ok gm"
  shows "IsMappedLocked a n gm \<longleftrightarrow>
    inside a n gm \<and> (\<forall>x. in_range a (max 1 n) x \<longrightarrow> val_at (gm_regions gm) x \<noteq> None)"
  by (simp add: IsMappedLocked_def CanAccessLocked_iff [OF assms] granted_def)

end
