(* ===== verification/Guest_Mapping.thy ===== *)
theory Guest_Mapping
  imports Guest_Memory
begin

text \<open>
  The mapping operations of guest memory: \<open>Map\<close>, \<open>MapShared\<close>, \<open>Protect\<close>, \<open>Unmap\<close>, the
  search for a free range and the mapping tokens. Abstractly a guest memory is a partial
  function from addresses to protections (\<open>prot_at\<close>); each operation refines an update of that
  function, and an operation that fails leaves it alone.
\<close>

section \<open>Operations\<close>

definition AllocateMappingGenerationLocked :: "guest_memory \<Rightarrow> generation option \<times> guest_memory" where
  "AllocateMappingGenerationLocked gm =
     (if gm_mapping_generation_exhausted gm
      then (None, gm\<lparr>gm_mapping_generation_exhausted := True\<rparr>)
      else case AdvanceGuestMemoryGeneration (gm_next_mapping_generation gm) of
          (False, _) \<Rightarrow> (None, gm\<lparr>gm_mapping_generation_exhausted := True\<rparr>)
        | (True, g) \<Rightarrow> (Some g, gm\<lparr>gm_next_mapping_generation := g\<rparr>))"

definition insert_mapping :: "u64 \<Rightarrow> u64 \<Rightarrow> u8 \<Rightarrow> generation \<Rightarrow> guest_memory \<Rightarrow> guest_memory" where
  "insert_mapping address mapped_length protection g gm =
     gm\<lparr>gm_regions := coalesce (seg_insert (Seg address mapped_length protection) (gm_regions gm)),
        gm_identities := coalesce (seg_insert (Seg address mapped_length g) (gm_identities gm))\<rparr>"

definition MapLocked ::
  "(nat \<Rightarrow> bool) \<Rightarrow> u64 \<Rightarrow> u64 \<Rightarrow> u8 \<Rightarrow> guest_memory \<Rightarrow> bool \<times> guest_memory" where
  "MapLocked host address len protection gm =
     (if \<not> IsValidProtection protection \<or> len = 0 then (False, gm)
      else case host_length address len gm of
          None \<Rightarrow> (False, gm)
        | Some mapped_length \<Rightarrow>
            if \<not> CanMapLocked address mapped_length gm then (False, gm)
            else case AllocateMappingGenerationLocked gm of
                (None, gm1) \<Rightarrow> (False, gm1)
              | (Some g, gm1) \<Rightarrow>
                  if gm_host_mapped gm1 \<and> \<not> host 0 then (False, gm1)
                  else (True, insert_mapping address mapped_length protection g gm1))"

definition Map ::
  "(nat \<Rightarrow> bool) \<Rightarrow> u64 \<Rightarrow> u64 \<Rightarrow> u8 \<Rightarrow> guest_memory \<Rightarrow> bool \<times> guest_memory" where
  "Map host address len protection gm = MapLocked host address len protection gm"

text \<open>\<open>None\<close> for the backing is a null pointer.\<close>

definition MapShared ::
  "(nat \<Rightarrow> bool) \<Rightarrow> u64 \<Rightarrow> u64 \<Rightarrow> u8 \<Rightarrow> nat option \<Rightarrow> u64 \<Rightarrow> guest_memory \<Rightarrow> bool \<times> guest_memory" where
  "MapShared host address len protection backing backing_offset gm =
     (case backing of
        None \<Rightarrow> (False, gm)
      | Some b \<Rightarrow>
          if gm_host_mapped gm \<or> \<not> sb_Contains backing_offset len (gm_heap gm b) \<or>
             \<not> IsValidProtection protection \<or> \<not> CanMapLocked address len gm
          then (False, gm)
          else
            let index = seg_lower_bound (gm_shared gm) address;
                gm1 = gm\<lparr>gm_shared := seg_insert (Seg address len (b, backing_offset)) (gm_shared gm)\<rparr>
            in case MapLocked host address len protection gm1 of
                (True, gm2) \<Rightarrow> (True, gm2)
              | (False, gm2) \<Rightarrow>
                  (False, gm2\<lparr>gm_shared := take index (gm_shared gm2) @ drop (Suc index) (gm_shared gm2)\<rparr>))"

definition Protect ::
  "(nat \<Rightarrow> bool) \<Rightarrow> u64 \<Rightarrow> u64 \<Rightarrow> u8 \<Rightarrow> guest_memory \<Rightarrow> bool \<times> guest_memory" where
  "Protect host address len protection gm =
     (if len = 0 \<or> \<not> IsValidProtection protection then (False, gm)
      else case host_length address len gm of
          None \<Rightarrow> (False, gm)
        | Some protected_length \<Rightarrow>
            if \<not> IsMappedLocked address protected_length gm then (False, gm)
            else
              let range_end = address + protected_length;
                  updated = seg_protect address range_end protection (gm_regions gm)
              in if gm_host_mapped gm \<and> \<not> host 0 then (False, gm)
                 else (True, gm\<lparr>gm_regions := coalesce updated\<rparr>))"

definition live_observer :: "guest_memory \<Rightarrow> nat option" where
  "live_observer gm =
     (case gm_write_observer gm of
        None \<Rightarrow> None
      | Some ob \<Rightarrow> if gm_live gm ob then Some ob else None)"

definition NotifyWrite :: "u64 \<Rightarrow> u64 \<Rightarrow> guest_memory \<Rightarrow> guest_memory" where
  "NotifyWrite address len gm =
     (if len = 0 then gm
      else
        let gm1 = (if gm_write_generation_exhausted gm then gm
                   else case AdvanceGuestMemoryGeneration (gm_write_generation gm) of
                       (True, g) \<Rightarrow> gm\<lparr>gm_write_generation := g\<rparr>
                     | (False, _) \<Rightarrow> gm\<lparr>gm_write_generation_exhausted := True\<rparr>);
            event = \<lparr>we_address = address, we_size = len, we_generation = gm_write_generation gm1,
                     we_generation_exhausted = gm_write_generation_exhausted gm1\<rparr>
        in gm1\<lparr>gm_events := gm_events gm1 @ [(live_observer gm1, event)]\<rparr>)"

definition zero_bytes :: "u64 \<Rightarrow> u64 \<Rightarrow> guest_memory \<Rightarrow> guest_memory" where
  "zero_bytes address len gm =
     gm\<lparr>gm_bytes := overwrite (gm_bytes gm) (OffsetOf address gm) (replicate (unat len) 0)\<rparr>"

definition Unmap :: "(nat \<Rightarrow> bool) \<Rightarrow> u64 \<Rightarrow> u64 \<Rightarrow> guest_memory \<Rightarrow> bool \<times> guest_memory" where
  "Unmap host address len gm =
     (if len = 0 then (False, gm)
      else case host_length address len gm of
          None \<Rightarrow> (False, gm)
        | Some unmapped_length \<Rightarrow>
            if \<not> IsMappedLocked address unmapped_length gm then (False, gm)
            else
              let range_end = address + unmapped_length;
                  updated_shared = seg_cut adv_place address range_end (gm_shared gm);
                  updated_identities = seg_cut (\<lambda>_ g. g) address range_end (gm_identities gm);
                  updated = seg_unmap address range_end (gm_regions gm)
              in if gm_host_mapped gm \<and> \<not> host 0 then (False, gm)
                 else if gm_host_mapped gm \<and> \<not> host 1
                 then (False, NotifyWrite address unmapped_length (zero_bytes address unmapped_length gm))
                 else
                   let gm1 = zero_bytes address (if gm_host_mapped gm then unmapped_length else len) gm
                   in (True, gm1\<lparr>gm_regions := coalesce updated,
                                 gm_identities := coalesce updated_identities,
                                 gm_shared := updated_shared\<rparr>))"

fun token_walk :: "u64 \<Rightarrow> u64 \<Rightarrow> generation \<Rightarrow> generation seg list \<Rightarrow> generation option" where
  "token_walk current remaining newest [] = None"
| "token_walk current remaining newest (s # rest) =
     (if current < seg_address s \<or> current \<ge> seg_end s then None
      else
        let newest = max newest (seg_val s);
            chunk = min remaining (seg_end s - current)
        in if remaining - chunk = 0 then Some newest
           else token_walk (current + chunk) (remaining - chunk) newest rest)"

definition CaptureMappingTokenLocked :: "u64 \<Rightarrow> u64 \<Rightarrow> guest_memory \<Rightarrow> mapping_token option" where
  "CaptureMappingTokenLocked address len gm =
     (if len = 0 \<or> \<not> IsMappedLocked address len gm then None
      else
        let ids = gm_identities gm;
            insertion = seg_lower_bound ids address;
            exact = (insertion \<noteq> length ids \<and> seg_address (ids ! insertion) = address)
        in if \<not> exact \<and> insertion = 0 then None
           else
             let identity_index = (if exact then insertion else insertion - 1)
             in if identity_index = length ids then None
                else map_option
                  (\<lambda>g. \<lparr>mt_generation = g, mt_generation_exhausted = gm_mapping_generation_exhausted gm\<rparr>)
                  (token_walk address len (Generation 0 0) (drop identity_index ids)))"

definition CaptureMappingToken :: "u64 \<Rightarrow> u64 \<Rightarrow> guest_memory \<Rightarrow> mapping_token option" where
  "CaptureMappingToken address len gm = CaptureMappingTokenLocked address len gm"

definition SetWriteObserver :: "nat \<Rightarrow> guest_memory \<Rightarrow> bool \<times> guest_memory" where
  "SetWriteObserver observer gm =
     (if \<not> gm_live gm observer then (False, gm)
      else case live_observer gm of
          Some existing \<Rightarrow>
            if existing \<noteq> observer then (False, gm) else (True, gm\<lparr>gm_write_observer := Some observer\<rparr>)
        | None \<Rightarrow> (True, gm\<lparr>gm_write_observer := Some observer\<rparr>))"

definition ClearWriteObserver :: "nat option \<Rightarrow> guest_memory \<Rightarrow> guest_memory" where
  "ClearWriteObserver observer gm =
     (case observer of
        None \<Rightarrow> gm
      | Some ob \<Rightarrow>
          if live_observer gm = None \<or> live_observer gm = Some ob
          then gm\<lparr>gm_write_observer := None\<rparr> else gm)"

text \<open>The constructor of a memory with its own storage; \<open>None\<close> where it throws.\<close>

definition new_guest_memory :: "u64 \<Rightarrow> u64 \<Rightarrow> u8 \<Rightarrow> (nat \<Rightarrow> shared_backing) \<Rightarrow> guest_memory option" where
  "new_guest_memory base_address storage_size initial_protection heap =
     (if storage_size > u64_max - base_address \<or> \<not> IsValidProtection initial_protection then None
      else
        let gm = \<lparr>gm_base_address = base_address, gm_storage_size = storage_size, gm_mapping_granularity = 1,
                  gm_host_mapped = False, gm_bytes = replicate (unat storage_size) 0, gm_regions = [],
                  gm_identities = [], gm_shared = [], gm_heap = heap,
                  gm_write_generation = Generation 0 0, gm_next_mapping_generation = Generation 0 0,
                  gm_write_generation_exhausted = False, gm_mapping_generation_exhausted = False,
                  gm_write_observer = None, gm_live = (\<lambda>_. False), gm_events = []\<rparr>
        in if storage_size \<noteq> 0 \<and> initial_protection \<noteq> kNone
           then case AllocateMappingGenerationLocked gm of
               (None, _) \<Rightarrow> None
             | (Some g, gm1) \<Rightarrow>
                 Some (gm1\<lparr>gm_regions := [Seg base_address storage_size initial_protection],
                           gm_identities := [Seg base_address storage_size g]\<rparr>)
           else Some gm)"

section \<open>Generations\<close>

lemma Advance_less: "AdvanceGuestMemoryGeneration g = (True, g') \<Longrightarrow> g < g'"
  by (auto simp: AdvanceGuestMemoryGeneration_def less_generation_def u64_less_succ split: if_splits)

lemma Advance_fails:
  "AdvanceGuestMemoryGeneration g = (False, g') \<longleftrightarrow> g = Generation u64_max u64_max \<and> g' = g"
  by (cases g) (auto simp: AdvanceGuestMemoryGeneration_def)

lemma generation_least: "Generation 0 0 \<le> g"
  by (auto simp: less_eq_generation_def word_gt_0)

lemma Allocate_cases:
  obtains "AllocateMappingGenerationLocked gm = (None, gm\<lparr>gm_mapping_generation_exhausted := True\<rparr>)"
  | g where "AllocateMappingGenerationLocked gm = (Some g, gm\<lparr>gm_next_mapping_generation := g\<rparr>)"
    "gm_next_mapping_generation gm < g" "\<not> gm_mapping_generation_exhausted gm"
proof (cases "gm_mapping_generation_exhausted gm")
  case True
  then show ?thesis by (intro that(1)) (simp add: AllocateMappingGenerationLocked_def)
next
  case False
  obtain b g where a: "AdvanceGuestMemoryGeneration (gm_next_mapping_generation gm) = (b, g)" by fastforce
  show ?thesis
  proof (cases b)
    case True
    then show ?thesis
      using a False by (intro that(2) [of g]) (simp_all add: AllocateMappingGenerationLocked_def Advance_less)
  next
    case b: False
    then show ?thesis using a False by (intro that(1)) (simp add: AllocateMappingGenerationLocked_def)
  qed
qed

section \<open>Lengths of host-mapped operations\<close>

lemma AlignLengthToPage_align:
  "len \<noteq> 0 \<Longrightarrow> is_power_of_two p \<Longrightarrow> AlignLengthToPage len p = align_up_mask p len"
  by (simp add: AlignLengthToPage_def align_up_mask_def is_power_of_two_def Let_def)

lemma align_up_mask_idem:
  assumes p: "is_power_of_two p" and a: "align_up_mask p x = Some y"
  shows "align_up_mask p y = Some y"
proof -
  note y = align_up_mask_Some [OF p a]
  show ?thesis
  proof (cases "align_up_mask p y")
    case None
    from align_up_mask_None [OF p None y(2)] unat_u64_less [of y] show ?thesis by simp
  next
    case (Some z)
    note z = align_up_mask_Some [OF p Some]
    have "unat z = unat y" using z(1) z(3) [OF y(2)] by simp
    then show ?thesis using Some by (simp add: unat_eq_iff)
  qed
qed

lemma host_length_props:
  assumes ok: "gm_ok gm" and n: "len \<noteq> 0" and h: "host_length a len gm = Some l"
  shows "unat len \<le> unat l" "l \<noteq> 0" "host_length a l gm = Some l" "\<not> gm_host_mapped gm \<Longrightarrow> l = len"
proof -
  have p: "is_power_of_two (gm_mapping_granularity gm)" if "gm_host_mapped gm"
    using gm_okD(14) [OF ok that] .
  have al: "align_up_mask (gm_mapping_granularity gm) len = Some l" if "gm_host_mapped gm"
    using h that n p by (simp add: host_length_def AlignLengthToPage_align split: if_splits)
  show le: "unat len \<le> unat l"
    using h align_up_mask_Some(1) [OF p al] by (cases "gm_host_mapped gm") (auto simp: host_length_def)
  then show l0: "l \<noteq> 0" using n by (auto simp: unat_eq_iff)
  show "host_length a l gm = Some l"
  proof (cases "gm_host_mapped gm")
    case True
    have "AlignLengthToPage l (gm_mapping_granularity gm) = Some l"
      using AlignLengthToPage_align [OF l0 p [OF True]] align_up_mask_idem [OF p [OF True] al [OF True]] by simp
    with True h show ?thesis by (auto simp: host_length_def split: if_splits)
  qed (simp add: host_length_def)
  show "\<not> gm_host_mapped gm \<Longrightarrow> l = len" using h by (simp add: host_length_def)
qed

section \<open>Free ranges\<close>

definition free_range :: "'p seg list \<Rightarrow> u64 \<Rightarrow> u64 \<Rightarrow> bool" where
  "free_range segs a n \<longleftrightarrow> (\<forall>x. in_range a n x \<longrightarrow> val_at segs x = None)"

lemma free_range_iff:
  assumes ok: "segs_ok segs" and n: "n \<noteq> 0" and nov: "unat a + unat n < 18446744073709551616"
  shows "free_range segs a n \<longleftrightarrow> (\<forall>s \<in> set segs. seg_hi s \<le> unat a \<or> unat a + unat n \<le> seg_lo s)"
proof
  assume fr: "free_range segs a n"
  show "\<forall>s \<in> set segs. seg_hi s \<le> unat a \<or> unat a + unat n \<le> seg_lo s"
  proof (rule ballI, rule ccontr)
    fix s
    assume s: "s \<in> set segs" and c: "\<not> (seg_hi s \<le> unat a \<or> unat a + unat n \<le> seg_lo s)"
    have so: "seg_ok s" using segs_okD [OF ok s] .
    define x where "x = max a (seg_address s)"
    have "unat x = max (unat a) (seg_lo s)" by (simp add: x_def seg_lo_def)
    then have "in_range a n x" "in_seg x s"
      using c so n by (auto simp: in_range_def in_seg_def seg_ok_def unat_eq_iff max_def)
    then show False using fr s by (auto simp: free_range_def seg_at_None)
  qed
next
  assume "\<forall>s \<in> set segs. seg_hi s \<le> unat a \<or> unat a + unat n \<le> seg_lo s"
  then show "free_range segs a n"
    by (fastforce simp: free_range_def seg_at_None in_range_def in_seg_def)
qed

lemma insertion_free_iff:
  assumes ok: "segs_ok segs" and n: "n \<noteq> 0" and nov: "unat a + unat n < 18446744073709551616"
  defines "i \<equiv> seg_lower_bound segs a"
  shows "(\<not> (i \<noteq> 0 \<and> seg_end (segs ! (i - 1)) > a) \<and> (i = length segs \<or> a + n \<le> seg_address (segs ! i))) \<longleftrightarrow>
    (\<forall>s \<in> set segs. seg_hi s \<le> unat a \<or> unat a + unat n \<le> seg_lo s)"
proof -
  have il: "i \<le> length segs" unfolding i_def by (rule seg_lower_bound_le)
  have lb: "j < i \<longleftrightarrow> seg_lo (segs ! j) < unat a" if "j < length segs" for j
    unfolding i_def by (rule seg_lower_bound_nth [OF ok that])
  have sok: "seg_ok (segs ! j)" if "j < length segs" for j using segs_okD [OF ok nth_mem [OF that]] .
  have prev: "seg_end (segs ! (i - 1)) > a \<longleftrightarrow> unat a < seg_hi (segs ! (i - 1))" if "i \<noteq> 0"
    using sok [of "i - 1"] il that by (simp add: word_less_nat_alt seg_end_unat)
  have nxt: "a + n \<le> seg_address (segs ! i) \<longleftrightarrow> unat a + unat n \<le> seg_lo (segs ! i)"
    by (simp add: word_le_nat_alt unat_add_exact [OF nov] seg_lo_def)
  show ?thesis
  proof
    assume L: "\<not> (i \<noteq> 0 \<and> seg_end (segs ! (i - 1)) > a) \<and> (i = length segs \<or> a + n \<le> seg_address (segs ! i))"
    show "\<forall>s \<in> set segs. seg_hi s \<le> unat a \<or> unat a + unat n \<le> seg_lo s"
    proof
      fix s
      assume "s \<in> set segs"
      then obtain j where j: "j < length segs" "s = segs ! j" by (auto simp: in_set_conv_nth)
      show "seg_hi s \<le> unat a \<or> unat a + unat n \<le> seg_lo s"
      proof (cases "j < i")
        case True
        then have "seg_hi (segs ! (i - 1)) \<le> unat a" using L prev by auto
        moreover have "seg_hi s \<le> seg_hi (segs ! (i - 1))"
        proof (cases "j = i - 1")
          case False
          with True have "j < i - 1" by simp
          then have "seg_hi s \<le> seg_lo (segs ! (i - 1))" using segs_ok_nth [OF ok] il True j by simp
          moreover have "i - 1 < length segs" using il True by linarith
          ultimately show ?thesis using sok [of "i - 1"] unfolding seg_ok_def by linarith
        qed (use j in simp)
        ultimately show ?thesis by simp
      next
        case False
        then have "i < length segs" using j by simp
        then have "unat a + unat n \<le> seg_lo (segs ! i)" using L nxt by auto
        moreover have "seg_lo (segs ! i) \<le> seg_lo s"
        proof (cases "j = i")
          case ne: False
          with False have "seg_hi (segs ! i) \<le> seg_lo s" using segs_ok_nth [OF ok, of i j] j by simp
          then show ?thesis using sok [OF \<open>i < length segs\<close>] by (simp add: seg_ok_def)
        qed (use j in simp)
        ultimately show ?thesis by simp
      qed
    qed
  next
    assume R: "\<forall>s \<in> set segs. seg_hi s \<le> unat a \<or> unat a + unat n \<le> seg_lo s"
    have "seg_hi (segs ! (i - 1)) \<le> unat a" if "i \<noteq> 0"
    proof -
      have "i - 1 < length segs" using il that by simp
      moreover have "seg_lo (segs ! (i - 1)) < unat a" using lb [OF \<open>i - 1 < length segs\<close>] that by simp
      ultimately show ?thesis using R nth_mem by fastforce
    qed
    moreover have "unat a + unat n \<le> seg_lo (segs ! i)" if "i < length segs"
    proof -
      have "\<not> seg_lo (segs ! i) < unat a" using lb [OF that] by simp
      then have "\<not> seg_hi (segs ! i) \<le> unat a" using sok [OF that] by (simp add: seg_ok_def)
      then show ?thesis using R nth_mem [OF that] by blast
    qed
    ultimately show "\<not> (i \<noteq> 0 \<and> seg_end (segs ! (i - 1)) > a) \<and> (i = length segs \<or> a + n \<le> seg_address (segs ! i))"
      using prev nxt il by fastforce
  qed
qed

lemma CanMapLocked_iff:
  assumes ok: "gm_ok gm"
  shows "CanMapLocked a len gm \<longleftrightarrow>
    len \<noteq> 0 \<and> (\<exists>l. host_length a len gm = Some l \<and> inside a l gm \<and> free_range (gm_regions gm) a l)"
proof (cases "len \<noteq> 0 \<and> (\<exists>l. host_length a len gm = Some l \<and> inside a l gm)")
  case False
  then show ?thesis by (auto simp: CanMapLocked_def Contains_iff split: option.splits)
next
  case True
  then obtain l where l: "len \<noteq> 0" "host_length a len gm = Some l" "inside a l gm" by blast
  note l0 = host_length_props(2) [OF ok l(1,2)]
  note nov = insideD [OF ok l(3)]
  have "CanMapLocked a len gm \<longleftrightarrow> free_range (gm_regions gm) a l"
    using l insertion_free_iff [OF gm_okD(3) [OF ok] l0 nov] free_range_iff [OF gm_okD(3) [OF ok] l0 nov]
    by (auto simp: CanMapLocked_def Contains_iff Let_def)
  with l show ?thesis by auto
qed

section \<open>Mapping refines an update of the protections\<close>

definition prot_at :: "guest_memory \<Rightarrow> u64 \<Rightarrow> u8 option" where
  "prot_at gm = val_at (gm_regions gm)"

definition id_at :: "guest_memory \<Rightarrow> u64 \<Rightarrow> generation option" where
  "id_at gm = val_at (gm_identities gm)"

definition place_at :: "guest_memory \<Rightarrow> u64 \<Rightarrow> shared_place option" where
  "place_at gm = seg_at adv_place (gm_shared gm)"

lemma in_seg_start: "seg_ok s \<Longrightarrow> in_seg (seg_address s) s"
  by (simp add: in_seg_def seg_ok_def seg_lo_def)

lemma vals_iff:
  assumes "segs_ok segs"
  shows "(\<forall>s \<in> set segs. P (seg_val s)) \<longleftrightarrow> (\<forall>x v. val_at segs x = Some v \<longrightarrow> P v)"
  using in_seg_start segs_okD [OF assms] by (auto simp: val_at_iff [OF assms]) blast

lemma seg_at_None_val_at: "seg_at adv segs x = None \<longleftrightarrow> val_at segs x = None"
  by (simp add: seg_at_None)

lemma table_insert:
  assumes ok: "segs_ok segs" and w: "segs_within lo hi segs" and n: "n \<noteq> 0"
    and r: "lo \<le> unat a" "unat a + unat n \<le> hi" "hi < 18446744073709551616" and fr: "free_range segs a n"
  shows "segs_ok (seg_insert (Seg a n v) segs)" "segs_within lo hi (seg_insert (Seg a n v) segs)"
    "seg_at adv (seg_insert (Seg a n v) segs) x = (if in_range a n x then Some (adv (x - a) v) else seg_at adv segs x)"
proof -
  have so: "seg_ok (Seg a n v)" using n r by (simp add: seg_ok_def unat_eq_iff)
  show io: "segs_ok (seg_insert (Seg a n v) segs)"
    using segs_ok_insert [OF ok so] free_range_iff [OF ok n] fr r by simp
  show "segs_within lo hi (seg_insert (Seg a n v) segs)" using w r by (simp add: segs_within_def)
  show "seg_at adv (seg_insert (Seg a n v) segs) x = (if in_range a n x then Some (adv (x - a) v) else seg_at adv segs x)"
    using seg_at_insert [OF ok io, of adv x] by (simp add: in_seg_def in_range_def)
qed

lemma free_range_identities: "gm_ok gm \<Longrightarrow> free_range (gm_identities gm) a n = free_range (gm_regions gm) a n"
  using gm_okD(9) by (simp add: free_range_def)

lemma free_range_shared: "gm_ok gm \<Longrightarrow> free_range (gm_regions gm) a n \<Longrightarrow> free_range (gm_shared gm) a n"
  using gm_okD(10) unfolding free_range_def by blast

lemma insert_mapping_ok:
  fixes p :: u8
  assumes ok: "gm_ok gm" and ins: "inside a l gm" and fr: "free_range (gm_regions gm) a l" and l0: "l \<noteq> 0"
    and g: "gm_next_mapping_generation gm \<le> g"
  defines "gm' \<equiv> insert_mapping a l p g (gm\<lparr>gm_next_mapping_generation := g\<rparr>)"
  shows "gm_ok gm'"
    and "prot_at gm' x = (if in_range a l x then Some p else prot_at gm x)"
    and "id_at gm' x = (if in_range a l x then Some g else id_at gm x)"
proof -
  let ?lo = "unat (gm_base_address gm)" and ?hi = "gm_limit gm"
  have r: "?lo \<le> unat a" "unat a + unat l \<le> ?hi" using ins by (auto simp: inside_def)
  note R = table_insert [OF gm_okD(3,6) [OF ok] l0 r gm_okD(1) [OF ok] fr]
  note I = table_insert [OF gm_okD(4,7) [OF ok] l0 r gm_okD(1) [OF ok]
      fr [folded free_range_identities [OF ok]]]
  have pr: "val_at (gm_regions gm') y = (if in_range a l y then Some p else val_at (gm_regions gm) y)" for y
    by (simp add: gm'_def insert_mapping_def coalesce_at [OF R(1)] R(3))
  have id: "val_at (gm_identities gm') y = (if in_range a l y then Some g else val_at (gm_identities gm) y)" for y
    by (simp add: gm'_def insert_mapping_def coalesce_at [OF I(1)] I(3))
  have iok: "segs_ok (gm_identities gm')"
    using coalesce_ok [OF I(1)] by (simp add: gm'_def insert_mapping_def)
  have "v \<le> g" if "val_at (gm_identities gm') y = Some v" for y v
  proof -
    have "v \<le> gm_next_mapping_generation gm" if "val_at (gm_identities gm) y = Some v"
      using that vals_iff [OF gm_okD(4) [OF ok], of "\<lambda>v. v \<le> gm_next_mapping_generation gm"] gm_okD(11) [OF ok]
      by blast
    with that g id [of y] show ?thesis by (auto split: if_splits)
  qed
  then have bound: "\<forall>s \<in> set (gm_identities gm'). seg_val s \<le> g"
    using vals_iff [OF iok, of "\<lambda>v. v \<le> g"] by blast
  have fields: "gm_limit gm' = gm_limit gm" "gm_base_address gm' = gm_base_address gm"
    "gm_storage_size gm' = gm_storage_size gm" "gm_bytes gm' = gm_bytes gm" "gm_shared gm' = gm_shared gm"
    "gm_heap gm' = gm_heap gm" "gm_host_mapped gm' = gm_host_mapped gm" "gm_next_mapping_generation gm' = g"
    "gm_mapping_granularity gm' = gm_mapping_granularity gm"
    by (simp_all add: gm'_def insert_mapping_def gm_limit_def)
  have regs: "segs_ok (gm_regions gm')" "segs_within ?lo ?hi (gm_regions gm')" "canonical (gm_regions gm')"
    "segs_within ?lo ?hi (gm_identities gm')"
    using coalesce_ok [OF R(1)] coalesce_within [OF R(1,2)] coalesce_canonical [OF R(1)] coalesce_within [OF I(1,2)]
    by (simp_all add: gm'_def insert_mapping_def)
  show "gm_ok gm'"
    unfolding gm_ok_def table_ok_def fields pr id
    using regs iok bound gm_okD(1,2,5,8) [OF ok] gm_okD(9,10) [OF ok] gm_okD(12-14) [OF ok] by auto
  show "prot_at gm' x = (if in_range a l x then Some p else prot_at gm x)"
    "id_at gm' x = (if in_range a l x then Some g else id_at gm x)"
    by (simp_all add: prot_at_def id_at_def pr id)
qed

lemma gm_ok_exhausted [simp]:
  "gm_ok (gm\<lparr>gm_mapping_generation_exhausted := b\<rparr>) = gm_ok gm"
  by (simp add: gm_ok_def table_ok_def gm_limit_def)

lemma gm_ok_next:
  "gm_ok gm \<Longrightarrow> gm_next_mapping_generation gm \<le> g \<Longrightarrow> gm_ok (gm\<lparr>gm_next_mapping_generation := g\<rparr>)"
  by (auto simp: gm_ok_def table_ok_def gm_limit_def)

lemma prot_at_simps [simp]:
  "prot_at (gm\<lparr>gm_mapping_generation_exhausted := b\<rparr>) = prot_at gm"
  "prot_at (gm\<lparr>gm_next_mapping_generation := g\<rparr>) = prot_at gm"
  "id_at (gm\<lparr>gm_mapping_generation_exhausted := b\<rparr>) = id_at gm"
  "id_at (gm\<lparr>gm_next_mapping_generation := g\<rparr>) = id_at gm"
  by (simp_all add: prot_at_def id_at_def)

text \<open>The outcomes of \<open>MapLocked\<close>: nothing changes but the counter, or the range is mapped.\<close>

lemma MapLocked_cases:
  assumes ok: "gm_ok gm"
  obtains gm' where "MapLocked host a len p gm = (False, gm')"
    "gm' = gm \<or> gm' = gm\<lparr>gm_mapping_generation_exhausted := True\<rparr> \<or>
     (\<exists>g > gm_next_mapping_generation gm. gm' = gm\<lparr>gm_next_mapping_generation := g\<rparr>)"
  | l g where "MapLocked host a len p gm =
      (True, insert_mapping a l p g (gm\<lparr>gm_next_mapping_generation := g\<rparr>))"
    "IsValidProtection p" "len \<noteq> 0" "host_length a len gm = Some l" "inside a l gm"
    "free_range (gm_regions gm) a l" "l \<noteq> 0" "gm_next_mapping_generation gm < g"
proof (cases "\<not> IsValidProtection p \<or> len = 0 \<or> host_length a len gm = None \<or>
    \<not> CanMapLocked a (the (host_length a len gm)) gm")
  case True
  then have "MapLocked host a len p gm = (False, gm)" by (auto simp: MapLocked_def split: option.splits)
  then show ?thesis using that(1) by blast
next
  case False
  then obtain l where l: "IsValidProtection p" "len \<noteq> 0" "host_length a len gm = Some l" "CanMapLocked a l gm"
    by auto
  note hl = host_length_props [OF ok l(2,3)]
  have fr: "inside a l gm" "free_range (gm_regions gm) a l"
    using l(4) hl(3) by (auto simp: CanMapLocked_iff [OF ok])
  show ?thesis
  proof (cases rule: Allocate_cases [of gm])
    case 1
    then have "MapLocked host a len p gm = (False, gm\<lparr>gm_mapping_generation_exhausted := True\<rparr>)"
      using l by (simp add: MapLocked_def)
    then show ?thesis using that(1) by blast
  next
    case (2 g)
    show ?thesis
    proof (cases "gm_host_mapped gm \<and> \<not> host 0")
      case True
      then have "MapLocked host a len p gm = (False, gm\<lparr>gm_next_mapping_generation := g\<rparr>)"
        using l 2 by (simp add: MapLocked_def)
      then show ?thesis using that(1) 2(2) by blast
    next
      case False
      then have "MapLocked host a len p gm =
          (True, insert_mapping a l p g (gm\<lparr>gm_next_mapping_generation := g\<rparr>))"
        using l 2 by (auto simp: MapLocked_def)
      then show ?thesis using that(2) l fr hl(2) 2(2) by blast
    qed
  qed
qed

lemma MapLocked_fails:
  assumes "gm_ok gm" "MapLocked host a len p gm = (False, gm')"
  shows "gm_ok gm'" "prot_at gm' = prot_at gm" "id_at gm' = id_at gm" "gm_shared gm' = gm_shared gm"
proof -
  have "gm' = gm \<or> gm' = gm\<lparr>gm_mapping_generation_exhausted := True\<rparr> \<or>
     (\<exists>g > gm_next_mapping_generation gm. gm' = gm\<lparr>gm_next_mapping_generation := g\<rparr>)"
    by (cases rule: MapLocked_cases [OF assms(1), of host a len p]) (use assms(2) in auto)
  then show "gm_ok gm'" "prot_at gm' = prot_at gm" "id_at gm' = id_at gm" "gm_shared gm' = gm_shared gm"
    using assms(1) by (auto intro: gm_ok_next)
qed

lemma MapLocked_succeeds:
  assumes ok: "gm_ok gm" and m: "MapLocked host a len p gm = (True, gm')"
  obtains l g where "host_length a len gm = Some l" "inside a l gm" "free_range (gm_regions gm) a l"
    "len \<noteq> 0" "l \<noteq> 0" "gm_ok gm'" "gm_next_mapping_generation gm < g" "IsValidProtection p"
    "gm' = insert_mapping a l p g (gm\<lparr>gm_next_mapping_generation := g\<rparr>)"
    "\<And>x. prot_at gm' x = (if in_range a l x then Some p else prot_at gm x)"
    "\<And>x. id_at gm' x = (if in_range a l x then Some g else id_at gm x)"
proof (cases rule: MapLocked_cases [OF ok, of host a len p])
  case (1 gm1)
  with m show ?thesis by simp
next
  case (2 l g)
  then have gm': "gm' = insert_mapping a l p g (gm\<lparr>gm_next_mapping_generation := g\<rparr>)" using m by simp
  note i = insert_mapping_ok [OF ok 2(5,6,7) less_imp_le [OF 2(8)], where p = p]
  show ?thesis
    by (rule that [of l g]) (use 2 i gm' in simp_all)
qed

text \<open>\<open>MapLocked\<close> neither reads nor writes the shared mappings.\<close>

lemma shared_irrelevant [simp]:
  "host_length a len (gm\<lparr>gm_shared := sh\<rparr>) = host_length a len gm"
  "Contains a len (gm\<lparr>gm_shared := sh\<rparr>) = Contains a len gm"
  "CanMapLocked a len (gm\<lparr>gm_shared := sh\<rparr>) = CanMapLocked a len gm"
  by (simp_all add: host_length_def Contains_def CanMapLocked_def cong: option.case_cong)

lemma Allocate_shared:
  "AllocateMappingGenerationLocked (gm\<lparr>gm_shared := sh\<rparr>) =
     map_prod id (\<lambda>g. g\<lparr>gm_shared := sh\<rparr>) (AllocateMappingGenerationLocked gm)"
  by (auto simp: AllocateMappingGenerationLocked_def split: prod.splits bool.splits)

lemma MapLocked_shared:
  "MapLocked host a len p (gm\<lparr>gm_shared := sh\<rparr>) =
     map_prod id (\<lambda>g. g\<lparr>gm_shared := sh\<rparr>) (MapLocked host a len p gm)"
proof (cases "AllocateMappingGenerationLocked gm")
  case (Pair r gm1)
  then show ?thesis
    by (cases r) (auto simp: MapLocked_def Allocate_shared insert_mapping_def split: option.splits)
qed

lemma remove_inserted:
  "take (seg_lower_bound segs a) (seg_insert (Seg a n v) segs) @
   drop (Suc (seg_lower_bound segs a)) (seg_insert (Seg a n v) segs) = segs"
  by (simp add: seg_insert_def Let_def seg_lower_bound_le)

lemma gm_ok_shared:
  assumes "gm_ok gm" "table_ok gm sh" "\<And>x. val_at sh x \<noteq> None \<Longrightarrow> val_at (gm_regions gm) x \<noteq> None"
    "\<And>s. s \<in> set sh \<Longrightarrow> shared_ok (gm_heap gm) s" "\<not> gm_host_mapped gm"
  shows "gm_ok (gm\<lparr>gm_shared := sh\<rparr>)"
  using assms by (auto simp: gm_ok_def table_ok_def gm_limit_def)

lemma MapShared_fails:
  assumes ok: "gm_ok gm" and m: "MapShared host a len p backing off gm = (False, gm')"
  shows "gm_ok gm'" "prot_at gm' = prot_at gm" "id_at gm' = id_at gm" "gm_shared gm' = gm_shared gm"
proof -
  have "gm' = gm \<or> MapLocked host a len p gm = (False, gm')"
  proof (cases "MapLocked host a len p gm")
    case (Pair b gm2)
    have "gm_shared gm2 = gm_shared gm" if "\<not> b"
      using MapLocked_fails(4) [OF ok] Pair that by auto
    then show ?thesis
      using m Pair by (cases b) (auto simp: MapShared_def MapLocked_shared Let_def remove_inserted
          split: option.splits if_splits)
  qed
  then show "gm_ok gm'" "prot_at gm' = prot_at gm" "id_at gm' = id_at gm" "gm_shared gm' = gm_shared gm"
    using ok MapLocked_fails [OF ok] by auto
qed

lemma MapShared_succeeds:
  assumes ok: "gm_ok gm" and heap: "\<And>b. sb_ok (gm_heap gm b)"
    and m: "MapShared host a len p backing off gm = (True, gm')"
  obtains b g where "backing = Some b" "\<not> gm_host_mapped gm" "inside a len gm"
    "free_range (gm_regions gm) a len" "len \<noteq> 0" "gm_ok gm'" "gm_next_mapping_generation gm < g"
    "unat off + unat len \<le> unat (sb_size (gm_heap gm b))" "gm_heap gm' = gm_heap gm" "gm_bytes gm' = gm_bytes gm"
    "\<And>x. prot_at gm' x = (if in_range a len x then Some p else prot_at gm x)"
    "\<And>x. id_at gm' x = (if in_range a len x then Some g else id_at gm x)"
    "\<And>x. place_at gm' x = (if in_range a len x then Some (b, off + (x - a)) else place_at gm x)"
proof -
  obtain b where b: "backing = Some b" and c: "\<not> gm_host_mapped gm" "sb_Contains off len (gm_heap gm b)"
    using m by (auto simp: MapShared_def split: option.splits if_splits)
  let ?sh = "seg_insert (Seg a len (b, off)) (gm_shared gm)"
  obtain b2 gm2 where ml: "MapLocked host a len p gm = (b2, gm2)" by fastforce
  have gm': "b2" "gm' = gm2\<lparr>gm_shared := ?sh\<rparr>"
    using m ml b c by (auto simp: MapShared_def MapLocked_shared Let_def split: if_splits bool.splits)
  then have ml2: "MapLocked host a len p gm = (True, gm2)" using ml by simp
  obtain l g where l: "host_length a len gm = Some l" "inside a l gm" "free_range (gm_regions gm) a l"
    "len \<noteq> 0" "gm_ok gm2" "gm_next_mapping_generation gm < g"
    "gm2 = insert_mapping a l p g (gm\<lparr>gm_next_mapping_generation := g\<rparr>)"
    "\<And>x. prot_at gm2 x = (if in_range a l x then Some p else prot_at gm x)"
    "\<And>x. id_at gm2 x = (if in_range a l x then Some g else id_at gm x)"
    by (rule MapLocked_succeeds [OF ok ml2]) blast
  have le: "l = len" using host_length_props(4) [OF ok l(4,1) c(1)] .
  have r: "unat (gm_base_address gm) \<le> unat a" "unat a + unat len \<le> gm_limit gm"
    using l(2) le by (auto simp: inside_def)
  note T = table_insert [OF gm_okD(5,8) [OF ok] l(4) r gm_okD(1) [OF ok]
      free_range_shared [OF ok l(3)[unfolded le]], where v = "(b, off)"]
  have fields: "gm_base_address gm2 = gm_base_address gm" "gm_limit gm2 = gm_limit gm" "gm_heap gm2 = gm_heap gm"
    "gm_host_mapped gm2 = gm_host_mapped gm" "gm_bytes gm2 = gm_bytes gm" "gm_shared gm2 = gm_shared gm"
    by (simp_all add: l(7) insert_mapping_def gm_limit_def)
  have cont: "unat off + unat len \<le> unat (sb_size (gm_heap gm b))" using c(2) by (simp add: sb_Contains_unat)
  have "val_at (gm_regions gm2) x \<noteq> None" if "val_at ?sh x \<noteq> None" for x
    using that T(3) [of "\<lambda>_ v. v" x] l(8) [of x] le gm_okD(10) [OF ok, of x]
    by (auto simp: prot_at_def split: if_splits)
  moreover have "shared_ok (gm_heap gm2) s" if "s \<in> set ?sh" for s
    using that gm_okD(12) [OF ok, of s] heap [of b] cont by (auto simp: fields shared_ok_def)
  ultimately have ok': "gm_ok gm'"
    unfolding gm'(2) using T(1,2) c(1) by (intro gm_ok_shared [OF l(5)]) (auto simp: table_ok_def fields)
  have "place_at gm' x = (if in_range a len x then Some (b, off + (x - a)) else place_at gm x)" for x
    using T(3) [of adv_place x] by (simp add: place_at_def gm'(2) adv_place_def)
  then show ?thesis
    using that [OF b c(1) _ _ l(4) ok' l(6) cont] l fields le gm'(2)
    by (simp add: prot_at_def id_at_def)
qed

section \<open>Protecting and unmapping\<close>

lemma range_end_unat:
  "gm_ok gm \<Longrightarrow> inside a l gm \<Longrightarrow> unat (a + l) = unat a + unat l"
  using insideD unat_add_exact by blast

lemma in_range_alt:
  "gm_ok gm \<Longrightarrow> inside a l gm \<Longrightarrow> (unat a \<le> unat x \<and> unat x < unat (a + l)) \<longleftrightarrow> in_range a l x"
  by (simp add: range_end_unat in_range_def)

lemma Protect_fails: "Protect host a len p gm = (False, gm') \<Longrightarrow> gm' = gm"
  by (auto simp: Protect_def Let_def split: option.splits if_splits)

lemma Protect_succeeds:
  assumes ok: "gm_ok gm" and m: "Protect host a len p gm = (True, gm')"
  obtains l where "host_length a len gm = Some l" "inside a l gm" "l \<noteq> 0" "len \<noteq> 0" "gm_ok gm'"
    "\<And>x. in_range a l x \<Longrightarrow> prot_at gm x \<noteq> None" "\<And>x. prot_at gm' x = (if in_range a l x then Some p else prot_at gm x)"
    "id_at gm' = id_at gm" "gm' = gm\<lparr>gm_regions := gm_regions gm'\<rparr>"
proof -
  obtain l where l: "len \<noteq> 0" "host_length a len gm = Some l" "IsMappedLocked a l gm"
    "gm' = gm\<lparr>gm_regions := coalesce (seg_protect a (a + l) p (gm_regions gm))\<rparr>"
    using m by (auto simp: Protect_def Let_def split: option.splits if_splits)
  note l0 = host_length_props(2) [OF ok l(1,2)]
  have ins: "inside a l gm" and mapped: "\<And>x. in_range a (max 1 l) x \<Longrightarrow> val_at (gm_regions gm) x \<noteq> None"
    using l(3) by (auto simp: IsMappedLocked_iff [OF ok])
  have r: "unat a < unat (a + l)" using range_end_unat [OF ok ins] l0 by (simp add: unat_gt_0)
  note R = segs_ok_protect [OF gm_okD(3) [OF ok] r, of p]
  have pr: "val_at (gm_regions gm') x = (if in_range a l x then Some p else val_at (gm_regions gm) x)" for x
    using mapped [of x] max_1_nonzero [OF l0]
    by (auto simp: l(4) coalesce_at [OF R] val_at_protect [OF gm_okD(3) [OF ok] r] in_range_alt [OF ok ins]
        option.map_ident)
  have none: "val_at (gm_regions gm') x = None \<longleftrightarrow> val_at (gm_regions gm) x = None" for x
    using mapped [of x] max_1_nonzero [OF l0] by (auto simp: pr)
  have "gm_ok gm'"
    unfolding gm_ok_def table_ok_def none
    using coalesce_ok [OF R] coalesce_within [OF R segs_within_ops(1) [OF gm_okD(3,6) [OF ok] r]]
      coalesce_canonical [OF R] gm_okD(1,2,4,5,7,8) [OF ok] gm_okD(9-14) [OF ok]
    by (auto simp: l(4) gm_limit_def)
  then show ?thesis
    using that [OF l(2) ins l0 l(1)] mapped max_1_nonzero [OF l0] pr by (simp add: prot_at_def id_at_def l(4))
qed

lemma adv_place_add: "adv_place b (adv_place a v) = adv_place (a + b) v"
  by (simp add: adv_place_def add.assoc)

lemma shared_ok_cut:
  assumes s: "shared_ok heap m" "seg_ok m" and p: "q \<in> set (cut_piece adv_place a e m)"
  shows "shared_ok heap q"
proof -
  define os where "os = max a (seg_address m)"
  define oe where "oe = min e (seg_end m)"
  have u: "seg_lo m \<le> unat os" "unat oe \<le> seg_hi m"
    by (simp_all add: os_def oe_def seg_lo_def seg_end_unat [OF s(2)])
  have b: "unat (snd (seg_val m)) + unat (seg_size m) \<le> unat (sb_size (heap (fst (seg_val m))))"
    "sb_ok (heap (fst (seg_val m)))" using s(1) by (auto simp: shared_ok_def)
  have hi: "seg_hi m = seg_lo m + unat (seg_size m)" by (simp add: seg_hi_def seg_lo_def)
  consider "q = m" | "os < oe" "seg_address m < os" "q = Seg (seg_address m) (os - seg_address m) (seg_val m)"
    | "os < oe" "oe < seg_end m" "q = Seg oe (seg_end m - oe) (adv_place (oe - seg_address m) (seg_val m))"
    using p by (auto simp: cut_piece_alt [OF s(2)] os_def [symmetric] oe_def [symmetric] Let_def split: if_splits)
  then show ?thesis
  proof cases
    case 1
    then show ?thesis using s(1) by simp
  next
    case 2
    have "unat (os - seg_address m) = unat os - seg_lo m"
      using 2(2) by (subst unat_sub_exact) (simp_all add: seg_lo_def word_less_nat_alt)
    then have "unat (snd (seg_val m)) + unat (os - seg_address m) \<le> unat (sb_size (heap (fst (seg_val m))))"
      using 2(1) b(1) u hi unfolding word_less_nat_alt by linarith
    then show ?thesis using 2(3) b(2) by (simp add: shared_ok_def)
  next
    case 3
    have d: "unat (oe - seg_address m) = unat oe - seg_lo m"
      using 3(1) u(1) unfolding word_less_nat_alt seg_lo_def by (subst unat_sub_exact) simp_all
    have e: "unat (seg_end m - oe) = seg_hi m - unat oe"
      using 3(2) by (subst unat_sub_exact) (simp_all add: seg_end_unat [OF s(2)] word_less_nat_alt)
    have "unat (snd (seg_val m) + (oe - seg_address m)) = unat (snd (seg_val m)) + (unat oe - seg_lo m)"
      unfolding d [symmetric]
      by (rule unat_add_exact)
        (use b(1) hi 3(1) u d unat_u64_less [of "sb_size (heap (fst (seg_val m)))"] in \<open>unfold word_less_nat_alt, linarith\<close>)
    then have "unat (snd (seg_val m) + (oe - seg_address m)) + unat (seg_end m - oe) \<le>
        unat (sb_size (heap (fst (seg_val m))))"
      using 3(1) b(1) u hi e unfolding word_less_nat_alt by linarith
    then show ?thesis using 3(3) b(2) by (simp add: shared_ok_def adv_place_def)
  qed
qed

text \<open>The byte of the memory's own storage at an address.\<close>

definition raw_byte :: "guest_memory \<Rightarrow> u64 \<Rightarrow> u8" where
  "raw_byte gm x = gm_bytes gm ! OffsetOf x gm"

lemma OffsetOf_unat:
  "inside x n gm \<Longrightarrow> OffsetOf x gm = unat x - unat (gm_base_address gm)"
  by (simp add: OffsetOf_def inside_def unat_sub_exact)

lemma raw_byte_overwrite:
  assumes ok: "gm_ok gm" and a: "inside a n gm" and len: "length ys = unat n" and x: "inside x 1 gm"
  shows "raw_byte (gm\<lparr>gm_bytes := overwrite (gm_bytes gm) (OffsetOf a gm) ys\<rparr>) x =
    (if in_range a n x then ys ! (unat x - unat a) else raw_byte gm x)"
    and "length (overwrite (gm_bytes gm) (OffsetOf a gm) ys) = unat (gm_storage_size gm)"
proof -
  note off = OffsetOf_unat [OF a] OffsetOf_unat [OF x]
  have room: "OffsetOf a gm + length ys \<le> length (gm_bytes gm)"
    using a gm_okD(2) [OF ok] by (auto simp: off(1) len inside_def gm_limit_def)
  then show "length (overwrite (gm_bytes gm) (OffsetOf a gm) ys) = unat (gm_storage_size gm)"
    using gm_okD(2) [OF ok] by simp
  have "OffsetOf x gm < length (gm_bytes gm)"
    using x gm_okD(2) [OF ok] by (auto simp: off(2) inside_def gm_limit_def)
  then have "overwrite (gm_bytes gm) (OffsetOf a gm) ys ! OffsetOf x gm =
      (if OffsetOf a gm \<le> OffsetOf x gm \<and> OffsetOf x gm < OffsetOf a gm + length ys
       then ys ! (OffsetOf x gm - OffsetOf a gm) else raw_byte gm x)"
    by (simp add: nth_overwrite [OF room] raw_byte_def)
  moreover have "OffsetOf a gm \<le> OffsetOf x gm \<and> OffsetOf x gm < OffsetOf a gm + length ys \<longleftrightarrow> in_range a n x"
    "in_range a n x \<Longrightarrow> OffsetOf x gm - OffsetOf a gm = unat x - unat a"
    using a x by (auto simp: off len in_range_def inside_def)
  moreover have "OffsetOf x (gm\<lparr>gm_bytes := ys'\<rparr>) = OffsetOf x gm" for ys' by (simp add: OffsetOf_def)
  ultimately show "raw_byte (gm\<lparr>gm_bytes := overwrite (gm_bytes gm) (OffsetOf a gm) ys\<rparr>) x =
    (if in_range a n x then ys ! (unat x - unat a) else raw_byte gm x)"
    by (simp add: raw_byte_def)
qed

lemma gm_ok_bytes: "gm_ok gm \<Longrightarrow> length bs = unat (gm_storage_size gm) \<Longrightarrow> gm_ok (gm\<lparr>gm_bytes := bs\<rparr>)"
  by (simp add: gm_ok_def table_ok_def gm_limit_def)

lemma zero_bytes_spec:
  assumes ok: "gm_ok gm" and a: "inside a n gm"
  shows "gm_ok (zero_bytes a n gm)"
    "inside x 1 gm \<Longrightarrow> raw_byte (zero_bytes a n gm) x = (if in_range a n x then 0 else raw_byte gm x)"
proof -
  show "gm_ok (zero_bytes a n gm)"
    unfolding zero_bytes_def
    by (rule gm_ok_bytes [OF ok raw_byte_overwrite(2) [OF ok a]]) (use a in \<open>auto simp: inside_def\<close>)
  show "raw_byte (zero_bytes a n gm) x = (if in_range a n x then 0 else raw_byte gm x)" if "inside x 1 gm"
    unfolding zero_bytes_def raw_byte_overwrite(1) [OF ok a length_replicate that]
    using that by (auto simp: in_range_def)
qed

lemma NotifyWrite_fields [simp]:
  "gm_base_address (NotifyWrite a n gm) = gm_base_address gm" "gm_storage_size (NotifyWrite a n gm) = gm_storage_size gm"
  "gm_mapping_granularity (NotifyWrite a n gm) = gm_mapping_granularity gm"
  "gm_host_mapped (NotifyWrite a n gm) = gm_host_mapped gm" "gm_bytes (NotifyWrite a n gm) = gm_bytes gm"
  "gm_regions (NotifyWrite a n gm) = gm_regions gm" "gm_identities (NotifyWrite a n gm) = gm_identities gm"
  "gm_shared (NotifyWrite a n gm) = gm_shared gm" "gm_heap (NotifyWrite a n gm) = gm_heap gm"
  "gm_next_mapping_generation (NotifyWrite a n gm) = gm_next_mapping_generation gm"
  "gm_mapping_generation_exhausted (NotifyWrite a n gm) = gm_mapping_generation_exhausted gm"
  "gm_write_observer (NotifyWrite a n gm) = gm_write_observer gm" "gm_live (NotifyWrite a n gm) = gm_live gm"
  by (simp_all add: NotifyWrite_def Let_def split: prod.splits bool.splits)

lemma gm_ok_NotifyWrite [simp]: "gm_ok (NotifyWrite a n gm) = gm_ok gm"
  by (simp add: gm_ok_def table_ok_def gm_limit_def)

lemma zero_bytes_fields [simp]:
  "gm_base_address (zero_bytes a n gm) = gm_base_address gm" "gm_storage_size (zero_bytes a n gm) = gm_storage_size gm"
  "gm_regions (zero_bytes a n gm) = gm_regions gm" "gm_identities (zero_bytes a n gm) = gm_identities gm"
  "gm_shared (zero_bytes a n gm) = gm_shared gm" "gm_heap (zero_bytes a n gm) = gm_heap gm"
  "gm_host_mapped (zero_bytes a n gm) = gm_host_mapped gm"
  "gm_next_mapping_generation (zero_bytes a n gm) = gm_next_mapping_generation gm"
  "gm_mapping_granularity (zero_bytes a n gm) = gm_mapping_granularity gm"
  by (simp_all add: zero_bytes_def)

lemma Unmap_fails:
  assumes u: "Unmap host a len gm = (False, gm')"
  shows "gm' = gm \<or> (\<exists>l. gm_host_mapped gm \<and> host 0 \<and> \<not> host 1 \<and> host_length a len gm = Some l \<and>
    len \<noteq> 0 \<and> IsMappedLocked a l gm \<and> gm' = NotifyWrite a l (zero_bytes a l gm))"
proof (cases "len = 0 \<or> host_length a len gm = None \<or> \<not> IsMappedLocked a (the (host_length a len gm)) gm")
  case True
  then have "Unmap host a len gm = (False, gm)"
    by (cases "len = 0"; cases "host_length a len gm") (simp_all add: Unmap_def)
  then show ?thesis using u by simp
next
  case False
  then obtain l where l: "len \<noteq> 0" "host_length a len gm = Some l" "IsMappedLocked a l gm" by auto
  show ?thesis
  proof (cases "gm_host_mapped gm \<and> \<not> (host 0 \<and> host 1)")
    case True
    then show ?thesis using u l by (auto simp: Unmap_def Let_def split: if_splits)
  next
    case False
    then have "fst (Unmap host a len gm)" using l by (auto simp: Unmap_def Let_def)
    then show ?thesis using u by simp
  qed
qed

lemma segs_ok_cut_shared:
  "segs_ok segs \<Longrightarrow> (\<forall>s \<in> set segs. shared_ok heap s) \<Longrightarrow>
   \<forall>s \<in> set (seg_cut adv_place a e segs). shared_ok heap s"
  by (auto simp: seg_cut_def dest: segs_okD intro: shared_ok_cut)

lemma Unmap_succeeds:
  assumes ok: "gm_ok gm" and m: "Unmap host a len gm = (True, gm')"
  obtains l where "host_length a len gm = Some l" "inside a l gm" "l \<noteq> 0" "len \<noteq> 0" "gm_ok gm'"
    "\<And>x. in_range a l x \<Longrightarrow> prot_at gm x \<noteq> None" "\<And>x. prot_at gm' x = (if in_range a l x then None else prot_at gm x)"
    "\<And>x. id_at gm' x = (if in_range a l x then None else id_at gm x)"
    "\<And>x. place_at gm' x = (if in_range a l x then None else place_at gm x)"
    "\<And>x. inside x 1 gm \<Longrightarrow> raw_byte gm' x = (if in_range a l x then 0 else raw_byte gm x)"
    "gm_heap gm' = gm_heap gm" "gm_next_mapping_generation gm' = gm_next_mapping_generation gm"
proof -
  obtain l where l: "len \<noteq> 0" "host_length a len gm = Some l" "IsMappedLocked a l gm"
    and e: "gm' = (zero_bytes a (if gm_host_mapped gm then l else len) gm)
      \<lparr>gm_regions := coalesce (seg_unmap a (a + l) (gm_regions gm)),
       gm_identities := coalesce (seg_cut (\<lambda>_ g. g) a (a + l) (gm_identities gm)),
       gm_shared := seg_cut adv_place a (a + l) (gm_shared gm)\<rparr>"
    using m by (auto simp: Unmap_def Let_def split: option.splits if_splits)
  note l0 = host_length_props(2) [OF ok l(1,2)]
  have "(if gm_host_mapped gm then l else len) = l" using host_length_props(4) [OF ok l(1,2)] by auto
  then have gm': "gm' = (zero_bytes a l gm)\<lparr>gm_regions := coalesce (seg_unmap a (a + l) (gm_regions gm)),
       gm_identities := coalesce (seg_cut (\<lambda>_ g. g) a (a + l) (gm_identities gm)),
       gm_shared := seg_cut adv_place a (a + l) (gm_shared gm)\<rparr>" using e by simp
  have ins: "inside a l gm" and mapped: "\<And>x. in_range a (max 1 l) x \<Longrightarrow> val_at (gm_regions gm) x \<noteq> None"
    using l(3) by (auto simp: IsMappedLocked_iff [OF ok])
  have r: "unat a < unat (a + l)" using range_end_unat [OF ok ins] l0 by (simp add: unat_gt_0)
  note so = gm_okD(3-5) [OF ok]
  note R = segs_ok_unmap [OF so(1) r] and I = segs_ok_cut [OF so(2) r] and S = segs_ok_cut [OF so(3) r]
  have pr: "val_at (gm_regions gm') x = (if in_range a l x then None else val_at (gm_regions gm) x)" for x
    by (simp add: gm' coalesce_at [OF R] val_at_unmap [OF so(1) r] in_range_alt [OF ok ins])
  have id: "val_at (gm_identities gm') x = (if in_range a l x then None else val_at (gm_identities gm) x)" for x
    using seg_at_cut [OF so(2) r, of "\<lambda>_ g. g" x]
    by (simp add: gm' coalesce_at [OF I] in_range_alt [OF ok ins])
  have pl: "seg_at adv_place (gm_shared gm') x =
      (if in_range a l x then None else seg_at adv_place (gm_shared gm) x)" for x
    using seg_at_cut [OF so(3) r, of adv_place x] by (simp add: gm' adv_place_add in_range_alt [OF ok ins])
  have sh: "val_at (gm_shared gm') x \<noteq> None \<Longrightarrow> \<not> in_range a l x \<and> val_at (gm_shared gm) x \<noteq> None" for x
    using pl [of x] seg_at_None_val_at [of adv_place "gm_shared gm'" x]
      seg_at_None_val_at [of adv_place "gm_shared gm" x] by (auto split: if_splits)
  have "v \<le> gm_next_mapping_generation gm" if "val_at (gm_identities gm') y = Some v" for y v
    using that id [of y] vals_iff [OF so(2), of "\<lambda>v. v \<le> gm_next_mapping_generation gm"] gm_okD(11) [OF ok]
    by (auto split: if_splits)
  moreover have iok: "segs_ok (gm_identities gm')" using coalesce_ok [OF I] by (simp add: gm')
  ultimately have bound: "\<forall>s \<in> set (gm_identities gm'). seg_val s \<le> gm_next_mapping_generation gm"
    using vals_iff [OF iok, of "\<lambda>v. v \<le> gm_next_mapping_generation gm"] by blast
  have fields: "gm_base_address gm' = gm_base_address gm" "gm_storage_size gm' = gm_storage_size gm"
    "gm_limit gm' = gm_limit gm" "gm_heap gm' = gm_heap gm" "gm_host_mapped gm' = gm_host_mapped gm"
    "gm_mapping_granularity gm' = gm_mapping_granularity gm"
    "gm_next_mapping_generation gm' = gm_next_mapping_generation gm" "gm_bytes gm' = gm_bytes (zero_bytes a l gm)"
    by (simp_all add: gm' gm_limit_def)
  have shared: "gm_shared gm' = seg_cut adv_place a (a + l) (gm_shared gm)" by (simp add: gm')
  have W: "segs_within (unat (gm_base_address gm)) (gm_limit gm) (gm_shared gm')"
    "segs_within (unat (gm_base_address gm)) (gm_limit gm) (gm_regions gm')"
    "segs_within (unat (gm_base_address gm)) (gm_limit gm) (gm_identities gm')"
    "segs_ok (gm_regions gm')" "segs_ok (gm_shared gm')" "canonical (gm_regions gm')"
    using segs_within_ops(3) [OF so(3) gm_okD(8) [OF ok] r] coalesce_canonical [OF R]
      coalesce_within [OF R segs_within_ops(2) [OF so(1) gm_okD(6) [OF ok] r]]
      coalesce_within [OF I segs_within_ops(3) [OF so(2) gm_okD(7) [OF ok] r]] coalesce_ok [OF R] S
    by (simp_all add: gm')
  have host: "gm_shared gm' = []" if "gm_host_mapped gm"
    using gm_okD(13) [OF ok that] by (simp add: shared seg_cut_def)
  have "gm_ok gm'"
    unfolding gm_ok_def table_ok_def fields pr id
    using W iok bound host sh segs_ok_cut_shared [OF so(3), of "gm_heap gm" a "a + l"] gm_okD(1) [OF ok]
      gm_okD(9,10,12,14) [OF ok] gm_okD(2) [OF zero_bytes_spec(1) [OF ok ins]]
    by (auto simp: shared)
  moreover have "raw_byte gm' x = (if in_range a l x then 0 else raw_byte gm x)" if "inside x 1 gm" for x
    using zero_bytes_spec(2) [OF ok ins that] by (simp add: raw_byte_def fields OffsetOf_def)
  ultimately show ?thesis
    using that [OF l(2) ins l0 l(1)] mapped max_1_nonzero [OF l0] pr id pl fields
    by (simp add: prot_at_def id_at_def place_at_def)
qed

section \<open>Mapping tokens\<close>

definition newest_in :: "generation seg list \<Rightarrow> u64 \<Rightarrow> u64 \<Rightarrow> generation \<Rightarrow> generation \<Rightarrow> bool" where
  "newest_in segs c r n g \<longleftrightarrow>
     n \<le> g \<and> (\<forall>x v. in_range c r x \<longrightarrow> val_at segs x = Some v \<longrightarrow> v \<le> g) \<and>
     (g = n \<or> (\<exists>x. in_range c r x \<and> val_at segs x = Some g))"

lemma val_at_Cons: "val_at (s # segs) x = (if in_seg x s then Some (seg_val s) else val_at segs x)"
  by (simp add: seg_at_def)

lemma token_walk_spec:
  assumes "segs_ok segs" "unat c + unat r < 18446744073709551616" "r \<noteq> 0" "segs \<noteq> []" "in_seg c (hd segs)"
    "\<forall>x. in_range c r x \<longrightarrow> val_at segs x \<noteq> None"
  shows "\<exists>g. token_walk c r n segs = Some g \<and> newest_in segs c r n g"
  using assms
proof (induction c r n segs rule: token_walk.induct)
  case (2 c r n s rest)
  have so: "seg_ok s" and sr: "segs_ok rest" using 2(2) by (auto simp: segs_ok_Cons)
  have cs: "in_seg c s" using 2(6) by simp
  then have inr: "\<not> (c < seg_address s \<or> c \<ge> seg_end s)"
    by (simp add: in_seg_def word_less_nat_alt word_le_nat_alt seg_end_unat [OF so] seg_lo_def)
  have av: "unat (seg_end s - c) = seg_hi s - unat c"
    using cs by (subst unat_sub_exact) (simp_all add: seg_end_unat [OF so] in_seg_def)
  show ?case
  proof (cases "unat r \<le> seg_hi s - unat c")
    case True
    then have "min r (seg_end s - c) = r" by (simp add: min_def word_le_nat_alt av)
    then have w: "token_walk c r n (s # rest) = Some (max n (seg_val s))" using inr by simp
    have "in_seg x s" if "in_range c r x" for x
      using that True cs by (auto simp: in_range_def in_seg_def)
    then have "newest_in (s # rest) c r n (max n (seg_val s))"
      using cs 2(4) by (auto simp: newest_in_def val_at_Cons max_def in_range_def unat_gt_0 intro: exI [of _ c])
    with w show ?thesis by blast
  next
    case False
    then have big: "seg_hi s - unat c < unat r" by simp
    note sp = in_range_split [OF so cs big 2(3)]
    define c' where "c' = c + (seg_end s - c)"
    define r' where "r' = r - (seg_end s - c)"
    note sp = sp [folded c'_def r'_def]
    have split: "in_range c r x \<longleftrightarrow> (unat c \<le> unat x \<and> unat x < seg_hi s) \<or> in_range c' r' x" for x
      using sp(6) [of x] max_1_nonzero [OF 2(4)] max_1_nonzero [OF sp(3)] by simp
    have out: "in_range c' r' x \<Longrightarrow> \<not> in_seg x s" for x using sp(1) by (auto simp: in_range_def in_seg_def)
    have cov: "\<forall>x. in_range c' r' x \<longrightarrow> val_at rest x \<noteq> None"
      using 2(7) split out by (simp add: val_at_Cons)
    have "in_range c' r' c'" using sp(3) by (simp add: in_range_def unat_gt_0)
    with cov obtain t where "t \<in> set rest" "in_seg c' t" by (auto simp: seg_at_None)
    from covered_end_hd [OF 2(2) this sp(1)] have hd: "rest \<noteq> []" "in_seg c' (hd rest)" by auto
    have w: "token_walk c r n (s # rest) = token_walk c' r' (max n (seg_val s)) rest"
      using inr sp(3,7) by (simp add: c'_def r'_def Let_def)
    have "\<exists>g. token_walk c' r' (max n (seg_val s)) rest = Some g \<and> newest_in rest c' r' (max n (seg_val s)) g"
      using 2(1) [OF inr refl refl _ sr _ _ hd(1)] sp(3,5,7) hd(2) cov
      unfolding c'_def r'_def by (simp add: c'_def r'_def)
    then obtain g where g: "token_walk c' r' (max n (seg_val s)) rest = Some g"
      "newest_in rest c' r' (max n (seg_val s)) g" by blast
    have first: "unat c \<le> unat x \<and> unat x < seg_hi s \<Longrightarrow> in_seg x s" for x using cs by (auto simp: in_seg_def)
    have "in_range c r c" "in_seg c s" using split cs by (auto simp: in_seg_def)
    then have "newest_in (s # rest) c r n g"
      using g(2) split out first unfolding newest_in_def val_at_Cons max_def by (auto split: if_splits)
    with w g(1) show ?thesis by auto
  qed
qed simp

lemma CaptureMappingToken_Some:
  assumes ok: "gm_ok gm" and n: "len \<noteq> 0" and m: "IsMappedLocked a len gm"
  obtains g where "CaptureMappingToken a len gm =
      Some \<lparr>mt_generation = g, mt_generation_exhausted = gm_mapping_generation_exhausted gm\<rparr>"
    "newest_in (gm_identities gm) a len (Generation 0 0) g"
proof -
  let ?ids = "gm_identities gm"
  note iok = gm_okD(4) [OF ok]
  have ins: "inside a len gm" and mapped: "\<And>x. in_range a len x \<Longrightarrow> val_at (gm_regions gm) x \<noteq> None"
    using m max_1_nonzero [OF n] by (auto simp: IsMappedLocked_iff [OF ok])
  have cov: "\<forall>x. in_range a len x \<longrightarrow> val_at ?ids x \<noteq> None" using mapped gm_okD(9) [OF ok] by simp
  have "in_range a len a" using n by (simp add: in_range_def unat_gt_0)
  then have il: "seg_index ?ids a < length ?ids" using cov seg_index_at(1) [OF iok] by metis
  define i where "i = seg_index ?ids a"
  have hd: "in_seg a (?ids ! i)" using seg_index_spec [OF iok, of a] il by (auto simp: i_def)
  let ?ins = "seg_lower_bound ?ids a"
  have idx: "if ?ins \<noteq> length ?ids \<and> seg_address (?ids ! ?ins) = a then i = ?ins else ?ins \<noteq> 0 \<and> i = ?ins - 1"
    using il seg_lower_bound_le [of ?ids a] by (auto simp: i_def seg_index_def Let_def split: if_splits)
  have dok: "segs_ok (drop i ?ids)" by (rule segs_ok_drop [OF iok])
  have same: "val_at (drop i ?ids) x = val_at ?ids x" if "in_range a len x" for x
  proof (rule option_eqI)
    fix v
    have "unat a \<le> unat x" using that by (simp add: in_range_def)
    then show "val_at (drop i ?ids) x = Some v \<longleftrightarrow> val_at ?ids x = Some v"
      using later_segs [OF iok _ hd] il unfolding val_at_iff [OF iok] val_at_iff [OF dok]
      by (auto simp: i_def dest: in_set_dropD)
  qed
  have "\<exists>g. token_walk a len (Generation 0 0) (drop i ?ids) = Some g \<and>
      newest_in (drop i ?ids) a len (Generation 0 0) g"
    using dok insideD [OF ok ins] n il hd cov same
    by (intro token_walk_spec) (auto simp: i_def hd_drop_conv_nth)
  then obtain g where g: "token_walk a len (Generation 0 0) (drop i ?ids) = Some g"
    "newest_in (drop i ?ids) a len (Generation 0 0) g" by blast
  have "newest_in ?ids a len (Generation 0 0) g" using g(2) same by (auto simp: newest_in_def)
  moreover have "CaptureMappingToken a len gm =
      Some \<lparr>mt_generation = g, mt_generation_exhausted = gm_mapping_generation_exhausted gm\<rparr>"
    using n m idx il g(1) unfolding CaptureMappingToken_def CaptureMappingTokenLocked_def
    by (auto simp: Let_def i_def [symmetric] split: if_splits)
  ultimately show ?thesis using that by blast
qed

lemma CaptureMappingToken_iff:
  assumes "gm_ok gm"
  shows "CaptureMappingToken a len gm \<noteq> None \<longleftrightarrow> len \<noteq> 0 \<and> IsMappedLocked a len gm"
  using CaptureMappingToken_Some [OF assms]
  by (auto simp: CaptureMappingToken_def CaptureMappingTokenLocked_def) metis

section \<open>Sequences of mapping operations\<close>

definition heap_ok :: "guest_memory \<Rightarrow> bool" where
  "heap_ok gm \<longleftrightarrow> (\<forall>b. sb_ok (gm_heap gm b))"

inductive gm_map_step :: "guest_memory \<Rightarrow> guest_memory \<Rightarrow> bool" where
  step_Map: "Map host a len p gm = (r, gm') \<Longrightarrow> gm_map_step gm gm'"
| step_MapShared: "MapShared host a len p backing off gm = (r, gm') \<Longrightarrow> gm_map_step gm gm'"
| step_Protect: "Protect host a len p gm = (r, gm') \<Longrightarrow> gm_map_step gm gm'"
| step_Unmap: "Unmap host a len gm = (r, gm') \<Longrightarrow> gm_map_step gm gm'"

abbreviation gm_map_steps :: "guest_memory \<Rightarrow> guest_memory \<Rightarrow> bool" where
  "gm_map_steps \<equiv> gm_map_step\<^sup>*\<^sup>*"

text \<open>What every mapping operation keeps: an identity is either the old one or newer than all old ones.\<close>

definition map_frame :: "guest_memory \<Rightarrow> guest_memory \<Rightarrow> bool" where
  "map_frame gm gm' \<longleftrightarrow>
     gm_ok gm' \<and> gm_heap gm' = gm_heap gm \<and> gm_next_mapping_generation gm \<le> gm_next_mapping_generation gm' \<and>
     (\<forall>x v. id_at gm' x = Some v \<longrightarrow> id_at gm x = Some v \<or> gm_next_mapping_generation gm < v)"

lemma map_frame_refl: "gm_ok gm \<Longrightarrow> map_frame gm gm"
  by (simp add: map_frame_def)

lemma map_frame_trans: "map_frame gm gm1 \<Longrightarrow> map_frame gm1 gm2 \<Longrightarrow> map_frame gm gm2"
  unfolding map_frame_def by (metis order.strict_trans1 order.trans)

lemma gm_heap_simps [simp]:
  "gm_heap (insert_mapping a l p g gm) = gm_heap gm"
  "gm_next_mapping_generation (insert_mapping a l p g gm) = gm_next_mapping_generation gm"
  by (simp_all add: insert_mapping_def)

lemma MapLocked_frame:
  assumes ok: "gm_ok gm" and m: "MapLocked host a len p gm = (r, gm')"
  shows "map_frame gm gm'"
proof (cases r)
  case True
  with m have "MapLocked host a len p gm = (True, gm')" by simp
  from ok this show ?thesis by (rule MapLocked_succeeds) (auto simp: map_frame_def)
next
  case False
  with m have m': "MapLocked host a len p gm = (False, gm')" by simp
  have "gm' = gm \<or> gm' = gm\<lparr>gm_mapping_generation_exhausted := True\<rparr> \<or>
     (\<exists>g > gm_next_mapping_generation gm. gm' = gm\<lparr>gm_next_mapping_generation := g\<rparr>)"
    using m' by (cases rule: MapLocked_cases [OF ok, of host a len p]) auto
  then show ?thesis using MapLocked_fails(1,3) [OF ok m'] by (auto simp: map_frame_def)
qed

lemma MapShared_frame:
  assumes ok: "gm_ok gm" and heap: "heap_ok gm" and m: "MapShared host a len p backing off gm = (r, gm')"
  shows "map_frame gm gm'"
proof -
  have "gm' = gm \<or> (\<exists>gm2 sh. MapLocked host a len p gm = (r, gm2) \<and> gm' = gm2\<lparr>gm_shared := sh\<rparr>)"
  proof (cases "MapLocked host a len p gm")
    case (Pair b gm2)
    then show ?thesis
      using m by (auto simp: MapShared_def Let_def MapLocked_shared split: option.splits if_splits bool.splits)
  qed
  then have "gm' = gm \<or> (gm_heap gm' = gm_heap gm \<and> gm_next_mapping_generation gm \<le> gm_next_mapping_generation gm' \<and>
     (\<forall>x v. id_at gm' x = Some v \<longrightarrow> id_at gm x = Some v \<or> gm_next_mapping_generation gm < v))"
  proof (elim disjE exE conjE)
    fix gm2 sh assume r: "MapLocked host a len p gm = (r, gm2)" and gm': "gm' = gm2\<lparr>gm_shared := sh\<rparr>"
    have "id_at gm' = id_at gm2" by (auto simp: gm' id_at_def)
    then show ?thesis using MapLocked_frame [OF ok r] by (simp add: map_frame_def gm')
  qed simp
  moreover have "gm_ok gm'"
  proof (cases r)
    case True
    with m have m': "MapShared host a len p backing off gm = (True, gm')" by simp
    have sb: "\<And>b. sb_ok (gm_heap gm b)" using heap by (simp add: heap_ok_def)
    show ?thesis by (rule MapShared_succeeds [OF ok sb m'])
  next
    case False
    then show ?thesis using MapShared_fails(1) [OF ok] m by simp
  qed
  ultimately show ?thesis by (auto simp: map_frame_def)
qed

lemma Protect_frame:
  assumes ok: "gm_ok gm" and m: "Protect host a len p gm = (r, gm')"
  shows "map_frame gm gm'"
proof (cases r)
  case True
  with m have "Protect host a len p gm = (True, gm')" by simp
  from ok this show ?thesis
  proof (rule Protect_succeeds)
    fix l assume "gm_ok gm'" "id_at gm' = id_at gm" "gm' = gm\<lparr>gm_regions := gm_regions gm'\<rparr>"
    moreover from arg_cong [OF this(3), of gm_heap] arg_cong [OF this(3), of gm_next_mapping_generation]
    have "gm_heap gm' = gm_heap gm" "gm_next_mapping_generation gm' = gm_next_mapping_generation gm" by simp_all
    ultimately show ?thesis by (simp add: map_frame_def)
  qed
next
  case False
  then show ?thesis using m Protect_fails map_frame_refl [OF ok] by metis
qed

lemma Unmap_frame:
  assumes ok: "gm_ok gm" and m: "Unmap host a len gm = (r, gm')"
  shows "map_frame gm gm'"
proof (cases r)
  case True
  with m have "Unmap host a len gm = (True, gm')" by simp
  from ok this show ?thesis by (rule Unmap_succeeds) (auto simp: map_frame_def split: if_splits)
next
  case False
  with m have "Unmap host a len gm = (False, gm')" by simp
  from Unmap_fails [OF this] consider "gm' = gm"
    | l where "host_length a len gm = Some l" "len \<noteq> 0" "IsMappedLocked a l gm" "gm' = NotifyWrite a l (zero_bytes a l gm)"
    by blast
  then show ?thesis
  proof cases
    case 2
    then have "inside a l gm" by (simp add: IsMappedLocked_iff [OF ok])
    then have "gm_ok gm'" using zero_bytes_spec [OF ok] 2 by simp
    then show ?thesis using 2 by (simp add: map_frame_def id_at_def)
  qed (simp add: map_frame_refl [OF ok])
qed

lemma gm_map_step_frame: "gm_map_step gm gm' \<Longrightarrow> gm_ok gm \<Longrightarrow> heap_ok gm \<Longrightarrow> map_frame gm gm'"
  by (induction rule: gm_map_step.induct)
    (simp_all add: Map_def MapLocked_frame MapShared_frame Protect_frame Unmap_frame)

lemma gm_map_steps_frame:
  "gm_map_steps gm gm' \<Longrightarrow> gm_ok gm \<Longrightarrow> heap_ok gm \<Longrightarrow> map_frame gm gm'"
proof (induction rule: rtranclp_induct)
  case (step gm1 gm2)
  then have "map_frame gm gm1" by simp
  moreover from this step.prems have "gm_ok gm1" "heap_ok gm1" by (simp_all add: map_frame_def heap_ok_def)
  ultimately show ?case using gm_map_step_frame [OF step.hyps(2)] map_frame_trans by blast
qed (simp add: map_frame_refl)

section \<open>Properties\<close>

lemma new_guest_memory_ok:
  assumes "new_guest_memory base n p heap = Some gm"
  shows "gm_ok gm" "gm_heap gm = heap"
proof -
  have room: "unat base + unat n < 18446744073709551616"
    using assms u64_overflow_test [of base n] by (auto simp: new_guest_memory_def split: if_splits)
  let ?a = "gm_regions gm = [] \<and> gm_identities gm = []"
  let ?b = "n \<noteq> 0 \<and> (\<exists>g. gm_regions gm = [Seg base n p] \<and> gm_identities gm = [Seg base n g] \<and>
    gm_next_mapping_generation gm = g)"
  have f: "gm_base_address gm = base" "gm_storage_size gm = n" "gm_bytes gm = replicate (unat n) 0"
    "gm_host_mapped gm = False" "gm_shared gm = []" "gm_heap gm = heap" "?a \<or> ?b"
    using assms by (auto simp: new_guest_memory_def AllocateMappingGenerationLocked_def Let_def split: if_splits prod.splits bool.splits)
  from f(7) show "gm_ok gm"
  proof
    assume ?a then show ?thesis using f room
      by (simp add: gm_ok_def table_ok_def gm_limit_def segs_within_def seg_at_def)
  next
    assume ?b then show ?thesis using f room
      by (auto simp: gm_ok_def table_ok_def gm_limit_def segs_within_def seg_at_def segs_ok_Cons seg_ok_def in_seg_def unat_gt_0)
  qed
  show "gm_heap gm = heap" by (rule f(6))
qed

definition small_memory :: guest_memory where
  "small_memory = the (new_guest_memory 0x1000 0x40 kNone (\<lambda>_. new_backing 0x8000))"

lemma small_memory_created: "new_guest_memory 0x1000 0x40 kNone (\<lambda>_. new_backing 0x8000) = Some small_memory"
  by (simp add: small_memory_def new_guest_memory_def Let_def IsValidProtection_def word_less_nat_alt unat_u64_max)

lemma small_memory_ok: "gm_ok small_memory" "heap_ok small_memory"
  using new_guest_memory_ok [OF small_memory_created] new_backing_ok [of "0x8000"] by (simp_all add: heap_ok_def)

definition mapped_memory :: guest_memory where
  "mapped_memory = snd (Map (\<lambda>_. True) 0x1010 0x10 (kRead OR kWrite) small_memory)"

lemma mapped_memory_ok: "gm_ok mapped_memory" "heap_ok mapped_memory"
proof -
  have "map_frame small_memory mapped_memory"
    unfolding mapped_memory_def Map_def by (rule MapLocked_frame [OF small_memory_ok(1) prod.collapse [symmetric]])
  then show "gm_ok mapped_memory" "heap_ok mapped_memory"
    using small_memory_ok(2) by (simp_all add: map_frame_def heap_ok_def)
qed

text \<open>
  C28: The access check is bytewise. \<open>CanAccess\<close>, which walks over the sorted region table, answers
  yes exactly if the range lies inside the memory and every byte of it (the first byte if the
  length is zero) is in a mapped region whose protection includes the required one.
\<close>

theorem access_check_is_bytewise:
  assumes "gm_ok gm"
  shows "CanAccess a n required gm \<longleftrightarrow>
    inside a n gm \<and> (\<forall>x. in_range a (max 1 n) x \<longrightarrow> (\<exists>p. prot_at gm x = Some p \<and> p AND required = required))"
  using CanAccessLocked_iff [OF assms] by (simp add: CanAccess_def prot_at_def granted_def)

theorem access_check_is_bytewise_witness:
  "gm_ok mapped_memory \<and> (CanAccess 0x1018 4 kWrite mapped_memory \<longleftrightarrow>
    inside 0x1018 4 mapped_memory \<and>
    (\<forall>x. in_range 0x1018 (max 1 4) x \<longrightarrow> (\<exists>p. prot_at mapped_memory x = Some p \<and> p AND kWrite = kWrite)))"
  using access_check_is_bytewise [of mapped_memory "0x1018" 4 kWrite] mapped_memory_ok by blast

text \<open>The abstract operation: set the protections of the rounded range, or do nothing.\<close>

definition sets_protection ::
  "u64 \<Rightarrow> u64 \<Rightarrow> u8 option \<Rightarrow> bool \<Rightarrow> guest_memory \<Rightarrow> bool \<times> guest_memory \<Rightarrow> bool" where
  "sets_protection a len v mapped gm result \<longleftrightarrow>
     (if fst result
      then \<exists>l. host_length a len gm = Some l \<and> inside a l gm \<and>
        (\<forall>x. in_range a l x \<longrightarrow> (prot_at gm x \<noteq> None) = mapped) \<and>
        (\<forall>x. prot_at (snd result) x = (if in_range a l x then v else prot_at gm x))
      else prot_at (snd result) = prot_at gm \<and> id_at (snd result) = id_at gm)"

lemma Map_sets: "gm_ok gm \<Longrightarrow> sets_protection a len (Some p) False gm (MapLocked host a len p gm)"
proof (cases "MapLocked host a len p gm")
  case (Pair r gm')
  assume ok: "gm_ok gm"
  show ?thesis
  proof (cases r)
    case True
    with Pair have m: "MapLocked host a len p gm = (True, gm')" by simp
    show ?thesis
      by (rule MapLocked_succeeds [OF ok m]) (auto simp: m sets_protection_def free_range_def prot_at_def)
  next
    case False
    with Pair show ?thesis using MapLocked_fails [OF ok] by (simp add: sets_protection_def)
  qed
qed

lemma Protect_sets: "gm_ok gm \<Longrightarrow> sets_protection a len (Some p) True gm (Protect host a len p gm)"
proof (cases "Protect host a len p gm")
  case (Pair r gm')
  assume ok: "gm_ok gm"
  show ?thesis
  proof (cases r)
    case True
    with Pair have m: "Protect host a len p gm = (True, gm')" by simp
    show ?thesis by (rule Protect_succeeds [OF ok m]) (simp add: m sets_protection_def)
  next
    case False
    with Pair show ?thesis using Protect_fails by (simp add: sets_protection_def) metis
  qed
qed

lemma Unmap_sets: "gm_ok gm \<Longrightarrow> sets_protection a len None True gm (Unmap host a len gm)"
proof (cases "Unmap host a len gm")
  case (Pair r gm')
  assume ok: "gm_ok gm"
  show ?thesis
  proof (cases r)
    case True
    with Pair have m: "Unmap host a len gm = (True, gm')" by simp
    show ?thesis by (rule Unmap_succeeds [OF ok m]) (simp add: m sets_protection_def)
  next
    case False
    with Pair have "Unmap host a len gm = (False, gm')" by simp
    from Unmap_fails [OF this] have "prot_at gm' = prot_at gm" "id_at gm' = id_at gm"
      by (auto simp: prot_at_def id_at_def)
    with False Pair show ?thesis by (simp add: sets_protection_def)
  qed
qed



text \<open>
  C29: \<open>Map\<close> on a memory with its own storage succeeds exactly if the protection is valid, the
  range is not empty, lies inside the memory and is wholly unmapped, and the generation counter
  is not used up; in every other case it reports failure.
\<close>

theorem map_succeeds_iff:
  assumes ok: "gm_ok gm" and own: "\<not> gm_host_mapped gm"
  shows "fst (Map host a len p gm) \<longleftrightarrow>
    IsValidProtection p \<and> len \<noteq> 0 \<and> inside a len gm \<and> (\<forall>x. in_range a len x \<longrightarrow> prot_at gm x = None) \<and>
    \<not> gm_mapping_generation_exhausted gm \<and> gm_next_mapping_generation gm \<noteq> Generation u64_max u64_max"
proof -
  have alloc: "fst (AllocateMappingGenerationLocked gm) \<noteq> None \<longleftrightarrow>
      \<not> gm_mapping_generation_exhausted gm \<and> gm_next_mapping_generation gm \<noteq> Generation u64_max u64_max"
    using Advance_fails [of "gm_next_mapping_generation gm"]
    by (cases "AdvanceGuestMemoryGeneration (gm_next_mapping_generation gm)")
      (auto simp: AllocateMappingGenerationLocked_def split: bool.splits)
  have own': "\<not> gm_host_mapped (snd (AllocateMappingGenerationLocked gm))"
    using own by (cases rule: Allocate_cases [of gm]) simp_all
  have "fst (MapLocked host a len p gm) \<longleftrightarrow>
      IsValidProtection p \<and> CanMapLocked a len gm \<and> fst (AllocateMappingGenerationLocked gm) \<noteq> None"
    using own own' CanMapLocked_iff [OF ok, of a len]
    by (cases "AllocateMappingGenerationLocked gm"; cases "fst (AllocateMappingGenerationLocked gm)")
      (simp_all add: MapLocked_def host_length_def)
  then show ?thesis
    using own unfolding Map_def alloc CanMapLocked_iff [OF ok] free_range_def prot_at_def
    by (auto simp: host_length_def)
qed

theorem map_succeeds_iff_witness:
  "gm_ok mapped_memory \<and> \<not> gm_host_mapped mapped_memory \<and>
   (fst (Map (\<lambda>_. True) 0x1020 8 kRead mapped_memory) \<longleftrightarrow>
    IsValidProtection kRead \<and> (8 :: u64) \<noteq> 0 \<and> inside 0x1020 8 mapped_memory \<and>
    (\<forall>x. in_range 0x1020 8 x \<longrightarrow> prot_at mapped_memory x = None) \<and>
    \<not> gm_mapping_generation_exhausted mapped_memory \<and>
    gm_next_mapping_generation mapped_memory \<noteq> Generation u64_max u64_max)"
proof -
  have "\<not> gm_host_mapped mapped_memory" by code_simp
  then show ?thesis using map_succeeds_iff [OF mapped_memory_ok(1)] mapped_memory_ok(1) by blast
qed

text \<open>
  C22: Mapping tokens detect remapping. If a token is taken for a range, any mapping operations
  run, and a token taken afterwards for the same range has the same generation, then at every
  moment in between each byte of the range had the identity it has at the end: no byte was
  unmapped and mapped again.
\<close>

theorem tokens_detect_remapping:
  assumes ok: "gm_ok gm" "heap_ok gm"
    and steps: "gm_map_steps gm gm1" "gm_map_steps gm1 gm2"
    and before: "CaptureMappingToken a len gm = Some t"
    and after: "CaptureMappingToken a len gm2 = Some t'"
    and same: "mt_generation t = mt_generation t'"
    and x: "in_range a len x"
  shows "id_at gm1 x = id_at gm2 x \<and> id_at gm2 x \<noteq> None"
proof -
  have f1: "map_frame gm gm1" using gm_map_steps_frame [OF steps(1) ok] .
  then have ok1: "gm_ok gm1" "heap_ok gm1" using ok by (simp_all add: map_frame_def heap_ok_def)
  have f2: "map_frame gm1 gm2" using gm_map_steps_frame [OF steps(2) ok1] .
  then have ok2: "gm_ok gm2" by (simp add: map_frame_def)
  have n0: "len \<noteq> 0" "IsMappedLocked a len gm" "IsMappedLocked a len gm2"
    using before after CaptureMappingToken_iff [OF ok(1), of a len] CaptureMappingToken_iff [OF ok2, of a len] by auto
  have new: "newest_in (gm_identities m) a len (Generation 0 0) (mt_generation u)"
    if "gm_ok m" "IsMappedLocked a len m" "CaptureMappingToken a len m = Some u" for m u
    by (rule CaptureMappingToken_Some [OF that(1) n0(1) that(2)]) (use that(3) in simp)
  define g where "g = mt_generation t"
  note g = new [OF ok(1) n0(2) before, folded g_def] and g' = new [OF ok2 n0(3) after, folded same g_def]
  have "g \<le> gm_next_mapping_generation gm"
  proof (cases "g = Generation 0 0")
    case False
    with g obtain y where "val_at (gm_identities gm) y = Some g" by (auto simp: newest_in_def)
    then show ?thesis using gm_okD(11) [OF ok(1)] by (auto simp: val_at_iff [OF gm_okD(4) [OF ok(1)]])
  qed (simp add: generation_least)
  then have old: "g \<le> gm_next_mapping_generation gm1" using f1 by (auto simp: map_frame_def)
  have "val_at (gm_regions gm2) x \<noteq> None"
    using n0(3) x max_1_nonzero [OF n0(1)] by (simp add: IsMappedLocked_iff [OF ok2])
  then obtain v where v: "id_at gm2 x = Some v" using gm_okD(9) [OF ok2, of x] by (auto simp: id_at_def)
  then have "v \<le> g" using g' x by (simp add: newest_in_def id_at_def)
  with old v f2 have "id_at gm1 x = Some v" unfolding map_frame_def by (metis leD order.trans)
  with v show ?thesis by simp
qed

theorem tokens_detect_remapping_witness:
  "\<exists>gm2. gm_map_step mapped_memory gm2 \<and> gm2 = snd (Map (\<lambda>_. True) 0x1028 8 kRead mapped_memory) \<and>
     id_at mapped_memory 0x1018 = id_at gm2 0x1018 \<and> id_at gm2 0x1018 \<noteq> None"
proof -
  let ?gm2 = "snd (Map (\<lambda>_. True) 0x1028 8 kRead mapped_memory)"
  let ?t = "\<lparr>mt_generation = Generation 0 1, mt_generation_exhausted = False\<rparr>"
  have step: "gm_map_step mapped_memory ?gm2" by (rule step_Map [OF prod.collapse [symmetric]])
  then have steps: "gm_map_steps mapped_memory ?gm2" by (rule r_into_rtranclp)
  have t: "CaptureMappingToken 0x1010 16 mapped_memory = Some ?t" by code_simp
  have t': "CaptureMappingToken 0x1010 16 ?gm2 = Some ?t" by code_simp
  have "in_range 0x1010 16 0x1018" by code_simp
  from tokens_detect_remapping [OF mapped_memory_ok rtranclp.rtrancl_refl steps t t' refl this]
    step show ?thesis by blast
qed

end
