(* ===== verification/Guest_Search.thy ===== *)
theory Guest_Search
  imports Guest_Mapping
begin

text \<open>
  The search for a free range, \<open>FindUnmappedRange\<close>: the linear pass over the region table
  returns the least suitable address, and gives up only if there is none.
\<close>

section \<open>The pass over the regions\<close>

definition fits :: "u64 \<Rightarrow> u64 \<Rightarrow> u64 \<Rightarrow> 'p seg list \<Rightarrow> u64 \<Rightarrow> bool" where
  "fits A n c segs d \<longleftrightarrow> unat A dvd unat d \<and> unat c \<le> unat d \<and>
     (\<forall>s \<in> set segs. seg_hi s \<le> unat d \<or> unat d + unat n \<le> seg_lo s)"

lemma fits_skip: "seg_hi s \<le> unat c \<Longrightarrow> fits A n c (s # segs) d \<longleftrightarrow> fits A n c segs d"
  by (auto simp: fits_def)

lemma fits_next:
  assumes A: "is_power_of_two A" and so: "seg_ok s" and al: "align_up_mask A (seg_end s) = Some c'"
    and le: "unat c \<le> seg_hi s" and nf: "unat c + unat n > seg_lo s"
  shows "fits A n c (s # segs) d \<longleftrightarrow> fits A n c' segs d"
proof -
  have "seg_hi s \<le> unat c'" using align_up_mask_Some(1) [OF A al] by (simp add: seg_end_unat [OF so])
  moreover have "unat c' \<le> unat d" if "unat A dvd unat d" "seg_hi s \<le> unat d"
    using align_up_mask_Some(3) [OF A al that(1)] that(2) by (simp add: seg_end_unat [OF so])
  ultimately show ?thesis using le nf unfolding fits_def by force
qed

lemma fits_none:
  assumes A: "is_power_of_two A" and so: "seg_ok s" and al: "align_up_mask A (seg_end s) = None"
    and nf: "unat c + unat n > seg_lo s"
  shows "\<not> fits A n c (s # segs) d"
  using align_up_mask_None [OF A al, of "unat d"] unat_u64_less [of d] nf
  by (auto simp: fits_def seg_end_unat [OF so])

definition scan_ok :: "u64 \<Rightarrow> u64 \<Rightarrow> u64 \<Rightarrow> 'p seg list \<Rightarrow> (bool \<times> u64) option \<Rightarrow> bool" where
  "scan_ok A n c segs r \<longleftrightarrow>
     (case r of
        None \<Rightarrow> \<forall>d. \<not> fits A n c segs d
      | Some (early, e) \<Rightarrow> fits A n c segs e \<and> (\<forall>d. fits A n c segs d \<longrightarrow> unat e \<le> unat d) \<and>
          (early \<longrightarrow> (\<exists>s \<in> set segs. unat e + unat n \<le> seg_lo s)))"

lemma scan_ok_Cons:
  assumes "\<And>d. fits A n c (s # segs) d \<longleftrightarrow> fits A n c' segs d" "scan_ok A n c' segs r"
  shows "scan_ok A n c (s # segs) r"
  using assms by (auto simp: scan_ok_def split: option.splits)

lemma FindUnmapped_loop_spec:
  assumes "is_power_of_two A" "segs_ok segs" "n \<noteq> 0" "unat A dvd unat c"
  shows "scan_ok A n c segs (FindUnmapped_loop A n c segs)"
  using assms
proof (induction A n c segs rule: FindUnmapped_loop.induct)
  case (1 A n c)
  then show ?case by (simp add: scan_ok_def fits_def)
next
  case (2 A n c s rest)
  have so: "seg_ok s" and sr: "segs_ok rest" and after: "\<And>t. t \<in> set rest \<Longrightarrow> seg_hi s \<le> seg_lo t"
    using 2(4) by (auto simp: segs_ok_Cons)
  have e: "unat (seg_end s) = seg_hi s" by (rule seg_end_unat [OF so])
  have lo: "unat (seg_address s) = seg_lo s" by (rule unat_seg_address)
  consider (skip) "seg_end s \<le> c"
    | (take) "\<not> seg_end s \<le> c" "c < seg_address s" "n \<le> seg_address s - c"
    | (go) "\<not> seg_end s \<le> c" "\<not> (c < seg_address s \<and> n \<le> seg_address s - c)"
    by blast
  then show ?case
  proof cases
    case skip
    then have h: "seg_hi s \<le> unat c" by (simp add: word_le_nat_alt e)
    have "FindUnmapped_loop A n c (s # rest) = FindUnmapped_loop A n c rest" using skip by (simp add: Let_def)
    then show ?thesis
      using scan_ok_Cons [OF fits_skip [OF h] 2(1) [OF refl skip 2(3) sr 2(5,6)]] by simp
  next
    case take
    have room: "unat c + unat n \<le> seg_lo s"
      using take(2,3) unat_sub_exact [of c "seg_address s"] by (simp add: word_le_nat_alt word_less_nat_alt lo)
    have "seg_lo s \<le> seg_hi s" using so by (simp add: seg_lo_def seg_hi_def)
    with room after have "fits A n c (s # rest) c" using 2(6) by (fastforce simp: fits_def)
    then show ?thesis using take room by (auto simp: scan_ok_def Let_def) (simp add: fits_def)
  next
    case go
    have le: "unat c \<le> seg_hi s" using go(1) by (simp add: word_le_nat_alt e)
    have nf: "unat c + unat n > seg_lo s"
      using go(2) 2(5) unat_sub_exact [of c "seg_address s"]
      by (auto simp: word_le_nat_alt word_less_nat_alt lo unat_gt_0 [symmetric])
    show ?thesis
    proof (cases "align_up_mask A (seg_end s)")
      case None
      then show ?thesis using fits_none [OF 2(3) so None nf] go by (auto simp: Let_def scan_ok_def)
    next
      case (Some c')
      have "FindUnmapped_loop A n c (s # rest) = FindUnmapped_loop A n c' rest"
        using go Some by (auto simp: Let_def)
      then show ?thesis
        using scan_ok_Cons [OF fits_next [OF 2(3) so Some le nf]
            2(2) [OF refl go Some 2(3) sr 2(5) align_up_mask_Some(2) [OF 2(3) Some]]] by simp
    qed
  qed
qed

section \<open>The search\<close>

definition suitable :: "u64 \<Rightarrow> u64 \<Rightarrow> u64 \<Rightarrow> guest_memory \<Rightarrow> u64 \<Rightarrow> bool" where
  "suitable start n A gm d \<longleftrightarrow> unat A dvd unat d \<and> start \<le> d \<and> inside d n gm \<and> free_range (gm_regions gm) d n"

lemma suitable_iff:
  assumes ok: "gm_ok gm" and n: "n \<noteq> 0" and A: "is_power_of_two A"
    and c: "align_up_mask A (max start (gm_base_address gm)) = Some c"
  shows "suitable start n A gm d \<longleftrightarrow> inside d n gm \<and> fits A n c (gm_regions gm) d"
proof (cases "inside d n gm")
  case True
  have "unat A dvd unat d \<Longrightarrow> start \<le> d \<longleftrightarrow> unat c \<le> unat d"
    using align_up_mask_Some(1) [OF A c] align_up_mask_Some(3) [OF A c, of "unat d"] True
    by (auto simp: inside_def word_le_nat_alt max_def split: if_splits)
  then show ?thesis
    using True free_range_iff [OF gm_okD(3) [OF ok] n insideD [OF ok True]] by (auto simp: suitable_def fits_def)
qed (simp add: suitable_def)

lemma inside_earlier:
  "inside d n gm \<Longrightarrow> unat e \<le> unat d \<Longrightarrow> unat (gm_base_address gm) \<le> unat e \<Longrightarrow> inside e n gm"
  by (auto simp: inside_def)

lemma FindUnmapped_search_spec:
  assumes ok: "gm_ok gm" and n: "n \<noteq> 0" and A: "is_power_of_two A"
  shows "case FindUnmapped_search start n A gm of
      None \<Rightarrow> \<forall>d. \<not> suitable start n A gm d
    | Some c \<Rightarrow> suitable start n A gm c \<and> (\<forall>d. suitable start n A gm d \<longrightarrow> c \<le> d)"
proof (cases "align_up_mask A (max start (gm_base_address gm))")
  case None
  have "\<not> suitable start n A gm d" for d
    using align_up_mask_None [OF A None, of "unat d"] unat_u64_less [of d]
    by (auto simp: suitable_def inside_def word_le_nat_alt)
  with None show ?thesis by (simp add: FindUnmapped_search_def)
next
  case (Some c)
  note L = FindUnmapped_loop_spec [OF A gm_okD(3) [OF ok] n align_up_mask_Some(2) [OF A Some], unfolded scan_ok_def]
  note S = suitable_iff [OF ok n A Some]
  have base: "unat (gm_base_address gm) \<le> unat c"
    using align_up_mask_Some(1) [OF A Some] by (simp add: max_def word_le_nat_alt split: if_splits)
  show ?thesis
  proof (cases "FindUnmapped_loop A n c (gm_regions gm)")
    case None
    then show ?thesis using L Some by (simp add: FindUnmapped_search_def S)
  next
    case (Some r)
    then obtain early e where r: "FindUnmapped_loop A n c (gm_regions gm) = Some (early, e)" by (cases r) auto
    have f: "fits A n c (gm_regions gm) e" "\<And>d. fits A n c (gm_regions gm) d \<Longrightarrow> e \<le> d"
      using L r by (simp_all add: word_le_nat_alt)
    have b: "unat (gm_base_address gm) \<le> unat e" using f(1) base by (simp add: fits_def)
    have "early \<Longrightarrow> inside e n gm"
      using L r gm_okD(6) [OF ok] b n gm_okD(3) [OF ok]
      by (fastforce simp: segs_within_def inside_def gm_limit_def segs_ok_def seg_ok_def seg_hi_def seg_lo_def unat_gt_0 [symmetric])
    then show ?thesis
      using f b r inside_earlier [OF _ _ b] \<open>align_up_mask A _ = Some c\<close>
      by (auto simp: FindUnmapped_search_def S Contains_iff word_le_nat_alt split: bool.splits)
  qed
qed

text \<open>
  C27: The search for a free range is exact. For a memory with its own storage, a non-empty
  length and a power-of-two alignment, \<open>FindUnmappedRange\<close> returns the least address that is
  aligned, not below the start of the search, inside the memory and followed by enough unmapped
  bytes, and it returns nothing only if there is no such address. Any other length or
  alignment is refused.
\<close>

theorem find_unmapped_is_first_fit:
  assumes ok: "gm_ok gm" and own: "\<not> gm_host_mapped gm"
  shows "case FindUnmappedRange start n A gm of
      None \<Rightarrow> n = 0 \<or> A = 0 \<or> A AND (A - 1) \<noteq> 0 \<or> (\<forall>d. \<not> suitable start n A gm d)
    | Some c \<Rightarrow> suitable start n A gm c \<and> (\<forall>d. suitable start n A gm d \<longrightarrow> c \<le> d)"
proof (cases "n = 0 \<or> A = 0 \<or> A AND (A - 1) \<noteq> 0")
  case True
  then show ?thesis by (auto simp: FindUnmappedRange_def)
next
  case False
  then have "is_power_of_two A" by (simp add: is_power_of_two_def)
  from FindUnmapped_search_spec [OF ok _ this, of n start] False own
  show ?thesis by (auto simp: FindUnmappedRange_def split: option.splits)
qed

theorem find_unmapped_is_first_fit_witness:
  "gm_ok mapped_memory \<and> \<not> gm_host_mapped mapped_memory \<and>
   FindUnmappedRange 0x1008 0x10 8 mapped_memory = Some 0x1020 \<and>
   suitable 0x1008 0x10 8 mapped_memory 0x1020 \<and> \<not> suitable 0x1008 0x10 8 mapped_memory 0x1018"
proof -
  have o: "\<not> gm_host_mapped mapped_memory" by code_simp
  have r: "FindUnmappedRange 0x1008 0x10 8 mapped_memory = Some 0x1020" by code_simp
  show ?thesis
    using find_unmapped_is_first_fit [OF mapped_memory_ok(1) o, where start = "0x1008" and n = "0x10" and A = 8] o r mapped_memory_ok(1) by fastforce
qed

end
