(* ===== verification/Mutation_Report.thy ===== *)
theory Mutation_Report
  imports Guest_Mapping
begin

text \<open>
  The report of the address ranges that one mutation touched: \<open>MutationReport::Add\<close>, which merges
  touching ranges and falls back to the whole memory when more than 64 disjoint ranges are
  needed, \<open>RecordActualWriteRangeLocked\<close>, which adds every alias of a written range, and
  \<open>NotifyMutationReport\<close>. The main lemmas: the report covers exactly the addresses that see the
  written bytes.
\<close>

section \<open>Operations\<close>

record mutation_report =
  mr_ranges :: "(u64 \<times> u64) list"
  mr_whole_memory :: bool

definition new_report :: mutation_report where
  "new_report = \<lparr>mr_ranges = [], mr_whole_memory = False\<rparr>"

abbreviation kMaximumExactRanges :: nat where
  "kMaximumExactRanges \<equiv> 64"

text \<open>The merging loop; a merged entry is replaced by the last one, which is visited next.\<close>

function add_loop :: "nat \<Rightarrow> u64 \<Rightarrow> u64 \<Rightarrow> (u64 \<times> u64) list \<Rightarrow> u64 \<times> u64 \<times> (u64 \<times> u64) list" where
  "add_loop index merged_start merged_end ranges =
     (if index \<ge> length ranges then (merged_start, merged_end, ranges)
      else
        let (existing, len) = ranges ! index;
            existing_end = existing + len
        in if existing > merged_end \<or> merged_start > existing_end
           then add_loop (Suc index) merged_start merged_end ranges
           else add_loop index (min merged_start existing) (max merged_end existing_end)
                  (butlast (ranges[index := last ranges])))"
  by pat_completeness auto
termination by (relation "measure (\<lambda>(i, s, e, r). length r - i)") auto

declare add_loop.simps [simp del]

definition Add :: "u64 \<Rightarrow> u64 \<Rightarrow> mutation_report \<Rightarrow> mutation_report" where
  "Add address len r =
     (if mr_whole_memory r \<or> len = 0 then r
      else
        let (merged_start, merged_end, ranges) = add_loop 0 address (address + len) (mr_ranges r)
        in if length ranges = kMaximumExactRanges then \<lparr>mr_ranges = [], mr_whole_memory = True\<rparr>
           else r\<lparr>mr_ranges := ranges @ [(merged_start, merged_end - merged_start)]\<rparr>)"

text \<open>
  Which bytes follow \<open>current\<close>: the place in a backing (if \<open>current\<close> is in a shared mapping), and
  how many bytes until that mapping ends or the next one begins (\<open>None\<close>: no further mapping).
\<close>

definition piece_at :: "u64 \<Rightarrow> guest_memory \<Rightarrow> shared_place option \<times> u64 option" where
  "piece_at current gm =
     (let shared_index = FindSharedMapping current gm in
      if shared_index \<noteq> length (gm_shared gm)
      then
        let mapping = gm_shared gm ! shared_index;
            mapping_offset = current - seg_address mapping
        in (Some (adv_place mapping_offset (seg_val mapping)), Some (seg_size mapping - mapping_offset))
      else
        let next_index = seg_lower_bound (gm_shared gm) current
        in (None, if next_index \<noteq> length (gm_shared gm)
                  then Some (seg_address (gm_shared gm ! next_index) - current) else None))"

definition piece_chunk :: "u64 option \<Rightarrow> u64 \<Rightarrow> u64" where
  "piece_chunk limit remaining = (case limit of None \<Rightarrow> remaining | Some l \<Rightarrow> min remaining l)"

lemma piece_chunk_progress:
  "piece_chunk limit n \<noteq> 0 \<Longrightarrow> unat (n - piece_chunk limit n) < unat n"
  by (auto simp: piece_chunk_def unat_sub_exact word_le_nat_alt min_def unat_gt_0
      intro!: diff_less split: option.splits)

text \<open>The loop over the aliases; the flag says whether one was reported.\<close>

fun alias_loop :: "nat \<Rightarrow> u64 \<Rightarrow> u64 \<Rightarrow> shared_place seg list \<Rightarrow> bool \<Rightarrow> mutation_report \<Rightarrow> bool \<times> mutation_report" where
  "alias_loop backing backing_start backing_end [] reported r = (reported, r)"
| "alias_loop backing backing_start backing_end (al # rest) reported r =
     (let (alias_backing, alias_offset) = seg_val al in
      if alias_backing \<noteq> backing then alias_loop backing backing_start backing_end rest reported r
      else
        let alias_backing_end = alias_offset + seg_size al;
            overlap_start = max backing_start alias_offset;
            overlap_end = min backing_end alias_backing_end
        in if overlap_start \<ge> overlap_end
           then alias_loop backing backing_start backing_end rest reported r
           else
             let r' = Add (seg_address al + overlap_start - alias_offset) (overlap_end - overlap_start) r
             in if mr_whole_memory r' then (True, r')
                else alias_loop backing backing_start backing_end rest True r')"

text \<open>An iteration that makes no progress would never end; it is the value \<open>None\<close>.\<close>

function record_loop :: "u64 \<Rightarrow> u64 \<Rightarrow> guest_memory \<Rightarrow> mutation_report \<Rightarrow> mutation_report option" where
  "record_loop current remaining gm r =
     (if remaining = 0 \<or> mr_whole_memory r then Some r
      else
        let (place, limit) = piece_at current gm;
            chunk = piece_chunk limit remaining
        in if chunk = 0 then None
           else
             let r' = (case place of
                 None \<Rightarrow> Add current chunk r
               | Some (backing, backing_start) \<Rightarrow>
                   let (reported_alias, r1) =
                     alias_loop backing backing_start (backing_start + chunk) (gm_shared gm) False r
                   in if \<not> reported_alias then Add current chunk r1 else r1)
             in record_loop (current + chunk) (remaining - chunk) gm r')"
  by pat_completeness auto
termination by (relation "measure (\<lambda>(c, n, gm, r). unat n)") (auto intro: piece_chunk_progress)

declare record_loop.simps [simp del]

definition RecordActualWriteRangeLocked ::
  "mutation_report \<Rightarrow> u64 \<Rightarrow> u64 \<Rightarrow> guest_memory \<Rightarrow> mutation_report option" where
  "RecordActualWriteRangeLocked mutations address len gm = record_loop address len gm mutations"

definition NotifyMutationReport :: "mutation_report \<Rightarrow> guest_memory \<Rightarrow> guest_memory" where
  "NotifyMutationReport mutations gm =
     (if mr_whole_memory mutations then NotifyWrite (gm_base_address gm) (gm_storage_size gm) gm
      else fold (\<lambda>(address, len). NotifyWrite address len) (mr_ranges mutations) gm)"

section \<open>Adding a range\<close>

definition range_ok :: "u64 \<times> u64 \<Rightarrow> bool" where
  "range_ok = (\<lambda>(a, n). n \<noteq> 0 \<and> unat a + unat n < 18446744073709551616)"

definition in_ranges :: "(u64 \<times> u64) list \<Rightarrow> u64 \<Rightarrow> bool" where
  "in_ranges rs x \<longleftrightarrow> (\<exists>(a, n) \<in> set rs. in_range a n x)"

definition mr_ok :: "mutation_report \<Rightarrow> bool" where
  "mr_ok r \<longleftrightarrow> (\<forall>e \<in> set (mr_ranges r). range_ok e) \<and> length (mr_ranges r) \<le> kMaximumExactRanges"

definition covered :: "mutation_report \<Rightarrow> u64 \<Rightarrow> bool" where
  "covered r x \<longleftrightarrow> mr_whole_memory r \<or> in_ranges (mr_ranges r) x"

lemma swap_remove:
  assumes "i < length xs"
  shows "insert (xs ! i) (set (butlast (xs[i := last xs]))) = set xs"
proof -
  obtain ys z where xs: "xs = ys @ [z]" using assms by (cases xs rule: rev_cases) auto
  show ?thesis
  proof (cases "i = length ys")
    case False
    with assms xs have i: "i < length ys" by simp
    have "insert (ys ! i) (set (ys[i := z])) = insert z (set ys)"
      by (subst (3) id_take_nth_drop [OF i]) (use i in \<open>auto simp: upd_conv_take_nth_drop\<close>)
    then show ?thesis using i xs by (simp add: list_update_append nth_append)
  qed (simp add: xs)
qed

lemma add_loop_spec:
  assumes "\<forall>e \<in> set rs. range_ok e" "unat s < unat e" "add_loop i s e rs = (s', e', rs')"
  shows "unat s' < unat e' \<and> set rs' \<subseteq> set rs \<and> length rs' \<le> length rs \<and>
    (\<forall>x. (unat s' \<le> unat x \<and> unat x < unat e') \<or> in_ranges rs' x \<longleftrightarrow>
         (unat s \<le> unat x \<and> unat x < unat e) \<or> in_ranges rs x)"
  using assms
proof (induction i s e rs rule: add_loop.induct)
  case (1 i s e rs)
  show ?case
  proof (cases "i \<ge> length rs")
    case True
    then show ?thesis using 1(4,5) by (simp add: add_loop.simps)
  next
    case False
    then have i: "i < length rs" by simp
    obtain a n where an: "rs ! i = (a, n)" by fastforce
    have ok: "n \<noteq> 0" "unat a + unat n < 18446744073709551616"
      using 1(3) nth_mem [OF i] an by (auto simp: range_ok_def)
    have en: "unat (a + n) = unat a + unat n" by (rule unat_add_exact [OF ok(2)])
    show ?thesis
    proof (cases "a > e \<or> s > a + n")
      case True
      with False an 1(5) have "add_loop (Suc i) s e rs = (s', e', rs')" by (subst (asm) add_loop.simps) simp
      with 1(1) [OF False an [symmetric] refl refl True 1(3,4)] show ?thesis by simp
    next
      case touch: False
      let ?rs = "butlast (rs[i := last rs])"
      have set: "insert (a, n) (set ?rs) = set rs" using swap_remove [OF i] an by simp
      have l: "add_loop i (min s a) (max e (a + n)) ?rs = (s', e', rs')"
        using False an 1(5) touch by (subst (asm) add_loop.simps) simp
      have t: "unat a \<le> unat e" "unat s \<le> unat a + unat n"
        using touch by (auto simp: word_less_nat_alt en)
      have "unat (min s a) < unat (max e (a + n))" using 1(4) by (simp add: min_less_iff_disj less_max_iff_disj)
      with 1(2) [OF False an [symmetric] refl refl touch] set 1(3) l
      have ih: "unat s' < unat e' \<and> set rs' \<subseteq> set ?rs \<and> length rs' \<le> length ?rs \<and>
        (\<forall>x. (unat s' \<le> unat x \<and> unat x < unat e') \<or> in_ranges rs' x \<longleftrightarrow>
         (unat (min s a) \<le> unat x \<and> unat x < unat (max e (a + n))) \<or> in_ranges ?rs x)" by blast
      have "in_ranges rs x \<longleftrightarrow> (unat a \<le> unat x \<and> unat x < unat a + unat n) \<or> in_ranges ?rs x" for x
        unfolding in_ranges_def set [symmetric] by (simp add: in_range_def)
      moreover have "unat (min s a) \<le> unat x \<and> unat x < unat (max e (a + n)) \<longleftrightarrow>
          (unat s \<le> unat x \<and> unat x < unat e) \<or> (unat a \<le> unat x \<and> unat x < unat a + unat n)" for x
        using 1(4) t ok by (auto simp: en)
      ultimately show ?thesis using ih set by auto
    qed
  qed
qed

lemma Add_spec:
  assumes ok: "mr_ok r" and n: "range_ok (a, n)"
  shows "mr_ok (Add a n r)" "\<not> mr_whole_memory (Add a n r) \<Longrightarrow> covered (Add a n r) x \<longleftrightarrow> covered r x \<or> in_range a n x"
    "covered r x \<or> in_range a n x \<Longrightarrow> covered (Add a n r) x"
proof -
  have nz: "n \<noteq> 0" "unat a + unat n < 18446744073709551616" using n by (simp_all add: range_ok_def)
  have e: "unat (a + n) = unat a + unat n" by (rule unat_add_exact [OF nz(2)])
  obtain s' e' rs' where l: "add_loop 0 a (a + n) (mr_ranges r) = (s', e', rs')" by (metis prod_cases3)
  have "\<forall>e \<in> set (mr_ranges r). range_ok e" "unat a < unat (a + n)"
    using ok nz by (simp_all add: mr_ok_def e unat_gt_0)
  note A = add_loop_spec [OF this l]
  have d: "unat (e' - s') = unat e' - unat s'" using A by (simp add: unat_sub_exact)
  have m: "in_range s' (e' - s') y \<longleftrightarrow> unat s' \<le> unat y \<and> unat y < unat e'" for y
    using A by (auto simp: in_range_def d)
  have new: "range_ok (s', e' - s')"
    using A d unat_u64_less [of e'] by (auto simp: range_ok_def unat_eq_iff)
  show "mr_ok (Add a n r)"
    using ok A new by (auto simp: Add_def l mr_ok_def)
  have u: "in_ranges rs' y \<or> in_range s' (e' - s') y \<longleftrightarrow> in_ranges (mr_ranges r) y \<or> in_range a n y" for y
    using A unfolding m by (auto simp: in_range_def e)
  show cov: "covered (Add a n r) x \<longleftrightarrow> covered r x \<or> in_range a n x" if "\<not> mr_whole_memory (Add a n r)"
    using that u [of x] nz(1) by (auto simp: Add_def l covered_def in_ranges_def split: if_splits)
  show "covered (Add a n r) x" if "covered r x \<or> in_range a n x"
    using that cov by (cases "mr_whole_memory (Add a n r)") (auto simp: covered_def)
qed

lemma Add_whole [simp]: "mr_whole_memory r \<Longrightarrow> Add a n r = r"
  by (simp add: Add_def)

section \<open>Recording a write\<close>

text \<open>\<open>r'\<close> reports what \<open>r\<close> does and the addresses in \<open>P\<close>; exactly these, unless it gave up.\<close>

definition extends :: "mutation_report \<Rightarrow> mutation_report \<Rightarrow> (u64 \<Rightarrow> bool) \<Rightarrow> bool" where
  "extends r r' P \<longleftrightarrow> mr_ok r' \<and> (mr_whole_memory r \<longrightarrow> mr_whole_memory r') \<and>
     (\<forall>x. covered r x \<or> P x \<longrightarrow> covered r' x) \<and>
     (\<not> mr_whole_memory r' \<longrightarrow> (\<forall>x. covered r' x \<longrightarrow> covered r x \<or> P x))"

lemma extends_refl: "mr_ok r \<Longrightarrow> (\<And>x. \<not> P x) \<Longrightarrow> extends r r P"
  by (simp add: extends_def)

lemma extends_whole: "mr_ok r \<Longrightarrow> mr_whole_memory r \<Longrightarrow> extends r r P"
  by (simp add: extends_def covered_def)

lemma extends_trans:
  assumes "extends r r1 P" "extends r1 r2 Q" "\<And>x. R x \<longleftrightarrow> P x \<or> Q x"
  shows "extends r r2 R"
  using assms unfolding extends_def by blast

lemma extends_cong: "extends r r' P \<Longrightarrow> (\<And>x. P x \<longleftrightarrow> Q x) \<Longrightarrow> extends r r' Q"
  by (simp add: extends_def)

lemma extends_Add: "mr_ok r \<Longrightarrow> range_ok (a, n) \<Longrightarrow> extends r (Add a n r) (in_range a n)"
  using Add_spec [of r a n] by (auto simp: extends_def Add_def)

lemma extends_stop: "extends r r' P \<Longrightarrow> mr_whole_memory r' \<Longrightarrow> extends r r' Q"
  by (simp add: extends_def covered_def)

text \<open>The addresses of the mappings in \<open>segs\<close> that show bytes of a range of a backing.\<close>

definition sees :: "nat \<Rightarrow> u64 \<Rightarrow> u64 \<Rightarrow> shared_place seg \<Rightarrow> u64 \<Rightarrow> bool" where
  "sees b start n s x \<longleftrightarrow> in_seg x s \<and> fst (seg_val s) = b \<and> in_range start n (snd (seg_val s) + (x - seg_address s))"

lemma sees_alias:
  assumes so: "seg_ok s" and v: "seg_val s = (b, off)"
    and r: "unat off + unat (seg_size s) < 18446744073709551616" "unat start + unat n < 18446744073709551616"
  defines "lo \<equiv> max start off" and "hi \<equiv> min (start + n) (off + seg_size s)"
  shows "lo \<ge> hi \<Longrightarrow> \<not> sees b start n s x"
    "\<not> lo \<ge> hi \<Longrightarrow> sees b start n s x \<longleftrightarrow> in_range (seg_address s + lo - off) (hi - lo) x"
    "\<not> lo \<ge> hi \<Longrightarrow> range_ok (seg_address s + lo - off, hi - lo)"
proof -
  have l: "unat lo = max (unat start) (unat off)" by (simp add: lo_def)
  have h: "unat hi = min (unat start + unat n) (unat off + unat (seg_size s))"
    by (simp add: hi_def unat_add_exact [OF r(1)] unat_add_exact [OF r(2)])
  have s: "seg_lo s < seg_hi s" "seg_hi s < 18446744073709551616" "seg_hi s = seg_lo s + unat (seg_size s)"
    using so by (simp_all add: seg_ok_def seg_hi_def seg_lo_def)
  have at: "unat (off + (x - seg_address s)) = unat off + (unat x - seg_lo s)" if "in_seg x s"
  proof -
    have "unat (x - seg_address s) = unat x - seg_lo s" using that by (simp add: unat_sub_exact in_seg_def unat_seg_address)
    moreover have "unat off + (unat x - seg_lo s) < 18446744073709551616" using that s r by (auto simp: in_seg_def)
    ultimately show ?thesis by (simp add: unat_add_exact)
  qed
  show "\<not> sees b start n s x" if "lo \<ge> hi"
    using that at s unfolding word_le_nat_alt l h by (auto simp: sees_def v in_range_def in_seg_def)
  assume "\<not> lo \<ge> hi"
  then have lt: "unat lo < unat hi" by (simp add: word_le_nat_alt)
  have "unat (lo - off) = unat lo - unat off" by (rule unat_sub_exact) (simp add: l)
  then have "unat (seg_address s + (lo - off)) = seg_lo s + (unat lo - unat off)"
    using lt s by (subst unat_add_exact) (auto simp: unat_seg_address h)
  then have a: "unat (seg_address s + lo - off) = seg_lo s + (unat lo - unat off)"
    by (simp add: add_diff_eq)
  have d: "unat (hi - lo) = unat hi - unat lo" using lt by (simp add: unat_sub_exact)
  show "range_ok (seg_address s + lo - off, hi - lo)"
    using lt s by (auto simp: range_ok_def a d unat_eq_iff h l)
  show "sees b start n s x \<longleftrightarrow> in_range (seg_address s + lo - off) (hi - lo) x"
  proof (cases "in_seg x s")
    case True
    then have x: "seg_lo s \<le> unat x" "unat x < seg_hi s" by (simp_all add: in_seg_def)
    have "sees b start n s x \<longleftrightarrow> unat start \<le> unat off + (unat x - seg_lo s) \<and> unat off + (unat x - seg_lo s) < unat start + unat n"
      using True by (simp add: sees_def v in_range_def at [OF True])
    then show ?thesis unfolding in_range_def a d using lt x s(3) by (auto simp: h l)
  next
    case False
    then have "\<not> (seg_lo s + (unat lo - unat off) \<le> unat x \<and> unat x < seg_lo s + (unat hi - unat off))"
      using s(3) by (auto simp: in_seg_def h)
    moreover have "unat off \<le> unat lo" by (simp add: l)
    ultimately have "\<not> in_range (seg_address s + lo - off) (hi - lo) x" using lt unfolding in_range_def a d by linarith
    with False show ?thesis by (simp add: sees_def)
  qed
qed

lemma alias_loop_spec:
  assumes "\<forall>s \<in> set segs. seg_ok s \<and> unat (snd (seg_val s)) + unat (seg_size s) < 18446744073709551616"
    "unat start + unat n < 18446744073709551616" "mr_ok r" "alias_loop b start (start + n) segs rep r = (rep', r')"
  shows "extends r r' (\<lambda>x. \<exists>s \<in> set segs. sees b start n s x) \<and>
    (rep' \<longleftrightarrow> rep \<or> (\<exists>s \<in> set segs. \<exists>x. sees b start n s x))"
  using assms
proof (induction segs arbitrary: rep r)
  case Nil
  then show ?case by (simp add: extends_refl)
next
  case (Cons s segs)
  obtain b' off where v: "seg_val s = (b', off)" by fastforce
  let ?lo = "max start off" and ?hi = "min (start + n) (off + seg_size s)"
  let ?P = "\<lambda>x. \<exists>s \<in> set segs. sees b start n s x"
  have so: "seg_ok s" "unat off + unat (seg_size s) < 18446744073709551616" using Cons.prems(1) v by auto
  note A = sees_alias [OF so(1) v so(2) Cons.prems(2)]
  have ih: "extends r1 r' ?P \<and> (rep' \<longleftrightarrow> rep1 \<or> (\<exists>s \<in> set segs. \<exists>x. sees b start n s x))"
    if "mr_ok r1" "alias_loop b start (start + n) segs rep1 r1 = (rep', r')" for rep1 r1
    using Cons.IH [OF _ Cons.prems(2) that] Cons.prems(1) by simp
  show ?case
  proof (cases "b' = b \<and> \<not> ?lo \<ge> ?hi")
    case False
    have "alias_loop b start (start + n) segs rep r = (rep', r')"
      using Cons.prems(4) False by (auto simp: v Let_def split: if_splits)
    moreover have "\<not> sees b start n s x" for x
      using False A(1) [of x] by (cases "b' = b") (auto simp: sees_def v)
    ultimately show ?thesis using ih [OF Cons.prems(3), of rep] by auto
  next
    case True
    let ?r = "Add (seg_address s + ?lo - off) (?hi - ?lo) r"
    have bb: "b' = b" and lt: "\<not> ?lo \<ge> ?hi" using True by auto
    have e: "extends r ?r (sees b start n s)"
      using extends_Add [OF Cons.prems(3) A(3) [OF lt]] A(2) [OF lt] by (simp add: bb extends_def)
    have seen: "\<exists>x. sees b start n s x"
      using A(2) [OF lt] A(3) [OF lt] by (auto simp: bb range_ok_def in_range_def unat_gt_0)
    show ?thesis
    proof (cases "mr_whole_memory ?r")
      case w: True
      then have "rep' \<and> r' = ?r" using Cons.prems(4) True by (auto simp: v Let_def)
      then show ?thesis using extends_stop [OF e w] seen by auto
    next
      case w: False
      then have l: "alias_loop b start (start + n) segs True ?r = (rep', r')"
        using Cons.prems(4) True by (auto simp: v Let_def)
      have "mr_ok ?r" using e by (simp add: extends_def)
      note i = ih [OF this l]
      have "extends r r' (\<lambda>x. \<exists>s \<in> set (s # segs). sees b start n s x)"
        by (rule extends_trans [OF e conjunct1 [OF i]]) simp
      then show ?thesis using i seen by auto
    qed
  qed
qed

section \<open>Locations\<close>

text \<open>Where the byte at an address lives: in the memory's own storage, or in a backing.\<close>

definition loc :: "guest_memory \<Rightarrow> u64 \<Rightarrow> u64 + shared_place" where
  "loc gm x = (case place_at gm x of None \<Rightarrow> Inl x | Some p \<Rightarrow> Inr p)"

lemma place_at_seg:
  assumes ok: "gm_ok gm" and s: "s \<in> set (gm_shared gm)" "in_seg x s"
  shows "place_at gm x = Some (adv_place (x - seg_address s) (seg_val s))"
  unfolding place_at_def seg_at_Some [OF gm_okD(5) [OF ok]] using s by blast

lemma piece_at_shared:
  assumes ok: "gm_ok gm" and p: "piece_at c gm = (Some (b, off), limit)"
  obtains l where "limit = Some l" "l \<noteq> 0" "unat c + unat l < 18446744073709551616"
    "unat off + unat l \<le> unat (sb_size (gm_heap gm b))"
    "\<And>x. in_range c l x \<Longrightarrow> place_at gm x = Some (b, off + (x - c))"
proof -
  note sok = gm_okD(5) [OF ok]
  define i where "i = seg_index (gm_shared gm) c"
  have i: "i < length (gm_shared gm)" "in_seg c (gm_shared gm ! i)"
    using p seg_index_spec [OF sok, of c] by (auto simp: piece_at_def FindSharedMapping_def i_def Let_def split: if_splits)
  define s where "s = gm_shared gm ! i"
  have s: "s \<in> set (gm_shared gm)" "in_seg c s" "seg_ok s" "shared_ok (gm_heap gm) s"
    using i gm_okD(12) [OF ok] segs_okD [OF sok] by (auto simp: s_def)
  have e: "limit = Some (seg_size s - (c - seg_address s))" "(b, off) = adv_place (c - seg_address s) (seg_val s)"
    using p i by (auto simp: piece_at_def FindSharedMapping_def i_def [symmetric] s_def [symmetric] Let_def)
  have d: "unat (c - seg_address s) = unat c - seg_lo s"
    using s(2) by (simp add: unat_sub_exact in_seg_def unat_seg_address)
  have hi: "seg_hi s = seg_lo s + unat (seg_size s)" by (simp add: seg_hi_def seg_lo_def)
  have l: "unat (seg_size s - (c - seg_address s)) = seg_hi s - unat c"
    using s(2) d hi by (subst unat_sub_exact) (auto simp: in_seg_def)
  have so: "unat (snd (seg_val s)) + unat (seg_size s) \<le> unat (sb_size (gm_heap gm b))"
    using s(4) e(2) by (simp add: shared_ok_def adv_place_def)
  have o: "unat off = unat (snd (seg_val s)) + (unat c - seg_lo s)"
    using e(2) s(2) d hi so unat_u64_less [of "sb_size (gm_heap gm b)"]
    by (auto simp: adv_place_def in_seg_def unat_add_exact)
  show thesis
  proof (rule that [OF e(1)])
    show "seg_size s - (c - seg_address s) \<noteq> 0" using s(2) l by (auto simp: in_seg_def unat_eq_iff)
    show "unat c + unat (seg_size s - (c - seg_address s)) < 18446744073709551616"
      using s(2,3) unfolding l by (auto simp: in_seg_def seg_ok_def)
    show "unat off + unat (seg_size s - (c - seg_address s)) \<le> unat (sb_size (gm_heap gm b))"
      using so s(2) hi unfolding l o by (auto simp: in_seg_def)
    fix x assume "in_range c (seg_size s - (c - seg_address s)) x"
    then have "in_seg x s" using s(2) unfolding in_range_def l by (auto simp: in_seg_def)
    from place_at_seg [OF ok s(1) this] e(2) show "place_at gm x = Some (b, off + (x - c))"
      by (simp add: adv_place_def)
  qed
qed

lemma piece_at_own:
  assumes ok: "gm_ok gm" and p: "piece_at c gm = (None, limit)"
  shows "limit \<noteq> Some 0" "unat c \<le> unat x \<Longrightarrow> (\<And>l. limit = Some l \<Longrightarrow> unat x < unat c + unat l) \<Longrightarrow> place_at gm x = None"
proof -
  let ?sh = "gm_shared gm"
  note sok = gm_okD(5) [OF ok]
  have i: "seg_index ?sh c = length ?sh" "\<forall>s \<in> set ?sh. \<not> in_seg c s"
    using p seg_index_spec [OF sok, of c] by (auto simp: piece_at_def FindSharedMapping_def Let_def split: if_splits)
  define j where "j = seg_lower_bound ?sh c"
  have lim: "limit = (if j \<noteq> length ?sh then Some (seg_address (?sh ! j) - c) else None)"
    using p i(1) by (auto simp: piece_at_def FindSharedMapping_def j_def Let_def)
  have jle: "j \<le> length ?sh" by (simp add: j_def seg_lower_bound_le)
  have after: "unat c < seg_lo (?sh ! k)" if "j \<le> k" "k < length ?sh" for k
  proof -
    have "\<not> seg_lo (?sh ! k) < unat c" using seg_lower_bound_nth [OF sok that(2), of c] that(1) by (simp add: j_def)
    moreover have "seg_lo (?sh ! k) \<noteq> unat c"
      using i(2) that(2) segs_okD [OF sok nth_mem [OF that(2)]] by (auto simp: in_seg_def seg_ok_def)
    ultimately show ?thesis by simp
  qed
  have jl: "unat (seg_address (?sh ! j) - c) = seg_lo (?sh ! j) - unat c" if "j \<noteq> length ?sh"
    using after [of j] jle that by (simp add: unat_sub_exact unat_seg_address)
  show "limit \<noteq> Some 0" using after [of j] jle jl lim by (auto split: if_splits)
  show "place_at gm x = None" if x: "unat c \<le> unat x" "\<And>l. limit = Some l \<Longrightarrow> unat x < unat c + unat l"
    unfolding place_at_def seg_at_None
  proof
    fix s assume sm: "s \<in> set ?sh"
    then obtain k where k: "s = ?sh ! k" "k < length ?sh" by (auto simp: in_set_conv_nth)
    show "\<not> in_seg x s"
    proof (cases "k < j")
      case True
      then have "seg_lo s < unat c" using seg_lower_bound_nth [OF sok k(2), of c] k by (simp add: j_def)
      then have "seg_hi s \<le> unat c" using bspec [OF i(2) sm] by (auto simp: in_seg_def)
      with x(1) show ?thesis by (simp add: in_seg_def)
    next
      case False
      with k(2) have j: "j \<noteq> length ?sh" by simp
      with x(2) lim jl [OF j] after [of j] jle have "unat x < seg_lo (?sh ! j)" by auto
      moreover have "seg_lo (?sh ! j) \<le> seg_lo s"
      proof (cases "j = k")
        case neq: False
        with False have jk: "j < k" by simp
        have "seg_ok (?sh ! j)" using segs_okD [OF sok] j jle by simp
        then show ?thesis using segs_ok_nth [OF sok jk k(2)] k(1) by (simp add: seg_ok_def)
      qed (simp add: k)
      ultimately show ?thesis by (simp add: in_seg_def)
    qed
  qed
qed

lemma piece_chunk_props:
  assumes "remaining \<noteq> 0" "limit \<noteq> Some 0"
  shows "piece_chunk limit remaining \<noteq> 0" "unat (piece_chunk limit remaining) \<le> unat remaining"
    "limit = Some l \<Longrightarrow> unat (piece_chunk limit remaining) \<le> unat l"
  using assms by (auto simp: piece_chunk_def min_def word_le_nat_alt split: option.splits)

definition touched :: "guest_memory \<Rightarrow> u64 \<Rightarrow> u64 \<Rightarrow> u64 \<Rightarrow> bool" where
  "touched gm c n x \<longleftrightarrow> (\<exists>y. in_range c n y \<and> loc gm x = loc gm y)"

lemma in_range_chunk:
  assumes "unat n \<le> unat m" "unat c + unat m < 18446744073709551616"
  shows "in_range c m x \<longleftrightarrow> in_range c n x \<or> in_range (c + n) (m - n) x"
    "unat (c + n) = unat c + unat n" "unat (m - n) = unat m - unat n"
proof -
  show a: "unat (c + n) = unat c + unat n" using assms by (intro unat_add_exact) simp
  show b: "unat (m - n) = unat m - unat n" using assms by (intro unat_sub_exact) simp
  show "in_range c m x \<longleftrightarrow> in_range c n x \<or> in_range (c + n) (m - n) x"
    using assms by (auto simp: in_range_def a b)
qed

lemma touched_split:
  assumes "unat n \<le> unat m" "unat c + unat m < 18446744073709551616"
  shows "touched gm c m x \<longleftrightarrow> touched gm c n x \<or> touched gm (c + n) (m - n) x"
  unfolding touched_def in_range_chunk(1) [OF assms] by blast

lemma touched_own:
  assumes "\<And>y. in_range c n y \<Longrightarrow> place_at gm y = None"
  shows "touched gm c n x \<longleftrightarrow> in_range c n x"
proof -
  have "loc gm y = Inl y" if "in_range c n y" for y using assms [OF that] by (simp add: loc_def)
  moreover have "loc gm x = Inl y \<Longrightarrow> x = y" for y by (simp add: loc_def split: option.splits)
  ultimately show ?thesis unfolding touched_def by metis
qed

lemma touched_shared:
  assumes ok: "gm_ok gm" and p: "\<And>y. in_range c n y \<Longrightarrow> place_at gm y = Some (b, off + (y - c))"
    and r: "unat c + unat n < 18446744073709551616" "unat off + unat n < 18446744073709551616"
  shows "touched gm c n x \<longleftrightarrow> (\<exists>s \<in> set (gm_shared gm). sees b off n s x)"
proof -
  have inner: "(\<exists>y. in_range c n y \<and> q = off + (y - c)) \<longleftrightarrow> in_range off n q" for q
  proof
    assume "in_range off n q"
    then have q: "unat off \<le> unat q" "unat q < unat off + unat n" by (simp_all add: in_range_def)
    have d: "unat (q - off) = unat q - unat off" using q by (simp add: unat_sub_exact)
    have "unat (c + (q - off)) = unat c + (unat q - unat off)" using q r by (subst unat_add_exact) (auto simp: d)
    then have "in_range c n (c + (q - off))" using q by (auto simp: in_range_def)
    then show "\<exists>y. in_range c n y \<and> q = off + (y - c)" by (intro exI [of _ "c + (q - off)"]) simp
  next
    assume "\<exists>y. in_range c n y \<and> q = off + (y - c)"
    then obtain y where y: "in_range c n y" "q = off + (y - c)" by blast
    have d: "unat (y - c) = unat y - unat c" using y by (simp add: unat_sub_exact in_range_def)
    have "unat q = unat off + (unat y - unat c)" unfolding y(2) using y(1) r by (subst unat_add_exact) (auto simp: d in_range_def)
    then show "in_range off n q" using y(1) by (auto simp: in_range_def)
  qed
  have "touched gm c n x \<longleftrightarrow> (\<exists>q. in_range off n q \<and> place_at gm x = Some (b, q))"
  proof -
    have "loc gm x = loc gm y \<longleftrightarrow> place_at gm x = Some (b, off + (y - c))" if "in_range c n y" for y
      using p [OF that] by (auto simp: loc_def split: option.splits)
    then show ?thesis unfolding touched_def inner [symmetric] by blast
  qed
  also have "\<dots> \<longleftrightarrow> (\<exists>s \<in> set (gm_shared gm). sees b off n s x)"
    unfolding place_at_def seg_at_Some [OF gm_okD(5) [OF ok]]
    by (auto simp: sees_def adv_place_def)
  finally show ?thesis .
qed

lemma record_step:
  assumes ok: "gm_ok gm" and r: "mr_ok r" and n: "n \<noteq> 0" "unat c + unat n < 18446744073709551616"
    and p: "piece_at c gm = (place, limit)"
  defines "chunk \<equiv> piece_chunk limit n"
  defines "r' \<equiv> (case place of
      None \<Rightarrow> Add c chunk r
    | Some (backing, backing_start) \<Rightarrow>
        let (reported_alias, r1) = alias_loop backing backing_start (backing_start + chunk) (gm_shared gm) False r
        in if \<not> reported_alias then Add c chunk r1 else r1)"
  shows "chunk \<noteq> 0 \<and> unat chunk \<le> unat n \<and> extends r r' (touched gm c chunk)"
proof (cases place)
  case None
  note own = piece_at_own [OF ok p [unfolded None]]
  note ch = piece_chunk_props [OF n(1) own(1), folded chunk_def]
  have "place_at gm y = None" if "in_range c chunk y" for y
    using that ch(3) own(2) [of y] by (fastforce simp: in_range_def)
  then have t: "touched gm c chunk x \<longleftrightarrow> in_range c chunk x" for x by (rule touched_own)
  have "range_ok (c, chunk)" using ch n by (auto simp: range_ok_def)
  from extends_Add [OF r this] t have "extends r r' (touched gm c chunk)" by (simp add: r'_def None extends_def)
  with ch show ?thesis by blast
next
  case (Some bo)
  then obtain b off where bo: "place = Some (b, off)" by (cases bo) auto
  obtain l where l: "limit = Some l" "l \<noteq> 0" "unat c + unat l < 18446744073709551616"
    "unat off + unat l \<le> unat (sb_size (gm_heap gm b))"
    "\<And>x. in_range c l x \<Longrightarrow> place_at gm x = Some (b, off + (x - c))"
    using piece_at_shared [OF ok p [unfolded bo]] by metis
  have "limit \<noteq> Some 0" using l(1,2) by simp
  note ch = piece_chunk_props(1,2) [OF n(1) this, folded chunk_def]
    piece_chunk_props(3) [OF n(1) this l(1), folded chunk_def]
  have pl: "place_at gm x = Some (b, off + (x - c))" if "in_range c chunk x" for x
    using l(5) that ch(3) by (simp add: in_range_def)
  have room: "unat c + unat chunk < 18446744073709551616" "unat off + unat chunk < 18446744073709551616"
    using l(3,4) ch(3) unat_u64_less [of "sb_size (gm_heap gm b)"] by linarith+
  note t = touched_shared [OF ok pl room]
  have segs: "\<forall>s \<in> set (gm_shared gm). seg_ok s \<and> unat (snd (seg_val s)) + unat (seg_size s) < 18446744073709551616"
  proof
    fix s assume s: "s \<in> set (gm_shared gm)"
    have "unat (snd (seg_val s)) + unat (seg_size s) \<le> unat (sb_size (gm_heap gm (fst (seg_val s))))"
      using gm_okD(12) [OF ok s] by (simp add: shared_ok_def)
    then show "seg_ok s \<and> unat (snd (seg_val s)) + unat (seg_size s) < 18446744073709551616"
      using segs_okD [OF gm_okD(5) [OF ok] s] unat_u64_less [of "sb_size (gm_heap gm (fst (seg_val s)))"] by simp
  qed
  obtain rep r1 where al: "alias_loop b off (off + chunk) (gm_shared gm) False r = (rep, r1)" by fastforce
  note A = alias_loop_spec [OF segs room(2) r al]
  have "touched gm c chunk c" using ch(1) by (auto simp: touched_def in_range_def unat_gt_0)
  then have rep using A t by blast
  with A t have "extends r r' (touched gm c chunk)" by (simp add: r'_def bo al extends_def)
  with ch show ?thesis by blast
qed

lemma record_loop_spec:
  assumes "gm_ok gm" "mr_ok r" "unat c + unat n < 18446744073709551616"
  shows "\<exists>r'. record_loop c n gm r = Some r' \<and> extends r r' (touched gm c n)"
  using assms
proof (induction c n gm r rule: record_loop.induct)
  case (1 c n gm r)
  show ?case
  proof (cases "n = 0 \<or> mr_whole_memory r")
    case True
    then show ?thesis using 1(3) by (subst record_loop.simps) (auto simp: touched_def in_range_def extends_refl extends_whole)
  next
    case False
    obtain place limit where p: "piece_at c gm = (place, limit)" by fastforce
    define chunk where "chunk = piece_chunk limit n"
    define r1 where "r1 = (case place of
        None \<Rightarrow> Add c chunk r
      | Some (backing, backing_start) \<Rightarrow>
          let (reported_alias, r1) = alias_loop backing backing_start (backing_start + chunk) (gm_shared gm) False r
          in if \<not> reported_alias then Add c chunk r1 else r1)"
    have n: "n \<noteq> 0" using False by simp
    note S = record_step [OF 1(2,3) n 1(4) p, folded chunk_def, folded r1_def]
    have ch: "unat chunk \<le> unat n" using S by simp
    note R = in_range_chunk [OF ch 1(4)]
    have "\<exists>r'. record_loop (c + chunk) (n - chunk) gm r1 = Some r' \<and> extends r1 r' (touched gm (c + chunk) (n - chunk))"
      using 1(1) [OF False p [symmetric] refl chunk_def _ r1_def] S 1(2,4) ch R(2,3)
      by (simp add: extends_def)
    then obtain r' where r': "record_loop (c + chunk) (n - chunk) gm r1 = Some r'"
      "extends r1 r' (touched gm (c + chunk) (n - chunk))" by blast
    have "record_loop c n gm r = record_loop (c + chunk) (n - chunk) gm r1"
      using False S by (subst record_loop.simps) (simp add: p chunk_def [symmetric] r1_def [symmetric])
    with r' show ?thesis
      using extends_trans [OF _ r'(2) touched_split [OF ch 1(4)]] S by auto
  qed
qed

section \<open>Notification\<close>

lemma NotifyWrite_events:
  assumes "n \<noteq> 0"
  obtains e where "gm_events (NotifyWrite a n gm) = gm_events gm @ [(live_observer gm, e)]"
    "we_address e = a" "we_size e = n"
proof -
  define gm1 where "gm1 = (if gm_write_generation_exhausted gm then gm
    else case AdvanceGuestMemoryGeneration (gm_write_generation gm) of
        (True, g) \<Rightarrow> gm\<lparr>gm_write_generation := g\<rparr>
      | (False, _) \<Rightarrow> gm\<lparr>gm_write_generation_exhausted := True\<rparr>)"
  have f: "gm_events gm1 = gm_events gm" "gm_live gm1 = gm_live gm" "gm_write_observer gm1 = gm_write_observer gm"
    by (auto simp: gm1_def split: prod.splits bool.splits)
  then have "live_observer gm1 = live_observer gm" by (simp add: live_observer_def cong: option.case_cong)
  with f(1) assms show thesis
    by (intro that [of "\<lparr>we_address = a, we_size = n, we_generation = gm_write_generation gm1,
        we_generation_exhausted = gm_write_generation_exhausted gm1\<rparr>"])
      (simp_all add: NotifyWrite_def Let_def gm1_def [symmetric])
qed

lemma live_observer_NotifyWrite [simp]: "live_observer (NotifyWrite a n gm) = live_observer gm"
  by (simp add: live_observer_def cong: option.case_cong)

definition reported :: "guest_memory \<Rightarrow> guest_memory \<Rightarrow> u64 \<Rightarrow> bool" where
  "reported gm gm' x \<longleftrightarrow> (\<exists>e. (live_observer gm, e) \<in> set (drop (length (gm_events gm)) (gm_events gm')) \<and>
     in_range (we_address e) (we_size e) x)"

lemma notify_ranges:
  assumes "\<forall>e \<in> set rs. range_ok e"
  shows "\<exists>es. gm_events (fold (\<lambda>(address, len). NotifyWrite address len) rs gm) = gm_events gm @ es \<and>
    (\<forall>(a, n) \<in> set rs. \<exists>e. (live_observer gm, e) \<in> set es \<and> we_address e = a \<and> we_size e = n)"
  using assms
proof (induction rs arbitrary: gm)
  case (Cons r rs)
  obtain a n where r: "r = (a, n)" by fastforce
  then have "n \<noteq> 0" using Cons.prems by (simp add: range_ok_def)
  then obtain e where e: "gm_events (NotifyWrite a n gm) = gm_events gm @ [(live_observer gm, e)]"
    "we_address e = a" "we_size e = n" by (rule NotifyWrite_events)
  from Cons.IH [of "NotifyWrite a n gm"] Cons.prems obtain es where
    es: "gm_events (fold (\<lambda>(address, len). NotifyWrite address len) rs (NotifyWrite a n gm)) =
      gm_events (NotifyWrite a n gm) @ es"
    "\<forall>(a, n) \<in> set rs. \<exists>e. (live_observer gm, e) \<in> set es \<and> we_address e = a \<and> we_size e = n" by auto
  show ?case
    using es e by (intro exI [of _ "(live_observer gm, e) # es"]) (auto simp: r split: prod.splits, blast)
qed simp

lemma NotifyMutationReport_reports:
  assumes r: "mr_ok r" and c: "covered r x" and x: "inside x 1 gm"
  shows "reported gm (NotifyMutationReport r gm) x"
proof (cases "mr_whole_memory r")
  case True
  have "gm_storage_size gm \<noteq> 0" using x by (auto simp: inside_def gm_limit_def)
  then obtain e where e: "gm_events (NotifyWrite (gm_base_address gm) (gm_storage_size gm) gm) =
      gm_events gm @ [(live_observer gm, e)]" "we_address e = gm_base_address gm" "we_size e = gm_storage_size gm"
    by (rule NotifyWrite_events)
  then show ?thesis using True x by (auto simp: reported_def NotifyMutationReport_def inside_def gm_limit_def in_range_def)
next
  case False
  obtain es where es: "gm_events (NotifyMutationReport r gm) = gm_events gm @ es"
    "\<forall>(a, n) \<in> set (mr_ranges r). \<exists>e. (live_observer gm, e) \<in> set es \<and> we_address e = a \<and> we_size e = n"
    using notify_ranges [of "mr_ranges r" gm] r False by (auto simp: NotifyMutationReport_def mr_ok_def)
  show ?thesis using c False es by (fastforce simp: covered_def in_ranges_def reported_def)
qed

end
