(* ===== verification/Guest_Access.thy ===== *)
theory Guest_Access
  imports Mutation_Report
begin

text \<open>
  Reading and writing guest memory: \<open>ReadBytes\<close>, \<open>WriteBytes\<close> and \<open>FillBytes\<close>, which cut a range
  into pieces that lie in one shared mapping or between mappings, and the checked operations
  \<open>Read\<close>, \<open>Write\<close>, \<open>Fill\<close> and \<open>Copy\<close>. The reference is a memory of single bytes: a write stores
  one byte after the other at the location each address stands for.
\<close>

section \<open>Operations\<close>

text \<open>\<open>None\<close> is the result \<open>false\<close>; an iteration without progress is \<open>None\<close> as well.\<close>

function read_loop :: "u64 \<Rightarrow> u64 \<Rightarrow> guest_memory \<Rightarrow> u8 list option" where
  "read_loop current remaining gm =
     (if remaining = 0 then Some []
      else
        let (place, limit) = piece_at current gm;
            chunk = piece_chunk limit remaining
        in if chunk = 0 then None
           else case (case place of
               Some (backing, offset) \<Rightarrow> sb_Read offset (unat chunk) (gm_heap gm backing)
             | None \<Rightarrow> Some (take (unat chunk) (drop (OffsetOf current gm) (gm_bytes gm)))) of
             None \<Rightarrow> None
           | Some bytes \<Rightarrow> map_option ((@) bytes) (read_loop (current + chunk) (remaining - chunk) gm))"
  by pat_completeness auto
termination by (relation "measure (\<lambda>(c, n, gm). unat n)") (auto intro: piece_chunk_progress)

declare read_loop.simps [simp del]

definition ReadBytes :: "u64 \<Rightarrow> u64 \<Rightarrow> guest_memory \<Rightarrow> u8 list option" where
  "ReadBytes address len gm = read_loop address len gm"

text \<open>
  The loop that \<open>WriteBytes\<close> and \<open>FillBytes\<close> share. \<open>put\<close> stores one piece: it gets the address, the
  number of bytes done before, the length of the piece and its place in a backing. \<open>fault\<close> is the
  armed test fault that stops after the first piece. The result: completed, bytes written, memory
  and report.
\<close>

type_synonym piece_writer = "u64 \<Rightarrow> u64 \<Rightarrow> u64 \<Rightarrow> shared_place option \<Rightarrow> guest_memory \<Rightarrow> bool \<times> guest_memory"

function mutate_loop ::
  "piece_writer \<Rightarrow> bool \<Rightarrow> u64 \<Rightarrow> u64 \<Rightarrow> u64 \<Rightarrow> guest_memory \<Rightarrow> mutation_report \<Rightarrow>
   (bool \<times> u64 \<times> guest_memory \<times> mutation_report) option" where
  "mutate_loop put fault address copied len gm mutations =
     (if \<not> copied < len then Some (True, copied, gm, mutations)
      else
        let current = address + copied;
            (place, limit) = piece_at current gm;
            chunk = piece_chunk limit (len - copied)
        in if chunk = 0 then None
           else case put current copied chunk place gm of
               (False, gm') \<Rightarrow> Some (False, copied, gm', mutations)
             | (True, gm') \<Rightarrow>
                 (case RecordActualWriteRangeLocked mutations current chunk gm' of
                    None \<Rightarrow> None
                  | Some mutations' \<Rightarrow>
                      if fault then Some (False, copied + chunk, gm', mutations')
                      else mutate_loop put fault address (copied + chunk) len gm' mutations'))"
  by pat_completeness auto
termination
  by (relation "measure (\<lambda>(p, f, a, c, n, gm, r). unat (n - c))")
    (auto simp: diff_diff_eq [symmetric] intro: piece_chunk_progress)

declare mutate_loop.simps [simp del]

definition write_piece :: "u8 list \<Rightarrow> piece_writer" where
  "write_piece source current copied chunk place gm =
     (let bytes = take (unat chunk) (drop (unat copied) source) in
      case place of
        Some (backing, offset) \<Rightarrow>
          (case sb_Write offset bytes (gm_heap gm backing) of
             (ok, b) \<Rightarrow> (ok, gm\<lparr>gm_heap := (gm_heap gm)(backing := b)\<rparr>))
      | None \<Rightarrow> (True, gm\<lparr>gm_bytes := overwrite (gm_bytes gm) (OffsetOf current gm) bytes\<rparr>))"

definition fill_piece :: "u8 \<Rightarrow> piece_writer" where
  "fill_piece v current copied chunk place gm =
     (case place of
        Some (backing, offset) \<Rightarrow>
          (case sb_Fill offset chunk v (gm_heap gm backing) of
             (ok, b) \<Rightarrow> (ok, gm\<lparr>gm_heap := (gm_heap gm)(backing := b)\<rparr>))
      | None \<Rightarrow> (True, gm\<lparr>gm_bytes := overwrite (gm_bytes gm) (OffsetOf current gm) (replicate (unat chunk) v)\<rparr>))"

definition WriteBytes ::
  "bool \<Rightarrow> u64 \<Rightarrow> u8 list \<Rightarrow> guest_memory \<Rightarrow> mutation_report \<Rightarrow>
   (bool \<times> u64 \<times> guest_memory \<times> mutation_report) option" where
  "WriteBytes fault address source gm mutations =
     mutate_loop (write_piece source) fault address 0 (of_nat (length source)) gm mutations"

definition FillBytes ::
  "bool \<Rightarrow> u64 \<Rightarrow> u64 \<Rightarrow> u8 \<Rightarrow> guest_memory \<Rightarrow> mutation_report \<Rightarrow>
   (bool \<times> u64 \<times> guest_memory \<times> mutation_report) option" where
  "FillBytes fault address len v gm mutations =
     mutate_loop (fill_piece v) fault address 0 len gm mutations"

definition Read :: "u64 \<Rightarrow> u64 \<Rightarrow> guest_memory \<Rightarrow> u8 list option" where
  "Read address len gm =
     (if \<not> CanAccessLocked address len kRead gm then None else ReadBytes address len gm)"

definition Write :: "bool \<Rightarrow> u64 \<Rightarrow> u8 list \<Rightarrow> guest_memory \<Rightarrow> (bool \<times> guest_memory) option" where
  "Write fault address source gm =
     (if \<not> CanAccessLocked address (of_nat (length source)) kWrite gm then Some (False, gm)
      else map_option (\<lambda>(completed, _, gm', mutations). (completed, NotifyMutationReport mutations gm'))
             (WriteBytes fault address source gm new_report))"

definition Fill :: "bool \<Rightarrow> u64 \<Rightarrow> u64 \<Rightarrow> u8 \<Rightarrow> guest_memory \<Rightarrow> (bool \<times> guest_memory) option" where
  "Fill fault address len v gm =
     (if \<not> CanAccessLocked address len kWrite gm then Some (False, gm)
      else map_option (\<lambda>(completed, _, gm', mutations). (completed, NotifyMutationReport mutations gm'))
             (FillBytes fault address len v gm new_report))"

section \<open>The memory as single bytes\<close>

definition mem :: "guest_memory \<Rightarrow> u64 + shared_place \<Rightarrow> u8" where
  "mem gm l = (case l of
     Inl x \<Rightarrow> if inside x 1 gm then raw_byte gm x else 0
   | Inr (b, off) \<Rightarrow> sb_byte (gm_heap gm b) off)"

definition byte_at :: "guest_memory \<Rightarrow> u64 \<Rightarrow> u8" where
  "byte_at gm x = mem gm (loc gm x)"

definition spans :: "u64 \<Rightarrow> u64 \<Rightarrow> guest_memory \<Rightarrow> bool" where
  "spans a n gm \<longleftrightarrow> unat (gm_base_address gm) \<le> unat a \<and> unat a + unat n \<le> gm_limit gm"

lemma inside_spans: "inside a n gm \<Longrightarrow> spans a n gm"
  by (simp add: inside_def spans_def)

lemma spans_less: "gm_ok gm \<Longrightarrow> spans a n gm \<Longrightarrow> unat a + unat n < 18446744073709551616"
  using gm_okD(1) by (fastforce simp: spans_def)

lemma spans_inside: "spans a n gm \<Longrightarrow> n \<noteq> 0 \<Longrightarrow> inside a n gm"
  using unat_gt_0 [of n] by (auto simp: inside_def spans_def)

lemma spans_part:
  assumes "gm_ok gm" "spans a n gm" "unat k + unat m \<le> unat n"
  shows "spans (a + k) m gm" "unat (a + k) = unat a + unat k"
proof -
  show u: "unat (a + k) = unat a + unat k" using spans_less [OF assms(1,2)] assms(3) by (intro unat_add_exact) simp
  show "spans (a + k) m gm" using assms(2,3) by (simp add: spans_def u)
qed

lemma in_range_inside: "gm_ok gm \<Longrightarrow> spans a n gm \<Longrightarrow> in_range a n x \<Longrightarrow> inside x 1 gm"
  by (auto simp: spans_def in_range_def inside_def)

lemma unat_add_nat: "unat a + unat n < 18446744073709551616 \<Longrightarrow> i \<le> unat n \<Longrightarrow> unat (a + of_nat i :: u64) = unat a + i"
  by (subst unat_add_exact) (auto simp: unat_of_nat)

lemma in_range_nat:
  assumes "unat a + unat n < 18446744073709551616"
  shows "in_range a n x \<longleftrightarrow> (\<exists>i < unat n. x = a + of_nat i)"
proof
  assume x: "in_range a n x"
  then have "x = a + of_nat (unat x - unat a)" using unat_add_nat [OF assms, of "unat x - unat a"]
    by (auto simp: in_range_def unat_eq_iff)
  with x show "\<exists>i < unat n. x = a + of_nat i" by (intro exI [of _ "unat x - unat a"]) (auto simp: in_range_def)
next
  assume "\<exists>i < unat n. x = a + of_nat i"
  then show "in_range a n x" using unat_add_nat [OF assms] by (auto simp: in_range_def)
qed

lemma in_range_add: "unat a + unat n < 18446744073709551616 \<Longrightarrow> i < unat n \<Longrightarrow> in_range a n (a + of_nat i)"
  using in_range_nat by blast

section \<open>Reading\<close>

lemma raw_slice:
  assumes ok: "gm_ok gm" and s: "spans c n gm"
  shows "take (unat n) (drop (OffsetOf c gm) (gm_bytes gm)) = map (\<lambda>i. raw_byte gm (c + of_nat i)) [0..<unat n]"
proof (cases "n = 0")
  case False
  then have ins: "inside c n gm" using s spans_inside by blast
  have off: "OffsetOf (c + of_nat i) gm = OffsetOf c gm + i" if "i < unat n" for i
  proof -
    have u: "unat (c + of_nat i) = unat c + i" using unat_add_nat [OF spans_less [OF ok s], of i] that by simp
    then have "inside (c + of_nat i) 1 gm" using ins that by (auto simp: inside_def)
    then show ?thesis using ins u by (simp add: OffsetOf_unat [OF ins] OffsetOf_unat [OF \<open>inside (c + of_nat i) 1 gm\<close>] inside_def)
  qed
  have "OffsetOf c gm + unat n \<le> length (gm_bytes gm)"
    using ins gm_okD(2) [OF ok] by (auto simp: OffsetOf_unat [OF ins] inside_def gm_limit_def)
  then show ?thesis by (intro nth_equalityI) (simp_all add: raw_byte_def off)
qed simp

lemma piece_cases:
  assumes ok: "gm_ok gm" and n: "n \<noteq> 0" and p: "piece_at c gm = (place, limit)"
  defines "chunk \<equiv> piece_chunk limit n"
  obtains "place = None" "chunk \<noteq> 0" "unat chunk \<le> unat n" "\<And>x. in_range c chunk x \<Longrightarrow> loc gm x = Inl x"
  | b off where "place = Some (b, off)" "chunk \<noteq> 0" "unat chunk \<le> unat n"
    "unat off + unat chunk \<le> unat (sb_size (gm_heap gm b))" "sb_ok (gm_heap gm b)"
    "\<And>x. in_range c chunk x \<Longrightarrow> loc gm x = Inr (b, off + (x - c))"
proof (cases place)
  case None
  note own = piece_at_own [OF ok p [unfolded None]]
  note ch = piece_chunk_props [OF n own(1), folded chunk_def]
  have "place_at gm y = None" if "in_range c chunk y" for y
    using that ch(3) own(2) [of y] by (fastforce simp: in_range_def)
  then show thesis using that(1) [OF None ch(1,2)] by (simp add: loc_def)
next
  case (Some bo)
  then obtain b off where bo: "place = Some (b, off)" by (cases bo) auto
  obtain l where l: "limit = Some l" "l \<noteq> 0" "unat c + unat l < 18446744073709551616"
    "unat off + unat l \<le> unat (sb_size (gm_heap gm b))"
    "\<And>x. in_range c l x \<Longrightarrow> place_at gm x = Some (b, off + (x - c))"
    using piece_at_shared [OF ok p [unfolded bo]] by metis
  have "limit \<noteq> Some 0" using l(1,2) by simp
  note ch = piece_chunk_props(1,2) [OF n this, folded chunk_def]
    piece_chunk_props(3) [OF n this l(1), folded chunk_def]
  have "place_at gm c = Some (b, off)" using l(5) [of c] l(2) by (simp add: in_range_def unat_gt_0)
  then have "sb_ok (gm_heap gm b)"
    using gm_okD(12) [OF ok] unfolding place_at_def seg_at_Some [OF gm_okD(5) [OF ok]]
    by (auto simp: shared_ok_def adv_place_def)
  moreover have "loc gm x = Inr (b, off + (x - c))" if "in_range c chunk x" for x
    using l(5) that ch(3) by (simp add: in_range_def loc_def)
  ultimately show thesis using that(2) [OF bo ch(1,2)] l(4) ch(3) by simp
qed

lemma read_piece:
  assumes ok: "gm_ok gm" and s: "spans c n gm" and n: "n \<noteq> 0" and p: "piece_at c gm = (place, limit)"
  defines "chunk \<equiv> piece_chunk limit n"
  shows "chunk \<noteq> 0 \<and> unat chunk \<le> unat n \<and>
    (case place of
        Some (backing, offset) \<Rightarrow> sb_Read offset (unat chunk) (gm_heap gm backing)
      | None \<Rightarrow> Some (take (unat chunk) (drop (OffsetOf c gm) (gm_bytes gm)))) =
    Some (map (\<lambda>i. byte_at gm (c + of_nat i)) [0..<unat chunk])"
proof (cases rule: piece_cases [OF ok n p, folded chunk_def])
  case 1
  have sp: "spans c chunk gm" using s 1(3) by (simp add: spans_def)
  have "byte_at gm (c + of_nat i) = raw_byte gm (c + of_nat i)" if "i < unat chunk" for i
  proof -
    have r: "in_range c chunk (c + of_nat i)" using in_range_nat [OF spans_less [OF ok sp]] that by blast
    then show ?thesis using 1(4) [OF r] in_range_inside [OF ok sp r] by (simp add: byte_at_def mem_def)
  qed
  then show ?thesis using 1 raw_slice [OF ok sp] by simp
next
  case (2 b off)
  have sp: "spans c chunk gm" using s 2(3) by (simp add: spans_def)
  have "byte_at gm (c + of_nat i) = sb_byte (gm_heap gm b) (off + of_nat i)" if "i < unat chunk" for i
  proof -
    have r: "in_range c chunk (c + of_nat i)" using in_range_nat [OF spans_less [OF ok sp]] that by blast
    then show ?thesis using 2(6) [OF r] by (simp add: byte_at_def mem_def)
  qed
  then show ?thesis using 2 sb_Read_bytes [OF 2(5,4)] by simp
qed

lemma read_loop_spec:
  assumes "gm_ok gm" "spans c n gm"
  shows "read_loop c n gm = Some (map (\<lambda>i. byte_at gm (c + of_nat i)) [0..<unat n])"
  using assms
proof (induction c n gm rule: read_loop.induct)
  case (1 c n gm)
  show ?case
  proof (cases "n = 0")
    case True
    then show ?thesis by (simp add: read_loop.simps)
  next
    case False
    note room = spans_less [OF 1(2,3)]
    obtain place limit where p: "piece_at c gm = (place, limit)" by fastforce
    define chunk where "chunk = piece_chunk limit n"
    define bytes where "bytes = (case place of
        Some (backing, offset) \<Rightarrow> sb_Read offset (unat chunk) (gm_heap gm backing)
      | None \<Rightarrow> Some (take (unat chunk) (drop (OffsetOf c gm) (gm_bytes gm))))"
    have ch: "chunk \<noteq> 0" "unat chunk \<le> unat n" and
      bytes: "bytes = Some (map (\<lambda>i. byte_at gm (c + of_nat i)) [0..<unat chunk])"
      using read_piece [OF 1(2,3) False p, folded chunk_def, folded bytes_def] by auto
    note sp = spans_part [OF 1(2,3), of chunk "n - chunk"]
    have rest: "unat (n - chunk) = unat n - unat chunk" using ch by (simp add: unat_sub_exact)
    have ih: "read_loop (c + chunk) (n - chunk) gm =
        Some (map (\<lambda>i. byte_at gm (c + chunk + of_nat i)) [0..<unat (n - chunk)])"
      using 1(1) [OF False p [symmetric] refl chunk_def ch(1) bytes [unfolded bytes_def] 1(2)] sp ch rest by simp
    have "read_loop c n gm = map_option ((@) (the bytes)) (read_loop (c + chunk) (n - chunk) gm)"
      using False ch(1) bytes
      by (subst read_loop.simps) (simp add: p chunk_def [symmetric] bytes_def [symmetric])
    also have "\<dots> = Some (map (\<lambda>i. byte_at gm (c + of_nat i)) ([0..<unat chunk] @ [unat chunk..<unat n]))"
      unfolding ih bytes rest using ch(2) map_add_upt [of "unat chunk" "unat n - unat chunk", symmetric]
      by (simp add: algebra_simps)
    also have "[0..<unat chunk] @ [unat chunk..<unat n] = [0..<unat n]" using ch(2) upt_add_eq_append [of 0 "unat chunk" "unat n - unat chunk"] by simp
    finally show ?thesis .
  qed
qed

section \<open>Writing\<close>

text \<open>The reference: store the bytes one after the other.\<close>

definition stores ::
  "guest_memory \<Rightarrow> u64 \<Rightarrow> (nat \<Rightarrow> u8) \<Rightarrow> nat \<Rightarrow> nat \<Rightarrow> (u64 + shared_place \<Rightarrow> u8) \<Rightarrow> u64 + shared_place \<Rightarrow> u8" where
  "stores gm a val i j m = fold (\<lambda>k m. m(loc gm (a + of_nat k) := val k)) [i..<j] m"

lemma stores_split: "i \<le> j \<Longrightarrow> j \<le> k \<Longrightarrow> stores gm a val j k (stores gm a val i j m) = stores gm a val i k m"
  using upt_add_eq_append [of i j "k - j"] by (simp add: stores_def)

lemma stores_other:
  "(\<And>k. i \<le> k \<Longrightarrow> k < j \<Longrightarrow> loc gm (a + of_nat k) \<noteq> l) \<Longrightarrow> stores gm a val i j m l = m l"
  by (induction j) (auto simp: stores_def)

lemma stores_at:
  assumes "i \<le> k" "k < j" "inj_on (\<lambda>k. loc gm (a + of_nat k)) {i..<j}"
  shows "stores gm a val i j m (loc gm (a + of_nat k)) = val k"
  using assms
proof (induction j)
  case (Suc j)
  show ?case
  proof (cases "k = j")
    case True
    then show ?thesis using Suc.prems by (simp add: stores_def)
  next
    case False
    then have "loc gm (a + of_nat k) \<noteq> loc gm (a + of_nat j)"
      using inj_onD [OF Suc.prems(3), of k j] Suc.prems by auto
    moreover have "stores gm a val i j m (loc gm (a + of_nat k)) = val k"
      using Suc.prems False inj_on_subset [OF Suc.prems(3), of "{i..<j}"] by (intro Suc.IH) auto
    ultimately show ?thesis using Suc.prems by (simp add: stores_def)
  qed
qed simp

lemma stores_eqI:
  assumes "inj_on (\<lambda>k. loc gm (a + of_nat k)) {i..<j}"
    "\<And>k. i \<le> k \<Longrightarrow> k < j \<Longrightarrow> M (loc gm (a + of_nat k)) = val k"
    "\<And>l. (\<And>k. i \<le> k \<Longrightarrow> k < j \<Longrightarrow> loc gm (a + of_nat k) \<noteq> l) \<Longrightarrow> M l = m l"
  shows "M = stores gm a val i j m"
proof
  fix l
  show "M l = stores gm a val i j m l"
  proof (cases "\<exists>k. i \<le> k \<and> k < j \<and> loc gm (a + of_nat k) = l")
    case True
    then show ?thesis using stores_at [OF _ _ assms(1)] assms(2) by auto
  next
    case False
    then show ?thesis using stores_other [of i j gm a l val m] assms(3) [of l] by auto
  qed
qed

text \<open>A data operation changes stored bytes only, never the tables.\<close>

definition same_maps :: "guest_memory \<Rightarrow> guest_memory \<Rightarrow> bool" where
  "same_maps gm gm' \<longleftrightarrow> gm' = gm\<lparr>gm_bytes := gm_bytes gm', gm_heap := gm_heap gm'\<rparr>"

lemma same_mapsD:
  assumes "same_maps gm gm'"
  shows "gm_regions gm' = gm_regions gm" "gm_identities gm' = gm_identities gm" "gm_shared gm' = gm_shared gm"
    "gm_base_address gm' = gm_base_address gm" "gm_storage_size gm' = gm_storage_size gm"
    "gm_events gm' = gm_events gm" "live_observer gm' = live_observer gm"
    "loc gm' = loc gm" "piece_at c gm' = piece_at c gm" "spans a n gm' = spans a n gm" "inside a n gm' = inside a n gm"
    "touched gm' = touched gm" "stores gm' = stores gm"
proof -
  have e: "gm' = gm\<lparr>gm_bytes := gm_bytes gm', gm_heap := gm_heap gm'\<rparr>" using assms by (simp add: same_maps_def)
  show sh: "gm_shared gm' = gm_shared gm" and "gm_regions gm' = gm_regions gm" "gm_identities gm' = gm_identities gm"
    and b: "gm_base_address gm' = gm_base_address gm" "gm_storage_size gm' = gm_storage_size gm"
    and "gm_events gm' = gm_events gm"
    by (subst e, simp)+
  have "gm_write_observer gm' = gm_write_observer gm" "gm_live gm' = gm_live gm" by (subst e, simp)+
  then show "live_observer gm' = live_observer gm" by (simp add: live_observer_def cong: option.case_cong)
  show l: "loc gm' = loc gm" by (simp add: fun_eq_iff loc_def place_at_def sh)
  show "piece_at c gm' = piece_at c gm" unfolding piece_at_def FindSharedMapping_def sh ..
  show "spans a n gm' = spans a n gm" "inside a n gm' = inside a n gm"
    by (simp_all add: spans_def inside_def gm_limit_def b)
  show "touched gm' = touched gm" "stores gm' = stores gm" by (simp_all add: fun_eq_iff touched_def stores_def l)
qed

lemma same_maps_refl: "same_maps gm gm"
  by (simp add: same_maps_def)

lemma same_maps_trans: "same_maps gm gm1 \<Longrightarrow> same_maps gm1 gm2 \<Longrightarrow> same_maps gm gm2"
  unfolding same_maps_def by (cases gm; cases gm1; cases gm2) simp

lemma gm_ok_heap:
  "gm_ok gm \<Longrightarrow> sb_ok b' \<Longrightarrow> sb_size b' = sb_size (gm_heap gm b) \<Longrightarrow> gm_ok (gm\<lparr>gm_heap := (gm_heap gm)(b := b')\<rparr>)"
  by (auto simp: gm_ok_def table_ok_def gm_limit_def shared_ok_def)

text \<open>
  What the loop needs of the operation that stores one piece: it writes the bytes \<open>val\<close>, counted
  from the start of the whole range of at most \<open>total\<close> bytes, into the place or the own storage.
\<close>

locale piece_writing =
  fixes put :: piece_writer and val :: "nat \<Rightarrow> u8" and total :: nat
  assumes put_shared: "sb_ok (gm_heap gm b) \<Longrightarrow> unat off + unat n \<le> unat (sb_size (gm_heap gm b)) \<Longrightarrow>
      unat k + unat n \<le> total \<Longrightarrow>
      \<exists>b'. put c k n (Some (b, off)) gm = (True, gm\<lparr>gm_heap := (gm_heap gm)(b := b')\<rparr>) \<and>
        sb_ok b' \<and> sb_size b' = sb_size (gm_heap gm b) \<and>
        (\<forall>x. sb_byte b' x = (if in_range off n x then val (unat k + (unat x - unat off)) else sb_byte (gm_heap gm b) x))"
    and put_own: "unat k + unat n \<le> total \<Longrightarrow>
      \<exists>bs. put c k n None gm = (True, gm\<lparr>gm_bytes := overwrite (gm_bytes gm) (OffsetOf c gm) bs\<rparr>) \<and>
        length bs = unat n \<and> (\<forall>i < unat n. bs ! i = val (unat k + i))"
begin

lemma put_piece_own:
  assumes ok: "gm_ok gm" and s: "spans (a + k) n gm" and u: "unat (a + k) = unat a + unat k" and n0: "n \<noteq> 0"
    and t: "unat k + unat n \<le> total" and l: "\<And>x. in_range (a + k) n x \<Longrightarrow> loc gm x = Inl x"
  shows "\<exists>gm'. put (a + k) k n None gm = (True, gm') \<and> gm_ok gm' \<and> same_maps gm gm' \<and>
    mem gm' = stores gm a val (unat k) (unat k + unat n) (mem gm)"
proof -
  obtain bs where p: "put (a + k) k n None gm = (True, gm\<lparr>gm_bytes := overwrite (gm_bytes gm) (OffsetOf (a + k) gm) bs\<rparr>)"
    and bs: "length bs = unat n" "\<And>i. i < unat n \<Longrightarrow> bs ! i = val (unat k + i)" using put_own [OF t] by blast
  let ?gm = "gm\<lparr>gm_bytes := overwrite (gm_bytes gm) (OffsetOf (a + k) gm) bs\<rparr>"
  have ins: "inside (a + k) n gm" using spans_inside [OF s n0] .
  note R = raw_byte_overwrite [OF ok ins bs(1)]
  note room = spans_less [OF ok s]
  have r: "in_range (a + k) n (a + of_nat i)" "unat (a + of_nat i) = unat a + i" if "unat k \<le> i" "i < unat k + unat n" for i
  proof -
    have "a + of_nat i = a + k + of_nat (i - unat k)" using that(1) by (simp add: of_nat_diff)
    then show "in_range (a + k) n (a + of_nat i)" "unat (a + of_nat i) = unat a + i"
      using in_range_add [OF room, of "i - unat k"] unat_add_nat [OF room, of "i - unat k"] that u by (simp_all del: of_nat_diff add: add.assoc)
  qed
  have m: "mem ?gm (Inl x) = (if in_range (a + k) n x then bs ! (unat x - unat (a + k)) else mem gm (Inl x))" for x
  proof -
    have "inside x 1 ?gm = inside x 1 gm" by (simp add: inside_def gm_limit_def)
    then show ?thesis using R(1) [of x] in_range_inside [OF ok s] by (auto simp: mem_def)
  qed
  have "mem ?gm = stores gm a val (unat k) (unat k + unat n) (mem gm)"
  proof (rule stores_eqI)
    show "inj_on (\<lambda>i. loc gm (a + of_nat i)) {unat k..<unat k + unat n}"
      by (rule inj_onI) (use l r in \<open>auto simp: unat_eq_iff\<close>)
    show "mem ?gm (loc gm (a + of_nat i)) = val i" if "unat k \<le> i" "i < unat k + unat n" for i
      using that r [OF that] l bs(2) [of "i - unat k"] by (simp add: m u)
    fix lo assume o: "\<And>i. unat k \<le> i \<Longrightarrow> i < unat k + unat n \<Longrightarrow> loc gm (a + of_nat i) \<noteq> lo"
    show "mem ?gm lo = mem gm lo"
    proof (cases lo)
      case (Inl x)
      have "\<not> in_range (a + k) n x"
      proof
        assume x: "in_range (a + k) n x"
        then obtain i where i: "i < unat n" "x = a + k + of_nat i" using in_range_nat [OF room] by blast
        then have "x = a + of_nat (unat k + i)" by (simp add: add.assoc)
        then show False using o [of "unat k + i"] l [OF x] Inl i(1) by simp
      qed
      then show ?thesis by (simp add: Inl m)
    qed (simp add: mem_def)
  qed
  moreover have "gm_ok ?gm" by (rule gm_ok_bytes [OF ok R(2)]) (use ins in \<open>auto simp: inside_def\<close>)
  ultimately show ?thesis using p by (auto simp: same_maps_def)
qed

lemma put_piece_shared:
  assumes ok: "gm_ok gm" and s: "spans (a + k) n gm" and u: "unat (a + k) = unat a + unat k"
    and b: "sb_ok (gm_heap gm b)" "unat off + unat n \<le> unat (sb_size (gm_heap gm b))"
    and t: "unat k + unat n \<le> total" and l: "\<And>x. in_range (a + k) n x \<Longrightarrow> loc gm x = Inr (b, off + (x - (a + k)))"
  shows "\<exists>gm'. put (a + k) k n (Some (b, off)) gm = (True, gm') \<and> gm_ok gm' \<and> same_maps gm gm' \<and>
    mem gm' = stores gm a val (unat k) (unat k + unat n) (mem gm)"
proof -
  obtain b' where p: "put (a + k) k n (Some (b, off)) gm = (True, gm\<lparr>gm_heap := (gm_heap gm)(b := b')\<rparr>)"
    and b': "sb_ok b'" "sb_size b' = sb_size (gm_heap gm b)"
    "\<And>x. sb_byte b' x = (if in_range off n x then val (unat k + (unat x - unat off)) else sb_byte (gm_heap gm b) x)"
    using put_shared [OF b t] by blast
  let ?gm = "gm\<lparr>gm_heap := (gm_heap gm)(b := b')\<rparr>"
  note room = spans_less [OF ok s]
  have oroom: "unat off + unat n < 18446744073709551616" using b(2) unat_u64_less [of "sb_size (gm_heap gm b)"] by linarith
  have at: "loc gm (a + of_nat i) = Inr (b, off + of_nat (i - unat k))" if "unat k \<le> i" "i < unat k + unat n" for i
  proof -
    have e: "a + of_nat i = a + k + of_nat (i - unat k)" using that(1) by (simp add: of_nat_diff)
    have "in_range (a + k) n (a + of_nat i)" unfolding e using in_range_add [OF room, of "i - unat k"] that by simp
    from l [OF this] e show ?thesis by (simp del: of_nat_diff add: add.assoc)
  qed
  have m: "mem ?gm (Inr (c, x)) = (if c = b then sb_byte b' x else mem gm (Inr (c, x)))"
    "mem ?gm (Inl y) = mem gm (Inl y)" for c x y
    by (simp_all add: mem_def inside_def gm_limit_def raw_byte_def OffsetOf_def)
  have "mem ?gm = stores gm a val (unat k) (unat k + unat n) (mem gm)"
  proof (rule stores_eqI)
    show "inj_on (\<lambda>i. loc gm (a + of_nat i)) {unat k..<unat k + unat n}"
    proof (rule inj_onI)
      fix i j assume ij: "i \<in> {unat k..<unat k + unat n}" "j \<in> {unat k..<unat k + unat n}"
        and e: "loc gm (a + of_nat i) = loc gm (a + of_nat j)"
      have eq: "unat (off + of_nat (i - unat k)) = unat (off + of_nat (j - unat k))"
        using e ij by (simp add: at del: of_nat_diff)
      have "i - unat k \<le> unat n" "j - unat k \<le> unat n" using ij by auto
      note this [THEN unat_add_nat [OF oroom]]
      with eq have "unat off + (i - unat k) = unat off + (j - unat k)" by (simp only:)
      then show "i = j" using ij by auto
    qed
    show "mem ?gm (loc gm (a + of_nat i)) = val i" if "unat k \<le> i" "i < unat k + unat n" for i
    proof -
      have "unat (off + of_nat (i - unat k)) = unat off + (i - unat k)"
        using unat_add_nat [OF oroom, of "i - unat k"] that by simp
      moreover from this have "in_range off n (off + of_nat (i - unat k))" using that by (auto simp: in_range_def)
      ultimately show ?thesis using that by (simp add: at [OF that] m b'(3) del: of_nat_diff)
    qed
    fix lo assume o: "\<And>i. unat k \<le> i \<Longrightarrow> i < unat k + unat n \<Longrightarrow> loc gm (a + of_nat i) \<noteq> lo"
    show "mem ?gm lo = mem gm lo"
    proof (cases lo)
      case (Inr q)
      then obtain c x where q: "lo = Inr (c, x)" by (cases q) auto
      have "c = b \<Longrightarrow> \<not> in_range off n x"
      proof
        assume "c = b" "in_range off n x"
        then obtain i where i: "i < unat n" "x = off + of_nat i" using in_range_nat [OF oroom] by blast
        then show False using o [of "unat k + i"] at [of "unat k + i"] q \<open>c = b\<close> by simp
      qed
      then show ?thesis by (auto simp: q m b'(3)) (simp add: mem_def)
    qed (simp add: m)
  qed
  moreover have "gm_ok ?gm" by (rule gm_ok_heap [OF ok b'(1,2)])
  ultimately show ?thesis using p by (auto simp: same_maps_def)
qed

end

text \<open>
  What the loop promises: the bytes up to \<open>fin\<close> are stored and reported; without the test fault
  that is the whole range.
\<close>

definition mutated ::
  "(nat \<Rightarrow> u8) \<Rightarrow> bool \<Rightarrow> u64 \<Rightarrow> u64 \<Rightarrow> u64 \<Rightarrow> guest_memory \<Rightarrow> mutation_report \<Rightarrow>
   (bool \<times> u64 \<times> guest_memory \<times> mutation_report) option \<Rightarrow> bool" where
  "mutated val fault a copied len gm r result \<longleftrightarrow>
     (\<exists>fin gm' r'. result = Some (\<not> fault \<or> copied = len, fin, gm', r') \<and>
        unat copied \<le> unat fin \<and> unat fin \<le> unat len \<and> (\<not> fault \<longrightarrow> fin = len) \<and>
        gm_ok gm' \<and> same_maps gm gm' \<and> mem gm' = stores gm a val (unat copied) (unat fin) (mem gm) \<and>
        extends r r' (touched gm (a + copied) (fin - copied)))"

lemma mutated_step:
  assumes s: "spans a len gm" and ok: "gm_ok gm"
    and k: "unat copied + unat chunk \<le> unat len" "chunk \<noteq> 0"
    and g: "gm_ok gm1" "same_maps gm gm1" "mem gm1 = stores gm a val (unat copied) (unat copied + unat chunk) (mem gm)"
    and r: "extends r r1 (touched gm (a + copied) chunk)"
    and rest: "if fault then result = Some (False, copied + chunk, gm1, r1)
      else mutated val fault a (copied + chunk) len gm1 r1 result"
  shows "mutated val fault a copied len gm r result"
proof -
  have u: "unat (copied + chunk) = unat copied + unat chunk"
    using k(1) unat_u64_less [of len] by (intro unat_add_exact) linarith
  note sm = same_mapsD [OF g(2)]
  show ?thesis
  proof (cases fault)
    case True
    moreover have "copied \<noteq> len" using k by (auto simp: unat_gt_0 [symmetric])
    ultimately show ?thesis using rest g r u k(1) by (auto simp: mutated_def)
  next
    case False
    with rest obtain gm2 r2 where res: "result = Some (True, len, gm2, r2)" and
      g2: "gm_ok gm2" "same_maps gm1 gm2" "mem gm2 = stores gm a val (unat copied + unat chunk) (unat len) (mem gm1)"
      "extends r1 r2 (touched gm (a + (copied + chunk)) (len - (copied + chunk)))"
      by (auto simp: mutated_def sm u)
    have sub: "unat (len - copied) = unat len - unat copied" using k by (simp add: unat_sub_exact)
    have "spans (a + copied) (len - copied) gm" using spans_part(1) [OF ok s, of copied "len - copied"] sub k by simp
    from spans_less [OF ok this] have room: "unat (a + copied) + unat (len - copied) < 18446744073709551616" .
    have "unat chunk \<le> unat (len - copied)" using sub k by simp
    note ts = touched_split [OF this room, of gm]
    have "extends r r2 (touched gm (a + copied) (len - copied))"
      by (rule extends_trans [OF r g2(4)]) (simp add: ts add.assoc diff_diff_eq)
    moreover have "mem gm2 = stores gm a val (unat copied) (unat len) (mem gm)"
      unfolding g2(3) g(3) using k(1) by (intro stores_split) simp_all
    ultimately show ?thesis
      using res g2(1) same_maps_trans [OF g(2) g2(2)] False k(1) by (auto simp: mutated_def)
  qed
qed

context piece_writing
begin

lemma put_piece:
  assumes ok: "gm_ok gm" and s: "spans a len gm" and k: "unat copied < unat len" "unat len \<le> total"
    and p: "piece_at (a + copied) gm = (place, limit)"
  defines "chunk \<equiv> piece_chunk limit (len - copied)"
  shows "\<exists>gm'. chunk \<noteq> 0 \<and> unat copied + unat chunk \<le> unat len \<and> put (a + copied) copied chunk place gm = (True, gm') \<and>
    gm_ok gm' \<and> same_maps gm gm' \<and>
    mem gm' = stores gm a val (unat copied) (unat copied + unat chunk) (mem gm)"
proof -
  have sub: "unat (len - copied) = unat len - unat copied" using k by (simp add: unat_sub_exact)
  then have nz: "len - copied \<noteq> 0" using k by auto
  show ?thesis
  proof (cases rule: piece_cases [OF ok nz p, folded chunk_def])
    case 1
    have le: "unat copied + unat chunk \<le> unat len" using 1(3) sub k by simp
    note sp = spans_part [OF ok s le]
    show ?thesis using put_piece_own [OF ok sp 1(2)] 1 le k by auto
  next
    case (2 b off)
    have le: "unat copied + unat chunk \<le> unat len" using 2(3) sub k by simp
    note sp = spans_part [OF ok s le]
    show ?thesis using put_piece_shared [OF ok sp 2(5,4)] 2 le k by auto
  qed
qed

lemma mutate_loop_spec:
  assumes "gm_ok gm" "mr_ok r" "spans a len gm" "unat len \<le> total" "unat copied \<le> unat len"
  shows "mutated val fault a copied len gm r (mutate_loop put fault a copied len gm r)"
  using assms
proof (induction "unat (len - copied)" arbitrary: copied gm r rule: less_induct)
  case less
  note prem = less.prems
  show ?case
  proof (cases "copied < len")
    case False
    then have e: "copied = len" using prem(5) by (simp add: word_less_nat_alt unat_eq_iff)
    then show ?thesis
      using prem by (simp add: mutate_loop.simps mutated_def same_maps_refl stores_def touched_def in_range_def extends_refl)
  next
    case True
    then have lt: "unat copied < unat len" by (simp add: word_less_nat_alt)
    obtain place limit where p: "piece_at (a + copied) gm = (place, limit)" by fastforce
    define chunk where "chunk = piece_chunk limit (len - copied)"
    obtain gm1 where ch: "chunk \<noteq> 0" "unat copied + unat chunk \<le> unat len"
      and put: "put (a + copied) copied chunk place gm = (True, gm1)" and g: "gm_ok gm1" "same_maps gm gm1"
      "mem gm1 = stores gm a val (unat copied) (unat copied + unat chunk) (mem gm)"
      using put_piece [OF prem(1,3) lt prem(4) p, folded chunk_def] by blast
    note sm = same_mapsD [OF g(2)]
    have "unat (a + copied) + unat chunk < 18446744073709551616"
      using spans_less [OF prem(1) spans_part(1) [OF prem(1,3) ch(2)]] .
    from record_loop_spec [OF g(1) prem(2) this] obtain r1 where
      r1: "RecordActualWriteRangeLocked r (a + copied) chunk gm1 = Some r1" "extends r r1 (touched gm (a + copied) chunk)"
      by (auto simp: RecordActualWriteRangeLocked_def sm)
    have u: "unat (copied + chunk) = unat copied + unat chunk"
      using ch(2) unat_u64_less [of len] by (intro unat_add_exact) linarith
    have "unat (len - (copied + chunk)) < unat (len - copied)"
      using ch lt u by (simp add: unat_sub_exact unat_gt_0 [symmetric])
    then have ih: "mutated val fault a (copied + chunk) len gm1 r1 (mutate_loop put fault a (copied + chunk) len gm1 r1)"
      using g(1) r1(2) prem(3,4) ch(2) by (intro less.hyps) (simp_all add: sm u extends_def)
    have "mutate_loop put fault a copied len gm r =
        (if fault then Some (False, copied + chunk, gm1, r1) else mutate_loop put fault a (copied + chunk) len gm1 r1)"
      using True ch(1) put r1(1) by (subst mutate_loop.simps) (simp add: p chunk_def [symmetric])
    with ih show ?thesis by (intro mutated_step [OF prem(3,1) ch(2,1) g r1(2)]) (cases fault; simp)
  qed
qed

end

interpretation writing: piece_writing "write_piece source" "\<lambda>i. source ! i" "length source" for source
proof
  fix gm :: guest_memory and b :: nat and off n k c :: u64
  assume ok: "sb_ok (gm_heap gm b)" and r: "unat off + unat n \<le> unat (sb_size (gm_heap gm b))"
    and t: "unat k + unat n \<le> length source"
  let ?bs = "take (unat n) (drop (unat k) source)"
  have l: "length ?bs = unat n" using t by simp
  obtain b' where b': "sb_Write off ?bs (gm_heap gm b) = (True, b')" "sb_ok b'" "sb_size b' = sb_size (gm_heap gm b)"
    "\<And>x. sb_byte b' x = (if unat off \<le> unat x \<and> unat x < unat off + length ?bs
        then ?bs ! (unat x - unat off) else sb_byte (gm_heap gm b) x)"
    using sb_Write_bytes [OF ok, of off ?bs] r l by auto
  show "\<exists>b'. write_piece source c k n (Some (b, off)) gm = (True, gm\<lparr>gm_heap := (gm_heap gm)(b := b')\<rparr>) \<and>
      sb_ok b' \<and> sb_size b' = sb_size (gm_heap gm b) \<and>
      (\<forall>x. sb_byte b' x = (if in_range off n x then source ! (unat k + (unat x - unat off)) else sb_byte (gm_heap gm b) x))"
    using b' l t by (intro exI [of _ b']) (auto simp: write_piece_def Let_def in_range_def)
next
  fix k n c :: u64 and gm :: guest_memory
  assume t: "unat k + unat n \<le> length source"
  show "\<exists>bs. write_piece source c k n None gm = (True, gm\<lparr>gm_bytes := overwrite (gm_bytes gm) (OffsetOf c gm) bs\<rparr>) \<and>
      length bs = unat n \<and> (\<forall>i < unat n. bs ! i = source ! (unat k + i))"
    using t by (intro exI [of _ "take (unat n) (drop (unat k) source)"]) (auto simp: write_piece_def Let_def)
qed

interpretation filling: piece_writing "fill_piece v" "\<lambda>_. v" "18446744073709551616" for v
proof
  fix gm :: guest_memory and b :: nat and off n k c :: u64
  assume ok: "sb_ok (gm_heap gm b)" and r: "unat off + unat n \<le> unat (sb_size (gm_heap gm b))"
  obtain b' where b': "sb_Fill off n v (gm_heap gm b) = (True, b')" "sb_ok b'" "sb_size b' = sb_size (gm_heap gm b)"
    "\<And>x. sb_byte b' x = (if unat off \<le> unat x \<and> unat x < unat off + unat n then v else sb_byte (gm_heap gm b) x)"
    using sb_Fill_bytes [OF ok r] by metis
  then show "\<exists>b'. fill_piece v c k n (Some (b, off)) gm = (True, gm\<lparr>gm_heap := (gm_heap gm)(b := b')\<rparr>) \<and>
      sb_ok b' \<and> sb_size b' = sb_size (gm_heap gm b) \<and>
      (\<forall>x. sb_byte b' x = (if in_range off n x then v else sb_byte (gm_heap gm b) x))"
    by (intro exI [of _ b']) (auto simp: fill_piece_def in_range_def)
next
  fix k n c :: u64 and gm :: guest_memory
  show "\<exists>bs. fill_piece v c k n None gm = (True, gm\<lparr>gm_bytes := overwrite (gm_bytes gm) (OffsetOf c gm) bs\<rparr>) \<and>
      length bs = unat n \<and> (\<forall>i < unat n. bs ! i = v)"
    by (intro exI [of _ "replicate (unat n) v"]) (auto simp: fill_piece_def)
qed

section \<open>The checked operations\<close>

text \<open>Telling the observer changes the write generation and the list of events only.\<close>

definition same_data :: "guest_memory \<Rightarrow> guest_memory \<Rightarrow> bool" where
  "same_data gm gm' \<longleftrightarrow> gm_ok gm' = gm_ok gm \<and> mem gm' = mem gm \<and> loc gm' = loc gm \<and> prot_at gm' = prot_at gm \<and>
     id_at gm' = id_at gm \<and> (\<forall>a n. inside a n gm' = inside a n gm)"

lemma same_data_NotifyWrite: "same_data gm (NotifyWrite a n gm)"
proof -
  have "raw_byte (NotifyWrite a n gm) = raw_byte gm" by (simp add: fun_eq_iff raw_byte_def OffsetOf_def)
  then show ?thesis
    by (auto simp: same_data_def fun_eq_iff mem_def loc_def place_at_def prot_at_def id_at_def inside_def gm_limit_def
        cong: option.case_cong split: sum.splits)
qed

lemma same_data_trans: "same_data gm gm1 \<Longrightarrow> same_data gm1 gm2 \<Longrightarrow> same_data gm gm2"
  by (simp add: same_data_def)

lemma same_data_fold: "same_data gm (fold (\<lambda>(address, len). NotifyWrite address len) rs gm)"
proof (induction rs arbitrary: gm)
  case (Cons r rs)
  obtain a n where r: "r = (a, n)" by fastforce
  show ?case using same_data_trans [OF same_data_NotifyWrite Cons] by (simp add: r)
qed (simp add: same_data_def)

lemma same_data_report: "same_data gm (NotifyMutationReport r gm)"
  by (simp add: NotifyMutationReport_def same_data_NotifyWrite same_data_fold)

lemma new_report_ok: "mr_ok new_report" "\<not> covered new_report x"
  by (simp_all add: new_report_def mr_ok_def covered_def in_ranges_def)

text \<open>
  The effect of storing \<open>fin\<close> bytes: the locations hold them, nothing else changes but the record
  of the write, and the observer was told of every address that shows one of these locations.
\<close>

definition stored :: "(nat \<Rightarrow> u8) \<Rightarrow> u64 \<Rightarrow> u64 \<Rightarrow> guest_memory \<Rightarrow> guest_memory \<Rightarrow> bool" where
  "stored val a fin gm gm' \<longleftrightarrow>
     gm_ok gm' \<and> mem gm' = stores gm a val 0 (unat fin) (mem gm) \<and> loc gm' = loc gm \<and>
     prot_at gm' = prot_at gm \<and> id_at gm' = id_at gm \<and> (\<forall>b n. inside b n gm' = inside b n gm) \<and>
     (\<forall>x. inside x 1 gm \<and> touched gm a fin x \<longrightarrow> reported gm gm' x)"

lemma mutated_finish:
  assumes m: "mutated val fault a 0 len gm new_report result"
  shows "\<exists>fin gm'. map_option (\<lambda>(completed, _, gm', mutations). (completed, NotifyMutationReport mutations gm')) result =
       Some (\<not> fault \<or> len = 0, gm') \<and>
    unat fin \<le> unat len \<and> (\<not> fault \<longrightarrow> fin = len) \<and> stored val a fin gm gm'"
proof -
  obtain fin gm1 r1 where res: "result = Some (\<not> fault \<or> len = 0, fin, gm1, r1)"
    and f: "unat fin \<le> unat len" "\<not> fault \<longrightarrow> fin = len" and ok: "gm_ok gm1" and sm: "same_maps gm gm1"
    and me: "mem gm1 = stores gm a val 0 (unat fin) (mem gm)" and ex: "extends new_report r1 (touched gm a fin)"
    using m by (auto simp: mutated_def)
  have sd: "same_data gm1 (NotifyMutationReport r1 gm1)" by (rule same_data_report)
  have "reported gm (NotifyMutationReport r1 gm1) x" if "inside x 1 gm" "touched gm a fin x" for x
    using NotifyMutationReport_reports [of r1 x gm1] ex that same_mapsD(6,7,11) [OF sm]
    by (simp add: extends_def reported_def)
  moreover have "prot_at gm1 = prot_at gm" "id_at gm1 = id_at gm" using same_mapsD(1,2) [OF sm] by (simp_all add: prot_at_def id_at_def)
  ultimately have "stored val a fin gm (NotifyMutationReport r1 gm1)"
    using ok me sd same_mapsD(8,11) [OF sm] by (simp add: stored_def same_data_def)
  with res f show ?thesis by auto
qed

lemma Write_spec:
  assumes ok: "gm_ok gm" and n: "length source < 18446744073709551616"
    and acc: "CanAccess a (of_nat (length source)) kWrite gm"
  shows "\<exists>fin gm'. Write fault a source gm = Some (\<not> fault \<or> source = [], gm') \<and>
    unat fin \<le> length source \<and> (\<not> fault \<longrightarrow> fin = of_nat (length source)) \<and> stored (\<lambda>i. source ! i) a fin gm gm'"
proof -
  have l: "unat (of_nat (length source) :: u64) = length source" using n by (simp add: unat_of_nat)
  have s: "spans a (of_nat (length source)) gm"
    using acc inside_spans by (simp add: CanAccess_def CanAccessLocked_iff [OF ok])
  have "mutated (\<lambda>i. source ! i) fault a 0 (of_nat (length source)) gm new_report
      (WriteBytes fault a source gm new_report)"
    unfolding WriteBytes_def by (rule writing.mutate_loop_spec [OF ok new_report_ok(1) s]) (simp_all add: l)
  note F = mutated_finish [OF this]
  have z: "of_nat (length source) = (0 :: u64) \<longleftrightarrow> source = []"
  proof
    assume "of_nat (length source) = (0 :: u64)"
    with l show "source = []" by simp
  qed simp
  have "Write fault a source gm =
      map_option (\<lambda>(completed, _, gm', mutations). (completed, NotifyMutationReport mutations gm'))
        (WriteBytes fault a source gm new_report)"
    using acc by (simp add: Write_def CanAccess_def)
  with F show ?thesis unfolding z l by (simp only:)
qed

lemma Fill_spec:
  assumes ok: "gm_ok gm" and acc: "CanAccess a len kWrite gm"
  shows "\<exists>fin gm'. Fill fault a len v gm = Some (\<not> fault \<or> len = 0, gm') \<and>
    unat fin \<le> unat len \<and> (\<not> fault \<longrightarrow> fin = len) \<and> stored (\<lambda>_. v) a fin gm gm'"
proof -
  have s: "spans a len gm" using acc inside_spans by (simp add: CanAccess_def CanAccessLocked_iff [OF ok])
  have "unat len \<le> 18446744073709551616" using unat_u64_less [of len] by simp
  then have "mutated (\<lambda>_. v) fault a 0 len gm new_report (FillBytes fault a len v gm new_report)"
    unfolding FillBytes_def by (intro filling.mutate_loop_spec [OF ok new_report_ok(1) s]) simp_all
  note F = mutated_finish [OF this]
  have "Fill fault a len v gm =
      map_option (\<lambda>(completed, _, gm', mutations). (completed, NotifyMutationReport mutations gm'))
        (FillBytes fault a len v gm new_report)"
    using acc by (simp add: Fill_def CanAccess_def)
  with F show ?thesis by simp
qed

section \<open>Properties\<close>

lemma stored_changes:
  assumes ok: "gm_ok gm" and s: "stored val a fin gm gm'" and room: "unat a + unat fin < 18446744073709551616"
    and x: "inside x 1 gm" and ne: "byte_at gm' x \<noteq> byte_at gm x"
  shows "reported gm gm' x"
proof -
  have "stores gm a val 0 (unat fin) (mem gm) (loc gm x) \<noteq> mem gm (loc gm x)"
    using s ne by (simp add: stored_def byte_at_def)
  then obtain k where k: "k < unat fin" "loc gm (a + of_nat k) = loc gm x" using stores_other [of 0] by metis
  then have "touched gm a fin x" using in_range_add [OF room k(1)] by (auto simp: touched_def)
  with s x show ?thesis by (simp add: stored_def)
qed

lemma access_room: "gm_ok gm \<Longrightarrow> CanAccess a n p gm \<Longrightarrow> unat a + unat n < 18446744073709551616"
  using insideD by (simp add: CanAccess_def CanAccessLocked_iff)

text \<open>Two mappings of the first bytes of one backing, side by side.\<close>

definition aliased_memory :: guest_memory where
  "aliased_memory = snd (MapShared (\<lambda>_. True) 0x1030 0x10 (kRead OR kWrite) (Some 0) 0
     (snd (MapShared (\<lambda>_. True) 0x1020 0x10 (kRead OR kWrite) (Some 0) 0 small_memory)))"

lemma aliased_memory_ok: "gm_ok aliased_memory" "heap_ok aliased_memory"
proof -
  define gm1 where "gm1 = snd (MapShared (\<lambda>_. True) 0x1020 0x10 (kRead OR kWrite) (Some 0) 0 small_memory)"
  have f1: "map_frame small_memory gm1"
    unfolding gm1_def by (rule MapShared_frame [OF small_memory_ok prod.collapse [symmetric]])
  then have ok1: "gm_ok gm1" "heap_ok gm1" using small_memory_ok(2) by (simp_all add: map_frame_def heap_ok_def)
  have f2: "map_frame gm1 aliased_memory"
    unfolding aliased_memory_def gm1_def [symmetric] by (rule MapShared_frame [OF ok1 prod.collapse [symmetric]])
  then show "gm_ok aliased_memory" "heap_ok aliased_memory" using ok1(2) by (simp_all add: map_frame_def heap_ok_def)
qed

lemma aliased_memory_facts:
  "CanAccess 0x1020 1 kWrite aliased_memory" "CanAccess 0x1020 1 kRead aliased_memory" "inside 0x1030 1 aliased_memory"
  "loc aliased_memory 0x1020 = Inr (0, 0)" "loc aliased_memory 0x1030 = Inr (0, 0)" "byte_at aliased_memory 0x1030 = 0"
  by code_simp+

text \<open>
  C23: Writing is storing byte by byte. \<open>Write\<close> reports failure and leaves the memory alone unless
  every byte is writable. Otherwise it stores the source bytes one after the other at the
  locations of the addresses, in the memory or in a shared backing, changes nothing else, and
  reports success; an injected fault only cuts it short after some of the bytes.
\<close>

theorem write_is_bytewise:
  assumes "gm_ok gm" "length source < 18446744073709551616"
  shows "if CanAccess a (of_nat (length source)) kWrite gm
    then \<exists>(fin :: u64) gm'. Write fault a source gm = Some (\<not> fault \<or> source = [], gm') \<and>
      unat fin \<le> length source \<and> (\<not> fault \<longrightarrow> fin = of_nat (length source)) \<and>
      gm_ok gm' \<and> mem gm' = stores gm a (\<lambda>i. source ! i) 0 (unat fin) (mem gm) \<and>
      loc gm' = loc gm \<and> prot_at gm' = prot_at gm \<and> id_at gm' = id_at gm
    else Write fault a source gm = Some (False, gm)"
proof (cases "CanAccess a (of_nat (length source)) kWrite gm")
  case True
  from Write_spec [OF assms True, of fault] obtain fin gm' where
    "Write fault a source gm = Some (\<not> fault \<or> source = [], gm')" "unat fin \<le> length source"
    "\<not> fault \<longrightarrow> fin = of_nat (length source)" "stored (\<lambda>i. source ! i) a fin gm gm'" by blast
  then show ?thesis unfolding stored_def if_P [OF True] by blast
qed (simp add: Write_def CanAccess_def)

theorem write_is_bytewise_witness:
  "\<exists>gm'. Write False 0x1020 [7] aliased_memory = Some (True, gm') \<and> byte_at gm' 0x1030 = 7"
proof -
  have "\<exists>gm'. Write False 0x1020 [7] aliased_memory = Some (True, gm') \<and>
      mem gm' = stores aliased_memory 0x1020 (\<lambda>i. [7] ! i) 0 1 (mem aliased_memory) \<and> loc gm' = loc aliased_memory"
    using write_is_bytewise [OF aliased_memory_ok(1), of "[7]" "0x1020" False] aliased_memory_facts(1) by auto
  then show ?thesis using aliased_memory_facts(4,5) by (auto simp: byte_at_def stores_def)
qed

text \<open>
  C24: No change goes unnoticed. If after a \<open>Write\<close> or a \<open>Fill\<close>, complete or cut short by a fault, the
  byte seen at some address differs from before, be it through another mapping of the same
  backing, then the write observer was told of a range that contains this address.
\<close>

theorem changes_are_reported:
  assumes ok: "gm_ok gm" and n: "length source < 18446744073709551616"
    and op: "Write fault a source gm = Some (r, gm') \<or> Fill fault a len v gm = Some (r, gm')"
    and x: "inside x 1 gm" "byte_at gm' x \<noteq> byte_at gm x"
  shows "reported gm gm' x"
  using op
proof
  assume w: "Write fault a source gm = Some (r, gm')"
  then have acc: "CanAccess a (of_nat (length source)) kWrite gm"
    using x(2) by (auto simp: Write_def CanAccess_def split: if_splits)
  have l: "unat (of_nat (length source) :: u64) = length source" using n by (simp add: unat_of_nat)
  from Write_spec [OF ok n acc, of fault] w obtain fin where
    fin: "unat fin \<le> length source" "stored (\<lambda>i. source ! i) a fin gm gm'" by auto
  then show ?thesis using access_room [OF ok acc] x l by (intro stored_changes [OF ok fin(2)]) simp_all
next
  assume w: "Fill fault a len v gm = Some (r, gm')"
  then have acc: "CanAccess a len kWrite gm" using x(2) by (auto simp: Fill_def CanAccess_def split: if_splits)
  from Fill_spec [OF ok acc, of fault v] w obtain fin where
    fin: "unat fin \<le> unat len" "stored (\<lambda>_. v) a fin gm gm'" by auto
  then show ?thesis using access_room [OF ok acc] x by (intro stored_changes [OF ok fin(2)]) simp_all
qed

theorem changes_are_reported_witness:
  "\<exists>gm'. Write False 0x1020 [7] aliased_memory = Some (True, gm') \<and>
     byte_at gm' 0x1030 \<noteq> byte_at aliased_memory 0x1030 \<and> reported aliased_memory gm' 0x1030"
proof -
  obtain gm' where w: "Write False 0x1020 [7] aliased_memory = Some (True, gm')"
    and s: "stored (\<lambda>i. [7] ! i) 0x1020 1 aliased_memory gm'"
    using Write_spec [OF aliased_memory_ok(1), of "[7]" "0x1020" False] aliased_memory_facts(1) by auto
  have "byte_at gm' 0x1030 = 7"
    using s aliased_memory_facts(4,5) by (simp add: stored_def byte_at_def stores_def)
  then have ne: "byte_at gm' 0x1030 \<noteq> byte_at aliased_memory 0x1030" using aliased_memory_facts(6) by simp
  from changes_are_reported [OF aliased_memory_ok(1) _ disjI1 [OF w] aliased_memory_facts(3) ne] w ne
  show ?thesis by simp
qed

text \<open>
  C26: A read sees what was written. If no two addresses of a range show the same location, a
  complete \<open>Write\<close> to it followed by a \<open>Read\<close> of a readable range gives the bytes back; reading a
  range that is not readable reports failure.
\<close>

theorem write_read_roundtrip:
  assumes ok: "gm_ok gm" and n: "length source < 18446744073709551616"
    and inj: "inj_on (\<lambda>i. loc gm (a + of_nat i)) {..<length source}"
    and w: "Write False a source gm = Some (True, gm')"
  shows "Read a (of_nat (length source)) gm' =
    (if CanAccess a (of_nat (length source)) kRead gm then Some source else None)"
proof -
  let ?n = "of_nat (length source) :: u64"
  have l: "unat ?n = length source" using n by (simp add: unat_of_nat)
  have acc: "CanAccess a ?n kWrite gm" using w by (auto simp: Write_def CanAccess_def split: if_splits)
  have s: "stored (\<lambda>i. source ! i) a ?n gm gm'" using Write_spec [OF ok n acc, of False] w by auto
  then have ok': "gm_ok gm'" and in': "inside b m gm' = inside b m gm" for b m by (simp_all add: stored_def)
  have can: "CanAccessLocked a ?n kRead gm' = CanAccess a ?n kRead gm"
    using s by (simp add: CanAccess_def CanAccessLocked_iff ok ok' in' granted_def stored_def prot_at_def)
  have "inside a ?n gm" using acc by (simp add: CanAccess_def CanAccessLocked_iff [OF ok])
  then have sp: "spans a ?n gm'" using inside_spans in' by blast
  have "byte_at gm' (a + of_nat i) = source ! i" if "i < length source" for i
    using stores_at [of 0 i "length source" gm a] inj that s l by (simp add: stored_def byte_at_def atLeast0LessThan)
  then have "map (\<lambda>i. byte_at gm' (a + of_nat i)) [0..<length source] = source" by (intro nth_equalityI) simp_all
  with read_loop_spec [OF ok' sp] l can show ?thesis by (simp add: Read_def ReadBytes_def)
qed

theorem write_read_roundtrip_witness:
  "\<exists>gm'. Write False 0x1020 [7] aliased_memory = Some (True, gm') \<and> Read 0x1020 1 gm' = Some [7]"
proof -
  obtain gm' where w: "Write False 0x1020 [7] aliased_memory = Some (True, gm')"
    using Write_spec [OF aliased_memory_ok(1), of "[7]" "0x1020" False] aliased_memory_facts(1) by auto
  from write_read_roundtrip [OF aliased_memory_ok(1) _ _ w] w aliased_memory_facts(2) show ?thesis by (simp add: inj_on_def)
qed

end
