(* ===== verification/Guest_Copy.thy ===== *)
theory Guest_Copy
  imports Guest_Access
begin

text \<open>
  \<open>Copy\<close>, which moves bytes inside guest memory. It is a plain \<open>memmove\<close> unless there are shared
  mappings; then it goes through a buffer of 4096 bytes, backwards if the destination overlaps
  the end of the source.
\<close>

section \<open>Operations\<close>

definition memmove :: "u64 \<Rightarrow> u64 \<Rightarrow> u64 \<Rightarrow> guest_memory \<Rightarrow> guest_memory" where
  "memmove destination source len gm =
     gm\<lparr>gm_bytes := overwrite (gm_bytes gm) (OffsetOf destination gm)
        (take (unat len) (drop (OffsetOf source gm) (gm_bytes gm)))\<rparr>"

text \<open>One pass through the buffer: read, then write. The result is that of \<open>WriteBytes\<close>.\<close>

definition copy_chunk ::
  "bool \<Rightarrow> u64 \<Rightarrow> u64 \<Rightarrow> u64 \<Rightarrow> guest_memory \<Rightarrow> mutation_report \<Rightarrow>
   (bool \<times> u64 \<times> guest_memory \<times> mutation_report) option" where
  "copy_chunk fault destination source chunk gm mutations =
     (case ReadBytes source chunk gm of
        None \<Rightarrow> Some (False, 0, gm, mutations)
      | Some bytes \<Rightarrow> WriteBytes fault destination bytes gm mutations)"

function copy_backward ::
  "bool \<Rightarrow> u64 \<Rightarrow> u64 \<Rightarrow> u64 \<Rightarrow> guest_memory \<Rightarrow> mutation_report \<Rightarrow> (bool \<times> guest_memory \<times> mutation_report) option" where
  "copy_backward fault destination source remaining gm mutations =
     (if remaining = 0 then Some (True, gm, mutations)
      else
        let chunk = min 4096 remaining;
            offset = remaining - chunk
        in case copy_chunk fault (destination + offset) (source + offset) chunk gm mutations of
            None \<Rightarrow> None
          | Some (write_completed, bytes_written, gm', mutations') \<Rightarrow>
              if \<not> write_completed \<or> bytes_written \<noteq> chunk then Some (False, gm', mutations')
              else copy_backward fault destination source offset gm' mutations')"
  by pat_completeness auto
termination
  by (relation "measure (\<lambda>(f, d, s, n, gm, r). unat n)")
    (auto simp: unat_sub_exact word_le_nat_alt min_def unat_gt_0)

text \<open>An iteration that copies nothing would never end; it is the value \<open>None\<close>.\<close>

function copy_forward ::
  "bool \<Rightarrow> u64 \<Rightarrow> u64 \<Rightarrow> u64 \<Rightarrow> u64 \<Rightarrow> guest_memory \<Rightarrow> mutation_report \<Rightarrow>
   (bool \<times> guest_memory \<times> mutation_report) option" where
  "copy_forward fault destination source copied len gm mutations =
     (if \<not> copied < len then Some (copied = len, gm, mutations)
      else
        let chunk = min 4096 (len - copied)
        in case copy_chunk fault (destination + copied) (source + copied) chunk gm mutations of
            None \<Rightarrow> None
          | Some (write_completed, bytes_written, gm', mutations') \<Rightarrow>
              if \<not> write_completed \<or> bytes_written \<noteq> chunk then Some (False, gm', mutations')
              else copy_forward fault destination source (copied + bytes_written) len gm' mutations')"
  by pat_completeness auto
termination
proof (relation "measure (\<lambda>(f, d, s, c, n, gm, r). unat (n - c))", simp, clarsimp)
  fix copied len :: u64
  assume "copied < len"
  then have "0 < unat (len - copied)" by (simp add: unat_gt_0)
  moreover have "len - (copied + min 4096 (len - copied)) = (len - copied) - min 4096 (len - copied)" by simp
  ultimately show "unat (len - (copied + min 4096 (len - copied))) < unat (len - copied)"
    by (simp only:) (auto simp: unat_sub_exact word_le_nat_alt min_def)
qed

declare copy_backward.simps [simp del] copy_forward.simps [simp del]

definition Copy :: "bool \<Rightarrow> u64 \<Rightarrow> u64 \<Rightarrow> u64 \<Rightarrow> guest_memory \<Rightarrow> (bool \<times> guest_memory) option" where
  "Copy fault destination source len gm =
     (if \<not> CanAccessLocked source len kRead gm \<or> \<not> CanAccessLocked destination len kWrite gm then Some (False, gm)
      else if len = 0 \<or> destination = source then Some (True, gm)
      else map_option (\<lambda>(completed, gm', mutations). (completed, NotifyMutationReport mutations gm'))
        (if gm_host_mapped gm \<or> gm_shared gm = []
         then
           let gm' = memmove destination source len gm
           in map_option (\<lambda>mutations. (True, gm', mutations))
                (RecordActualWriteRangeLocked new_report destination len gm')
         else if destination > source \<and> destination - source < len
         then copy_backward fault destination source len gm new_report
         else copy_forward fault destination source 0 len gm new_report))"

section \<open>One chunk\<close>

lemma stores_cong: "(\<And>k. i \<le> k \<Longrightarrow> k < j \<Longrightarrow> val k = val' k) \<Longrightarrow> stores gm a val i j m = stores gm a val' i j m"
  unfolding stores_def by (rule fold_cong) auto

lemma copy_chunk_spec:
  assumes ok: "gm_ok gm" "mr_ok r" and s: "spans dst n gm" "spans src n gm"
  shows "\<exists>fin gm' r'. copy_chunk fault dst src n gm r = Some (\<not> fault \<or> n = 0, fin, gm', r') \<and>
    unat fin \<le> unat n \<and> (\<not> fault \<longrightarrow> fin = n) \<and> gm_ok gm' \<and> same_maps gm gm' \<and>
    mem gm' = stores gm dst (\<lambda>k. mem gm (loc gm (src + of_nat k))) 0 (unat fin) (mem gm) \<and>
    extends r r' (touched gm dst fin)"
proof -
  define bs where "bs = map (\<lambda>i. byte_at gm (src + of_nat i)) [0..<unat n]"
  have rd: "ReadBytes src n gm = Some bs" using read_loop_spec [OF ok(1) s(2)] by (simp add: ReadBytes_def bs_def)
  have l: "length bs = unat n" "of_nat (length bs) = n" by (simp_all add: bs_def)
  have "mutated (\<lambda>i. bs ! i) fault dst 0 n gm r (WriteBytes fault dst bs gm r)"
    unfolding WriteBytes_def l(2) using writing.mutate_loop_spec [OF ok s(1), of bs 0] l(1) by simp
  then obtain fin gm' r' where w: "WriteBytes fault dst bs gm r = Some (\<not> fault \<or> n = 0, fin, gm', r')"
    "unat fin \<le> unat n" "\<not> fault \<longrightarrow> fin = n" "gm_ok gm'" "same_maps gm gm'"
    "mem gm' = stores gm dst (\<lambda>i. bs ! i) 0 (unat fin) (mem gm)" "extends r r' (touched gm dst fin)"
    by (auto simp: mutated_def)
  have "mem gm' = stores gm dst (\<lambda>k. mem gm (loc gm (src + of_nat k))) 0 (unat fin) (mem gm)"
    unfolding w(6) by (rule stores_cong) (use w(2) in \<open>simp add: bs_def byte_at_def\<close>)
  with w rd show ?thesis by (auto simp: copy_chunk_def)
qed

text \<open>
  The bytes with an index in \<open>D\<close> have arrived, and nothing else has changed; and whatever has
  changed is covered by a report.
\<close>

definition moved ::
  "guest_memory \<Rightarrow> u64 \<Rightarrow> u64 \<Rightarrow> nat set \<Rightarrow> (u64 + shared_place \<Rightarrow> u8) \<Rightarrow> (u64 + shared_place \<Rightarrow> u8) \<Rightarrow> bool" where
  "moved gm dst src D m0 m \<longleftrightarrow>
     (\<forall>j \<in> D. m (loc gm (dst + of_nat j)) = m0 (loc gm (src + of_nat j))) \<and>
     (\<forall>l. (\<forall>j \<in> D. l \<noteq> loc gm (dst + of_nat j)) \<longrightarrow> m l = m0 l)"

definition change_covered :: "guest_memory \<Rightarrow> (u64 + shared_place \<Rightarrow> u8) \<Rightarrow> (u64 + shared_place \<Rightarrow> u8) \<Rightarrow> mutation_report \<Rightarrow> bool" where
  "change_covered gm m0 m r \<longleftrightarrow> (\<forall>x. m (loc gm x) \<noteq> m0 (loc gm x) \<longrightarrow> covered r x)"

lemma change_covered_step:
  assumes "change_covered gm m0 m r" "extends r r' (touched gm a fin)" "unat a + unat fin < 18446744073709551616"
  shows "change_covered gm m0 (stores gm a val 0 (unat fin) m) r'"
  unfolding change_covered_def
proof (intro allI impI)
  fix x assume ne: "stores gm a val 0 (unat fin) m (loc gm x) \<noteq> m0 (loc gm x)"
  show "covered r' x"
  proof (cases "stores gm a val 0 (unat fin) m (loc gm x) = m (loc gm x)")
    case True
    then show ?thesis using ne assms(1,2) by (auto simp: change_covered_def extends_def)
  next
    case False
    then obtain k where "k < unat fin" "loc gm (a + of_nat k) = loc gm x" using stores_other [of 0] by metis
    then have "touched gm a fin x" using in_range_add [OF assms(3)] unfolding touched_def by metis
    then show ?thesis using assms(2) by (simp add: extends_def)
  qed
qed

text \<open>No two addresses of the source and the destination show the same location.\<close>

definition alias_free :: "guest_memory \<Rightarrow> u64 \<Rightarrow> u64 \<Rightarrow> u64 \<Rightarrow> bool" where
  "alias_free gm dst src n \<longleftrightarrow> inj_on (loc gm) ({x. in_range dst n x} \<union> {x. in_range src n x})"

lemma moved_step:
  assumes mv: "moved gm dst src D m0 m" and D: "D \<subseteq> {..<unat n}" and c: "o1 + c \<le> unat n"
    and dj: "D \<inter> {o1..<o1 + c} = {}" and af: "alias_free gm dst src n"
    and room: "unat dst + unat n < 18446744073709551616" "unat src + unat n < 18446744073709551616"
    and sep: "\<And>i j. i \<in> {o1..<o1 + c} \<Longrightarrow> j \<in> D \<Longrightarrow> unat src + i \<noteq> unat dst + j"
  shows "moved gm dst src (D \<union> {o1..<o1 + c}) m0
    (stores gm (dst + of_nat o1) (\<lambda>k. m (loc gm (src + of_nat o1 + of_nat k))) 0 c m)"
proof -
  let ?L = "\<lambda>i. loc gm (dst + of_nat i)" and ?S = "\<lambda>i. loc gm (src + of_nat i)"
  have ud: "unat (dst + of_nat i) = unat dst + i" and us: "unat (src + of_nat i) = unat src + i" if "i < unat n" for i
    using unat_add_nat [OF room(1), of i] unat_add_nat [OF room(2), of i] that by simp_all
  have addr: "x = y" if "loc gm x = loc gm y" "in_range dst n x \<or> in_range src n x" "in_range dst n y \<or> in_range src n y" for x y
    using inj_onD [OF af [unfolded alias_free_def] that(1)] that(2,3) by blast
  have LL: "i = j" if "?L i = ?L j" "i < unat n" "j < unat n" for i j
  proof -
    have "dst + of_nat i = dst + of_nat j" by (rule addr [OF that(1)]) (use in_range_add [OF room(1)] that(2,3) in blast)+
    from arg_cong [OF this, of unat] show ?thesis unfolding ud [OF that(2)] ud [OF that(3)] by (rule add_left_imp_eq)
  qed
  have SL: "unat src + i = unat dst + j" if "?S i = ?L j" "i < unat n" "j < unat n" for i j
  proof -
    have "src + of_nat i = dst + of_nat j"
      by (rule addr [OF that(1)]) (use in_range_add [OF room(1)] in_range_add [OF room(2)] that(2,3) in blast)+
    from arg_cong [OF this, of unat] show ?thesis unfolding us [OF that(2)] ud [OF that(3)] .
  qed
  let ?m = "stores gm (dst + of_nat o1) (\<lambda>k. m (loc gm (src + of_nat o1 + of_nat k))) 0 c m"
  have shift: "loc gm (dst + of_nat o1 + of_nat k) = ?L (o1 + k)" "loc gm (src + of_nat o1 + of_nat k) = ?S (o1 + k)" for k
    by (simp_all add: add.assoc)
  have inj: "inj_on (\<lambda>k. loc gm (dst + of_nat o1 + of_nat k)) {0..<c}"
    unfolding shift
  proof (rule inj_onI)
    fix k k' assume "k \<in> {0..<c}" "k' \<in> {0..<c}" "?L (o1 + k) = ?L (o1 + k')"
    then have "o1 + k = o1 + k'" using c by (intro LL) simp_all
    then show "k = k'" by simp
  qed
  have new: "?m (?L (o1 + k)) = m (?S (o1 + k))" if "k < c" for k
    using stores_at [OF le0 that inj, of "\<lambda>k. m (loc gm (src + of_nat o1 + of_nat k))" m] unfolding shift .
  have other: "?m l = m l" if "\<And>k. k < c \<Longrightarrow> ?L (o1 + k) \<noteq> l" for l
    using that by (intro stores_other) (simp only: shift not_False_eq_True)
  have src_old: "m (?S i) = m0 (?S i)" if "i \<in> {o1..<o1 + c}" for i
  proof -
    have "?S i \<noteq> ?L j" if j: "j \<in> D" for j
    proof -
      have "i < unat n" "j < unat n" using \<open>i \<in> _\<close> j c D by auto
      from SL [OF _ this] sep [OF \<open>i \<in> _\<close> j] show ?thesis by blast
    qed
    then show ?thesis using mv unfolding moved_def by blast
  qed
  show ?thesis
    unfolding moved_def
  proof (intro conjI ballI allI impI)
    fix j assume "j \<in> D \<union> {o1..<o1 + c}"
    then show "?m (?L j) = m0 (?S j)"
    proof
      assume j: "j \<in> D"
      have "?L (o1 + k) \<noteq> ?L j" if "k < c" for k
      proof
        assume e: "?L (o1 + k) = ?L j"
        have "o1 + k < unat n" "j < unat n" using j that c D by auto
        from LL [OF e this] j that dj show False by auto
      qed
      then have "?m (?L j) = m (?L j)" by (rule other)
      with mv j show ?thesis by (simp only: moved_def)
    next
      assume j: "j \<in> {o1..<o1 + c}"
      then have "o1 + (j - o1) = j" "j - o1 < c" by auto
      then show ?thesis using new [of "j - o1"] src_old [OF j] by (simp only:)
    qed
  next
    fix l assume l: "\<forall>j \<in> D \<union> {o1..<o1 + c}. l \<noteq> ?L j"
    have "?m l = m l"
    proof (rule other)
      fix k assume "k < c"
      then have "o1 + k \<in> D \<union> {o1..<o1 + c}" by simp
      from bspec [OF l this] show "?L (o1 + k) \<noteq> l" by (rule not_sym)
    qed
    moreover have "m l = m0 l" using l mv unfolding moved_def by blast
    ultimately show "?m l = m0 l" by (rule trans)
  qed
qed

section \<open>The loops\<close>

text \<open>
  What a copy of \<open>n\<close> bytes promises, when the bytes outside \<open>D\<close> are still to be done: it ends, every
  change is reported, and, if no fault is injected and nothing is aliased, all bytes have moved.
\<close>

definition copies ::
  "guest_memory \<Rightarrow> bool \<Rightarrow> u64 \<Rightarrow> u64 \<Rightarrow> u64 \<Rightarrow> nat set \<Rightarrow> guest_memory \<Rightarrow>
   (bool \<times> guest_memory \<times> mutation_report) option \<Rightarrow> bool" where
  "copies gm0 fault dst src n D gm result \<longleftrightarrow>
     (\<exists>ok gm' r'. result = Some (ok, gm', r') \<and> (\<not> fault \<longrightarrow> ok) \<and> gm_ok gm' \<and> same_maps gm0 gm' \<and> mr_ok r' \<and>
        change_covered gm0 (mem gm0) (mem gm') r' \<and>
        (\<not> fault \<and> alias_free gm0 dst src n \<and> moved gm0 dst src D (mem gm0) (mem gm) \<longrightarrow>
           moved gm0 dst src {..<unat n} (mem gm0) (mem gm')))"

text \<open>One iteration, whichever part \<open>off .. off + chunk\<close> it takes.\<close>

lemma copy_step:
  assumes ok: "gm_ok gm" "same_maps gm0 gm" "mr_ok r" and s: "spans dst n gm0" "spans src n gm0"
    and c: "unat off + unat chunk \<le> unat n" "chunk \<noteq> 0" and cov: "change_covered gm0 (mem gm0) (mem gm) r"
    and D: "D \<subseteq> {..<unat n}" "D \<inter> {unat off..<unat off + unat chunk} = {}"
    and sep: "\<And>i j. i \<in> {unat off..<unat off + unat chunk} \<Longrightarrow> j \<in> D \<Longrightarrow> unat src + i \<noteq> unat dst + j"
  shows "\<exists>fin gm' r'. copy_chunk fault (dst + off) (src + off) chunk gm r = Some (\<not> fault, fin, gm', r') \<and>
    (\<not> fault \<longrightarrow> fin = chunk) \<and> gm_ok gm' \<and> same_maps gm0 gm' \<and> mr_ok r' \<and>
    change_covered gm0 (mem gm0) (mem gm') r' \<and>
    (\<not> fault \<and> alias_free gm0 dst src n \<and> moved gm0 dst src D (mem gm0) (mem gm) \<longrightarrow>
       moved gm0 dst src (D \<union> {unat off..<unat off + unat chunk}) (mem gm0) (mem gm'))"
proof -
  note sm = same_mapsD [OF ok(2)]
  have s': "spans dst n gm" "spans src n gm" using s by (simp_all add: sm)
  have sp: "spans (dst + off) chunk gm" "spans (src + off) chunk gm"
    using spans_part(1) [OF ok(1) s'(1) c(1)] spans_part(1) [OF ok(1) s'(2) c(1)] by simp_all
  obtain fin gm' r' where cc: "copy_chunk fault (dst + off) (src + off) chunk gm r = Some (\<not> fault \<or> chunk = 0, fin, gm', r')"
    and f: "unat fin \<le> unat chunk" "\<not> fault \<longrightarrow> fin = chunk" and g: "gm_ok gm'" "same_maps gm gm'"
    and m: "mem gm' = stores gm0 (dst + off) (\<lambda>k. mem gm (loc gm0 (src + off + of_nat k))) 0 (unat fin) (mem gm)"
    and e: "extends r r' (touched gm0 (dst + off) fin)"
    using copy_chunk_spec [OF ok(1,3) sp, of fault] unfolding sm by blast
  have room: "unat dst + unat n < 18446744073709551616" "unat src + unat n < 18446744073709551616"
    using spans_less [OF ok(1)] s' by blast+
  have "unat (dst + off) + unat fin < 18446744073709551616" using spans_less [OF ok(1) sp(1)] f(1) by simp
  from change_covered_step [OF cov e this] have cc': "change_covered gm0 (mem gm0) (mem gm') r'" by (simp add: m)
  have mv: "moved gm0 dst src (D \<union> {unat off..<unat off + unat chunk}) (mem gm0) (mem gm')"
    if "\<not> fault" "alias_free gm0 dst src n" "moved gm0 dst src D (mem gm0) (mem gm)"
    using moved_step [OF that(3) D(1) c(1) D(2) that(2) room sep] m f(2) that(1) by simp
  have "mr_ok r'" using e by (simp add: extends_def)
  with cc c(2) f(2) g(1) same_maps_trans [OF ok(2) g(2)] cc' mv show ?thesis by auto
qed

lemma copy_backward_spec:
  assumes "gm_ok gm" "same_maps gm0 gm" "mr_ok r" "spans dst n gm0" "spans src n gm0"
    "unat remaining \<le> unat n" "change_covered gm0 (mem gm0) (mem gm) r" "unat src < unat dst"
  shows "copies gm0 fault dst src n {unat remaining..<unat n} gm (copy_backward fault dst src remaining gm r)"
  using assms
proof (induction "unat remaining" arbitrary: remaining gm r rule: less_induct)
  case less
  note prem = less.prems
  show ?case
  proof (cases "remaining = 0")
    case True
    then show ?thesis using prem by (auto simp: copy_backward.simps copies_def atLeast0LessThan)
  next
    case False
    define chunk where "chunk = min 4096 remaining"
    define off where "off = remaining - chunk"
    have ch: "unat chunk \<le> unat remaining" "chunk \<noteq> 0" using False by (auto simp: chunk_def min_def word_le_nat_alt)
    have o: "unat off = unat remaining - unat chunk" using ch by (simp add: off_def unat_sub_exact)
    have in_n: "unat off + unat chunk = unat remaining" using o ch by simp
    have D: "{unat remaining..<unat n} \<subseteq> {..<unat n}" "{unat remaining..<unat n} \<inter> {unat off..<unat off + unat chunk} = {}"
      and le: "unat off + unat chunk \<le> unat n"
      and sep: "\<And>i j. i \<in> {unat off..<unat off + unat chunk} \<Longrightarrow> j \<in> {unat remaining..<unat n} \<Longrightarrow> unat src + i \<noteq> unat dst + j"
      using in_n prem(6,8) by auto
    obtain fin gm' r' where cc: "copy_chunk fault (dst + off) (src + off) chunk gm r = Some (\<not> fault, fin, gm', r')"
      and f: "\<not> fault \<longrightarrow> fin = chunk" and g: "gm_ok gm'" "same_maps gm0 gm'" "mr_ok r'"
        "change_covered gm0 (mem gm0) (mem gm') r'"
      and mv: "\<not> fault \<and> alias_free gm0 dst src n \<and> moved gm0 dst src {unat remaining..<unat n} (mem gm0) (mem gm) \<longrightarrow>
        moved gm0 dst src ({unat remaining..<unat n} \<union> {unat off..<unat off + unat chunk}) (mem gm0) (mem gm')"
      using copy_step [OF prem(1-5) le ch(2) prem(7) D sep, of fault] by blast
    have eq: "{unat remaining..<unat n} \<union> {unat off..<unat off + unat chunk} = {unat off..<unat n}"
      using in_n prem(6) by auto
    have "0 < unat chunk" using ch(2) by (simp add: unat_gt_0)
    then have lt: "unat off < unat remaining" using o ch(1) by linarith
    have ih: "copies gm0 fault dst src n {unat off..<unat n} gm' (copy_backward fault dst src off gm' r')"
      using less.hyps [OF lt g(1-3) prem(4,5) _ g(4) prem(8)] lt prem(6) by simp
    have step: "copy_backward fault dst src remaining gm r =
        (if fault then Some (False, gm', r') else copy_backward fault dst src off gm' r')"
      using False cc f by (subst copy_backward.simps) (simp add: chunk_def [symmetric] off_def [symmetric])
    show ?thesis
    proof (cases fault)
      case True
      then show ?thesis using step g by (auto simp: copies_def)
    next
      case nf: False
      from ih show ?thesis using step nf mv unfolding copies_def eq by simp blast
    qed
  qed
qed

lemma copy_forward_spec:
  assumes "gm_ok gm" "same_maps gm0 gm" "mr_ok r" "spans dst n gm0" "spans src n gm0"
    "unat copied \<le> unat n" "change_covered gm0 (mem gm0) (mem gm) r" "unat dst \<le> unat src \<or> unat src + unat n \<le> unat dst"
  shows "copies gm0 fault dst src n {..<unat copied} gm (copy_forward fault dst src copied n gm r)"
  using assms
proof (induction "unat n - unat copied" arbitrary: copied gm r rule: less_induct)
  case less
  note prem = less.prems
  show ?case
  proof (cases "copied < n")
    case False
    then have "copied = n" using prem(6) by (simp add: word_less_nat_alt unat_eq_iff)
    then show ?thesis using prem by (auto simp: copy_forward.simps copies_def)
  next
    case True
    then have lt: "unat copied < unat n" by (simp add: word_less_nat_alt)
    define chunk where "chunk = min 4096 (n - copied)"
    have "unat (n - copied) = unat n - unat copied" using lt by (simp add: unat_sub_exact)
    then have ch: "unat copied + unat chunk \<le> unat n" "chunk \<noteq> 0"
      using lt by (auto simp: chunk_def min_def word_le_nat_alt)
    have u: "unat (copied + chunk) = unat copied + unat chunk"
      using ch(1) unat_u64_less [of n] by (intro unat_add_exact) linarith
    have D: "{..<unat copied} \<subseteq> {..<unat n}" "{..<unat copied} \<inter> {unat copied..<unat copied + unat chunk} = {}"
      and sep: "\<And>i j. i \<in> {unat copied..<unat copied + unat chunk} \<Longrightarrow> j \<in> {..<unat copied} \<Longrightarrow> unat src + i \<noteq> unat dst + j"
      using lt ch prem(8) by auto
    obtain fin gm' r' where cc: "copy_chunk fault (dst + copied) (src + copied) chunk gm r = Some (\<not> fault, fin, gm', r')"
      and f: "\<not> fault \<longrightarrow> fin = chunk" and g: "gm_ok gm'" "same_maps gm0 gm'" "mr_ok r'"
        "change_covered gm0 (mem gm0) (mem gm') r'"
      and mv: "\<not> fault \<and> alias_free gm0 dst src n \<and> moved gm0 dst src {..<unat copied} (mem gm0) (mem gm) \<longrightarrow>
        moved gm0 dst src ({..<unat copied} \<union> {unat copied..<unat copied + unat chunk}) (mem gm0) (mem gm')"
      using copy_step [OF prem(1-5) ch prem(7) D sep, of fault] by blast
    have eq: "{..<unat copied} \<union> {unat copied..<unat copied + unat chunk} = {..<unat copied + unat chunk}" by auto
    have "0 < unat chunk" using ch(2) by (simp add: unat_gt_0)
    then have "unat n - unat (copied + chunk) < unat n - unat copied" using u lt ch(1) by linarith
    from less.hyps [OF this g(1-3) prem(4,5) _ g(4) prem(8)] u ch
    have ih: "copies gm0 fault dst src n {..<unat copied + unat chunk} gm' (copy_forward fault dst src (copied + chunk) n gm' r')"
      by simp
    have step: "copy_forward fault dst src copied n gm r =
        (if fault then Some (False, gm', r') else copy_forward fault dst src (copied + chunk) n gm' r')"
      using True cc f by (subst copy_forward.simps) (simp add: chunk_def [symmetric])
    show ?thesis
    proof (cases fault)
      case True
      then show ?thesis using step g by (auto simp: copies_def)
    next
      case nf: False
      from ih show ?thesis using step nf mv unfolding copies_def eq by simp blast
    qed
  qed
qed

section \<open>Copying\<close>

lemma memmove_spec:
  assumes ok: "gm_ok gm" and sh: "gm_shared gm = []" and s: "spans dst n gm" "spans src n gm" and n: "n \<noteq> 0"
  defines "gm' \<equiv> memmove dst src n gm"
  shows "gm_ok gm'" "same_maps gm gm'" "moved gm dst src {..<unat n} (mem gm) (mem gm')"
    "mem gm' (loc gm x) \<noteq> mem gm (loc gm x) \<Longrightarrow> touched gm dst n x"
proof -
  have loc: "loc gm y = Inl y" for y by (simp add: loc_def place_at_def sh seg_at_def)
  define bs where "bs = map (\<lambda>i. raw_byte gm (src + of_nat i)) [0..<unat n]"
  have gm': "gm' = gm\<lparr>gm_bytes := overwrite (gm_bytes gm) (OffsetOf dst gm) bs\<rparr>"
    by (simp add: gm'_def memmove_def raw_slice [OF ok s(2)] bs_def)
  have ins: "inside dst n gm" by (rule spans_inside [OF s(1) n])
  have bl: "length bs = unat n" by (simp add: bs_def)
  note R = raw_byte_overwrite [OF ok ins bl]
  note room = spans_less [OF ok s(1)]
  show "gm_ok gm'" unfolding gm' by (rule gm_ok_bytes [OF ok R(2)]) (use ins in \<open>auto simp: inside_def\<close>)
  show "same_maps gm gm'" by (simp add: gm' same_maps_def)
  have m: "mem gm' (Inl y) = (if in_range dst n y then bs ! (unat y - unat dst) else mem gm (Inl y))" for y
  proof -
    have "inside y 1 gm' = inside y 1 gm" by (simp add: gm' inside_def gm_limit_def)
    then show ?thesis using R(1) [of y] in_range_inside [OF ok s(1)] by (auto simp: mem_def gm')
  qed
  have mr: "mem gm' (Inr q) = mem gm (Inr q)" for q by (simp add: mem_def gm')
  show "moved gm dst src {..<unat n} (mem gm) (mem gm')"
    unfolding moved_def loc
  proof (intro conjI ballI allI impI)
    fix j assume "j \<in> {..<unat n}"
    then have j: "j < unat n" by simp
    have "inside (src + of_nat j) 1 gm"
      by (rule in_range_inside [OF ok s(2) in_range_add [OF spans_less [OF ok s(2)] j]])
    then show "mem gm' (Inl (dst + of_nat j)) = mem gm (Inl (src + of_nat j))"
      using m [of "dst + of_nat j"] in_range_add [OF room j] unat_add_nat [OF room less_imp_le [OF j]] j
      by (simp add: bs_def mem_def)
  next
    fix l :: "u64 + shared_place" assume l: "\<forall>j \<in> {..<unat n}. l \<noteq> Inl (dst + of_nat j)"
    then show "mem gm' l = mem gm l" using in_range_nat [OF room] by (cases l) (auto simp: m mr)
  qed
  show "touched gm dst n x" if "mem gm' (loc gm x) \<noteq> mem gm (loc gm x)"
    using that by (auto simp: loc m touched_def split: if_splits)
qed

definition copied :: "guest_memory \<Rightarrow> bool \<Rightarrow> u64 \<Rightarrow> u64 \<Rightarrow> u64 \<Rightarrow> (bool \<times> guest_memory) option \<Rightarrow> bool" where
  "copied gm fault dst src n result \<longleftrightarrow>
     (\<exists>ok gm'. result = Some (ok, gm') \<and> (\<not> fault \<longrightarrow> ok) \<and> gm_ok gm' \<and> loc gm' = loc gm \<and>
        prot_at gm' = prot_at gm \<and> id_at gm' = id_at gm \<and>
        (\<forall>x. inside x 1 gm \<and> byte_at gm' x \<noteq> byte_at gm x \<longrightarrow> reported gm gm' x) \<and>
        (\<not> fault \<and> alias_free gm dst src n \<longrightarrow> moved gm dst src {..<unat n} (mem gm) (mem gm')))"

lemma copies_finish:
  assumes ok: "gm_ok gm" and c: "copies gm fault dst src n D gm result"
    and D: "moved gm dst src D (mem gm) (mem gm)"
  shows "copied gm fault dst src n
    (map_option (\<lambda>(completed, gm', mutations). (completed, NotifyMutationReport mutations gm')) result)"
proof -
  obtain b gm1 r1 where res: "result = Some (b, gm1, r1)" "\<not> fault \<longrightarrow> b" and ok1: "gm_ok gm1" "same_maps gm gm1" "mr_ok r1"
    and cov: "change_covered gm (mem gm) (mem gm1) r1"
    and mv: "\<not> fault \<and> alias_free gm dst src n \<longrightarrow> moved gm dst src {..<unat n} (mem gm) (mem gm1)"
    using c D by (auto simp: copies_def)
  note sm = same_mapsD [OF ok1(2)]
  have sd: "same_data gm1 (NotifyMutationReport r1 gm1)" by (rule same_data_report)
  have "reported gm (NotifyMutationReport r1 gm1) x" if "inside x 1 gm" "mem gm1 (loc gm x) \<noteq> mem gm (loc gm x)" for x
  proof -
    have "covered r1 x" using cov that(2) by (simp add: change_covered_def)
    from NotifyMutationReport_reports [OF ok1(3) this, of gm1] that(1) show ?thesis by (simp add: sm reported_def)
  qed
  moreover have "prot_at gm1 = prot_at gm" "id_at gm1 = id_at gm" by (simp_all add: prot_at_def id_at_def sm)
  ultimately show ?thesis
    using res ok1(1) mv sd sm(8) by (auto simp: copied_def same_data_def byte_at_def)
qed

lemma Copy_spec:
  assumes ok: "gm_ok gm" and acc: "CanAccess src n kRead gm" "CanAccess dst n kWrite gm"
  shows "copied gm fault dst src n (Copy fault dst src n gm)"
proof -
  have s: "spans dst n gm" "spans src n gm"
    using acc inside_spans by (simp_all add: CanAccess_def CanAccessLocked_iff [OF ok])
  have a: "CanAccessLocked src n kRead gm" "CanAccessLocked dst n kWrite gm" using acc by (simp_all add: CanAccess_def)
  have start: "moved gm dst src {} (mem gm) (mem gm)" "change_covered gm (mem gm) (mem gm) new_report"
    by (simp_all add: moved_def change_covered_def)
  consider (same) "n = 0 \<or> dst = src" | (plain) "n \<noteq> 0" "dst \<noteq> src" "gm_host_mapped gm \<or> gm_shared gm = []"
    | (backwards) "n \<noteq> 0" "dst \<noteq> src" "\<not> (gm_host_mapped gm \<or> gm_shared gm = [])" "dst > src \<and> dst - src < n"
    | (forwards) "n \<noteq> 0" "dst \<noteq> src" "\<not> (gm_host_mapped gm \<or> gm_shared gm = [])" "\<not> (dst > src \<and> dst - src < n)"
    by blast
  then show ?thesis
  proof cases
    case same
    have "moved gm dst src {..<unat n} (mem gm) (mem gm)" using same by (auto simp: moved_def)
    moreover have "Copy fault dst src n gm = Some (True, gm)" using same a by (simp add: Copy_def)
    ultimately show ?thesis using ok by (auto simp: copied_def)
  next
    case plain
    then have sh: "gm_shared gm = []" using gm_okD(13) [OF ok] by blast
    note M = memmove_spec [OF ok sh s plain(1)]
    from record_loop_spec [OF M(1) new_report_ok(1) spans_less [OF ok s(1)]] obtain r where
      r: "RecordActualWriteRangeLocked new_report dst n (memmove dst src n gm) = Some r" "extends new_report r (touched gm dst n)"
      by (auto simp: RecordActualWriteRangeLocked_def same_mapsD [OF M(2)])
    have "mr_ok r" "change_covered gm (mem gm) (mem (memmove dst src n gm)) r"
      using M(4) r(2) unfolding change_covered_def extends_def by blast+
    then have "copies gm fault dst src n {} gm (Some (True, memmove dst src n gm, r))"
      using M(1-3) by (auto simp: copies_def)
    from copies_finish [OF ok this start(1)] show ?thesis using plain a r(1) by (simp add: Copy_def)
  next
    case backwards
    have "unat src < unat dst" using backwards(4) by (simp add: word_less_nat_alt)
    from copy_backward_spec [OF ok same_maps_refl new_report_ok(1) s order.refl start(2) this]
    have "copies gm fault dst src n {} gm (copy_backward fault dst src n gm new_report)" by simp
    from copies_finish [OF ok this start(1)] show ?thesis using backwards a by (simp add: Copy_def)
  next
    case forwards
    have "unat dst \<le> unat src \<or> unat src + unat n \<le> unat dst"
    proof (rule ccontr)
      assume "\<not> ?thesis"
      then have "unat src < unat dst" "unat dst - unat src < unat n" by linarith+
      with forwards(4) show False using unat_sub_exact [of src dst] by (simp add: word_less_nat_alt)
    qed
    from copy_forward_spec [OF ok same_maps_refl new_report_ok(1) s _ start(2) this, of 0]
    have "copies gm fault dst src n {} gm (copy_forward fault dst src 0 n gm new_report)" by simp
    from copies_finish [OF ok this start(1)] show ?thesis using forwards a by (auto simp: Copy_def)
  qed
qed

section \<open>Properties\<close>

lemma access_dec: "CanAccess a n p gm = CanAccessLocked a n p gm"
  by (simp add: CanAccess_def)



end
