(* ===== verification/Guest_Initialize.thy ===== *)
theory Guest_Initialize
  imports Guest_Access
begin

text \<open>
  \<open>Initialize\<close> and \<open>InitializeFill\<close>, which write mapped memory whatever its protection. On a
  host mapping they open the pages of one region after the other and restore the protection
  after each; the host may refuse either call.
\<close>

section \<open>Operations\<close>

text \<open>
  The loop over the regions of a host mapping, for both operations; \<open>put\<close> stores a piece into the
  memory's own storage and \<open>call\<close> counts the host calls. The result: completed, bytes done and memory.
\<close>

function host_initialize_loop ::
  "piece_writer \<Rightarrow> (nat \<Rightarrow> bool) \<Rightarrow> nat \<Rightarrow> u64 \<Rightarrow> u64 \<Rightarrow> u64 \<Rightarrow> guest_memory \<Rightarrow> (bool \<times> u64 \<times> guest_memory) option" where
  "host_initialize_loop put host call address copied len gm =
     (if \<not> copied < len then Some (True, copied, gm)
      else
        let current = address + copied;
            region_index = FindContainingRegion current gm
        in if region_index = length (gm_regions gm) then Some (False, copied, gm)
           else
             let region = gm_regions gm ! region_index;
                 chunk = min (len - copied) (seg_end region - current)
             in if chunk = 0 then None
                else if \<not> host call then Some (False, copied, gm)
                else
                  let gm' = snd (put current copied chunk None gm)
                  in if \<not> host (Suc call) then Some (False, copied + chunk, gm')
                     else host_initialize_loop put host (call + 2) address (copied + chunk) len gm')"
  by pat_completeness auto
termination
proof (relation "measure (\<lambda>(p, h, k, a, c, n, gm). unat (n - c))", simp, clarsimp)
  fix copied len end_current :: u64
  define m where "m = min (len - copied) end_current"
  assume "min (len - copied) end_current \<noteq> 0"
  then have "m \<noteq> 0" by (simp only: m_def not_False_eq_True)
  then have "0 < unat m" by (simp add: unat_gt_0)
  moreover have "unat m \<le> unat (len - copied)" by (simp add: m_def)
  moreover have "len - (copied + m) = (len - copied) - m" by simp
  ultimately show "unat (len - (copied + min (len - copied) end_current)) < unat (len - copied)"
    unfolding m_def [symmetric] by (simp only:) (simp add: unat_sub_exact)
qed

declare host_initialize_loop.simps [simp del]

definition host_initialize ::
  "piece_writer \<Rightarrow> (nat \<Rightarrow> bool) \<Rightarrow> u64 \<Rightarrow> u64 \<Rightarrow> guest_memory \<Rightarrow> (bool \<times> guest_memory) option" where
  "host_initialize put host address len gm =
     (case host_initialize_loop put host 0 address 0 len gm of
        None \<Rightarrow> None
      | Some (completed, copied, gm') \<Rightarrow>
          map_option (\<lambda>mutations. (completed, NotifyMutationReport mutations gm'))
            (RecordActualWriteRangeLocked new_report address copied gm'))"

definition Initialize ::
  "bool \<Rightarrow> (nat \<Rightarrow> bool) \<Rightarrow> u64 \<Rightarrow> u8 list \<Rightarrow> guest_memory \<Rightarrow> (bool \<times> guest_memory) option" where
  "Initialize fault host address source gm =
     (if \<not> IsMappedLocked address (of_nat (length source)) gm then Some (False, gm)
      else if source = [] \<or> \<not> gm_host_mapped gm
      then map_option (\<lambda>(completed, _, gm', mutations). (completed, NotifyMutationReport mutations gm'))
             (WriteBytes fault address source gm new_report)
      else host_initialize (write_piece source) host address (of_nat (length source)) gm)"

definition InitializeFill ::
  "bool \<Rightarrow> (nat \<Rightarrow> bool) \<Rightarrow> u64 \<Rightarrow> u64 \<Rightarrow> u8 \<Rightarrow> guest_memory \<Rightarrow> (bool \<times> guest_memory) option" where
  "InitializeFill fault host address len v gm =
     (if \<not> IsMappedLocked address len gm then Some (False, gm)
      else if len = 0 \<or> \<not> gm_host_mapped gm
      then map_option (\<lambda>(completed, _, gm', mutations). (completed, NotifyMutationReport mutations gm'))
             (FillBytes fault address len v gm new_report)
      else host_initialize (fill_piece v) host address len gm)"

text \<open>
  The constructor of a memory over a host mapping, and \<open>CreateHostMapped\<close>. The page size and the
  address of the mapping, \<open>None\<close> if there is none, come from the host; its pages are zero.
\<close>

definition new_host_memory :: "u64 \<Rightarrow> u64 \<Rightarrow> u64 \<Rightarrow> (nat \<Rightarrow> shared_backing) \<Rightarrow> guest_memory" where
  "new_host_memory host_mapping storage_size mapping_granularity heap =
     \<lparr>gm_base_address = host_mapping, gm_storage_size = storage_size, gm_mapping_granularity = mapping_granularity,
      gm_host_mapped = True, gm_bytes = replicate (unat storage_size) 0, gm_regions = [],
      gm_identities = [], gm_shared = [], gm_heap = heap,
      gm_write_generation = Generation 0 0, gm_next_mapping_generation = Generation 0 0,
      gm_write_generation_exhausted = False, gm_mapping_generation_exhausted = False,
      gm_write_observer = None, gm_live = (\<lambda>_. False), gm_events = []\<rparr>"

definition CreateHostMapped ::
  "u64 \<Rightarrow> u64 option \<Rightarrow> (nat \<Rightarrow> bool) \<Rightarrow> u64 \<Rightarrow> u8 \<Rightarrow> (nat \<Rightarrow> shared_backing) \<Rightarrow> guest_memory option" where
  "CreateHostMapped page_size mapping host storage_size initial_protection heap =
     (if storage_size = 0 \<or> \<not> IsValidProtection initial_protection \<or> page_size = 0 \<or>
         page_size AND (page_size - 1) \<noteq> 0 \<or> storage_size mod page_size \<noteq> 0 then None
      else case mapping of
          None \<Rightarrow> None
        | Some address \<Rightarrow>
            if storage_size > u64_max - address \<or> \<not> host 0 then None
            else
              let result = new_host_memory address storage_size page_size heap
              in if initial_protection \<noteq> kNone
                 then case Map (\<lambda>call. host (Suc call)) address storage_size initial_protection result of
                     (False, _) \<Rightarrow> None
                   | (True, gm) \<Rightarrow> Some gm
                 else Some result)"

definition coherence_snapshot :: "guest_memory \<Rightarrow> generation \<times> bool" where
  "coherence_snapshot gm = (gm_write_generation gm, gm_write_generation_exhausted gm)"

section \<open>Behaviour\<close>

lemma CreateHostMapped_ok:
  assumes "CreateHostMapped page_size mapping host n p heap = Some gm"
  shows "gm_ok gm" "gm_host_mapped gm \<Longrightarrow> gm_shared gm = []"
proof -
  obtain a where a: "\<not> n > u64_max - a" "is_power_of_two page_size"
    and c: "gm = new_host_memory a n page_size heap \<or>
      Map (\<lambda>call. host (Suc call)) a n p (new_host_memory a n page_size heap) = (True, gm)"
    using assms by (auto simp: CreateHostMapped_def Let_def is_power_of_two_def split: if_splits option.splits prod.splits bool.splits)
  have "unat n + unat a < 18446744073709551616" using a(1) u64_overflow_test [of a n] by simp
  then have ok: "gm_ok (new_host_memory a n page_size heap)" using a(2)
    by (simp add: new_host_memory_def gm_ok_def table_ok_def gm_limit_def segs_within_def seg_at_def)
  from c show "gm_ok gm"
  proof
    assume "Map (\<lambda>call. host (Suc call)) a n p (new_host_memory a n page_size heap) = (True, gm)"
    from MapLocked_frame [OF ok this [unfolded Map_def]] show ?thesis by (simp add: map_frame_def)
  qed (simp add: ok)
  then show "gm_host_mapped gm \<Longrightarrow> gm_shared gm = []" by (rule gm_okD(13))
qed

lemma coherence_snapshot_advances:
  assumes "n \<noteq> 0" "\<not> snd (coherence_snapshot gm)"
  shows "fst (coherence_snapshot gm) < fst (coherence_snapshot (NotifyWrite a n gm)) \<or>
    snd (coherence_snapshot (NotifyWrite a n gm))"
  using assms Advance_less
  by (auto simp: coherence_snapshot_def NotifyWrite_def Let_def split: prod.splits bool.splits)


text \<open>The bytes up to \<open>fin\<close> are stored; the whole range if the host grants every call.\<close>

definition initialized ::
  "(nat \<Rightarrow> u8) \<Rightarrow> bool \<Rightarrow> u64 \<Rightarrow> u64 \<Rightarrow> u64 \<Rightarrow> guest_memory \<Rightarrow> (bool \<times> u64 \<times> guest_memory) option \<Rightarrow> bool" where
  "initialized val granting a copied len gm result \<longleftrightarrow>
     (\<exists>ok fin gm'. result = Some (ok, fin, gm') \<and> (granting \<longrightarrow> ok) \<and> (ok \<longrightarrow> fin = len) \<and>
        unat copied \<le> unat fin \<and> unat fin \<le> unat len \<and> gm_ok gm' \<and> same_maps gm gm' \<and>
        mem gm' = stores gm a val (unat copied) (unat fin) (mem gm))"

lemma region_at:
  assumes ok: "gm_ok gm" and m: "val_at (gm_regions gm) c \<noteq> None"
  defines "i \<equiv> FindContainingRegion c gm"
  shows "i < length (gm_regions gm)" "unat (seg_end (gm_regions gm ! i) - c) = seg_hi (gm_regions gm ! i) - unat c"
    "unat c < seg_hi (gm_regions gm ! i)"
proof -
  note rok = gm_okD(3) [OF ok]
  show i: "i < length (gm_regions gm)"
    using seg_index_at(1) [OF rok, where a = c and adv = "\<lambda>_ v. v"] m by (simp add: i_def FindContainingRegion_def)
  then have s: "in_seg c (gm_regions gm ! i)"
    using seg_index_spec [OF rok, of c] by (auto simp: i_def FindContainingRegion_def)
  then show "unat c < seg_hi (gm_regions gm ! i)" by (simp add: in_seg_def)
  have "seg_ok (gm_regions gm ! i)" using segs_okD [OF rok] i by simp
  with s show "unat (seg_end (gm_regions gm ! i) - c) = seg_hi (gm_regions gm ! i) - unat c"
    by (subst unat_sub_exact) (simp_all add: seg_end_unat in_seg_def)
qed

context piece_writing
begin

lemma host_loop_spec:
  assumes "gm_ok gm" "gm_shared gm = []" "spans a len gm" "unat len \<le> total" "unat copied \<le> unat len"
    "\<forall>x. in_range a len x \<longrightarrow> val_at (gm_regions gm) x \<noteq> None"
  shows "initialized val (\<forall>k. host k) a copied len gm (host_initialize_loop put host call a copied len gm)"
  using assms
proof (induction "unat len - unat copied" arbitrary: copied call gm rule: less_induct)
  case less
  note prem = less.prems
  show ?case
  proof (cases "copied < len")
    case False
    then have "copied = len" using prem(5) by (simp add: word_less_nat_alt unat_eq_iff)
    then show ?thesis using prem by (auto simp: host_initialize_loop.simps initialized_def same_maps_refl stores_def)
  next
    case True
    then have lt: "unat copied < unat len" by (simp add: word_less_nat_alt)
    define region where "region = gm_regions gm ! FindContainingRegion (a + copied) gm"
    define chunk where "chunk = min (len - copied) (seg_end region - (a + copied))"
    have ua: "unat (a + copied) = unat a + unat copied"
      using spans_part(2) [OF prem(1,3), of copied 0] prem(5) by simp
    then have "in_range a len (a + copied)" using lt by (simp add: in_range_def)
    with prem(6) have "val_at (gm_regions gm) (a + copied) \<noteq> None" by blast
    note R = region_at [OF prem(1) this, folded region_def]
    have "unat (len - copied) = unat len - unat copied" using lt by (simp add: unat_sub_exact)
    then have uc: "unat chunk = min (unat len - unat copied) (seg_hi region - unat (a + copied))"
      unfolding chunk_def using R(2) by simp
    have pos: "0 < unat chunk" and le: "unat copied + unat chunk \<le> unat len" using uc lt R(3) by auto
    then have c0: "chunk \<noteq> 0" by auto
    note sp = spans_part [OF prem(1,3) le]
    have "loc gm x = Inl x" for x by (simp add: loc_def place_at_def seg_at_def prem(2))
    with put_piece_own [OF prem(1) sp c0] le prem(4) obtain gm1 where
      put: "put (a + copied) copied chunk None gm = (True, gm1)" and g: "gm_ok gm1" "same_maps gm gm1"
        "mem gm1 = stores gm a val (unat copied) (unat copied + unat chunk) (mem gm)" by auto
    note sm = same_mapsD [OF g(2)]
    have u: "unat (copied + chunk) = unat copied + unat chunk"
      using le unat_u64_less [of len] by (intro unat_add_exact) linarith
    have "unat len - unat (copied + chunk) < unat len - unat copied" using u pos lt by simp
    from less.hyps [OF this, of gm1 "call + 2"] g(1) prem(2-6) le u
    have ih: "initialized val (\<forall>k. host k) a (copied + chunk) len gm1
        (host_initialize_loop put host (call + 2) a (copied + chunk) len gm1)" by (simp add: sm)
    have step: "host_initialize_loop put host call a copied len gm =
        (if \<not> host call then Some (False, copied, gm)
         else if \<not> host (Suc call) then Some (False, copied + chunk, gm1)
         else host_initialize_loop put host (call + 2) a (copied + chunk) len gm1)"
      using True R(1) c0 put
      by (subst host_initialize_loop.simps) (simp add: Let_def region_def [symmetric] chunk_def [symmetric])
    consider "\<not> host call" | "host call" "\<not> host (Suc call)" | "host call" "host (Suc call)" by blast
    then show ?thesis
    proof cases
      case 1
      then show ?thesis unfolding step using prem(1,5) by (auto simp: initialized_def same_maps_refl stores_def)
    next
      case 2
      then show ?thesis unfolding step using g u le by (auto simp: initialized_def)
    next
      case 3
      from ih obtain ok fin gm2 where i: "host_initialize_loop put host (call + 2) a (copied + chunk) len gm1 = Some (ok, fin, gm2)"
        "(\<forall>k. host k) \<longrightarrow> ok" "ok \<longrightarrow> fin = len" "unat copied + unat chunk \<le> unat fin" "unat fin \<le> unat len" "gm_ok gm2"
        "same_maps gm1 gm2" "mem gm2 = stores gm a val (unat copied + unat chunk) (unat fin) (mem gm1)"
        by (auto simp: initialized_def sm u)
      have "mem gm2 = stores gm a val (unat copied) (unat fin) (mem gm)"
        unfolding i(8) g(3) using i(4) by (intro stores_split) simp_all
      then show ?thesis
        unfolding step using 3 i same_maps_trans [OF g(2) i(7)] by (auto simp: initialized_def)
    qed
  qed
qed

end

lemma host_initialize_finish:
  assumes i: "initialized val granting a 0 len gm (host_initialize_loop put host 0 a 0 len gm)"
    and ok: "gm_ok gm" and s: "spans a len gm"
  shows "\<exists>fin r gm'. host_initialize put host a len gm = Some (r, gm') \<and> (granting \<longrightarrow> r) \<and> (r \<longrightarrow> fin = len) \<and>
    stored val a fin gm gm'"
proof -
  obtain r fin gm1 where l: "host_initialize_loop put host 0 a 0 len gm = Some (r, fin, gm1)" "granting \<longrightarrow> r" "r \<longrightarrow> fin = len"
    "unat fin \<le> unat len" "gm_ok gm1" "same_maps gm gm1" "mem gm1 = stores gm a val 0 (unat fin) (mem gm)"
    using i by (auto simp: initialized_def)
  note sm = same_mapsD [OF l(6)]
  have "unat a + unat fin < 18446744073709551616" using spans_less [OF ok s] l(4) by simp
  from record_loop_spec [OF l(5) new_report_ok(1) this] obtain m where
    m: "RecordActualWriteRangeLocked new_report a fin gm1 = Some m" "extends new_report m (touched gm a fin)"
    by (auto simp: RecordActualWriteRangeLocked_def sm)
  have sd: "same_data gm1 (NotifyMutationReport m gm1)" by (rule same_data_report)
  have "reported gm (NotifyMutationReport m gm1) x" if "inside x 1 gm" "touched gm a fin x" for x
    using NotifyMutationReport_reports [of m x gm1] m(2) that by (simp add: extends_def reported_def sm)
  moreover have "prot_at gm1 = prot_at gm" "id_at gm1 = id_at gm" by (simp_all add: prot_at_def id_at_def sm)
  ultimately have "stored val a fin gm (NotifyMutationReport m gm1)"
    using l(5,7) sd sm(8,11) by (simp add: stored_def same_data_def)
  with l m(1) show ?thesis by (auto simp: host_initialize_def)
qed

lemma mapped_range:
  assumes "gm_ok gm" "IsMappedLocked a n gm"
  shows "spans a n gm" "n \<noteq> 0 \<Longrightarrow> \<forall>x. in_range a n x \<longrightarrow> val_at (gm_regions gm) x \<noteq> None"
  using assms inside_spans max_1_nonzero by (simp_all add: IsMappedLocked_iff)

text \<open>The outcome of both operations, for the bytes \<open>val\<close>.\<close>

definition initializes ::
  "(nat \<Rightarrow> u8) \<Rightarrow> bool \<Rightarrow> (nat \<Rightarrow> bool) \<Rightarrow> u64 \<Rightarrow> u64 \<Rightarrow> guest_memory \<Rightarrow> (bool \<times> guest_memory) option \<Rightarrow> bool" where
  "initializes val fault host a len gm result \<longleftrightarrow>
     (if IsMapped a len gm
      then \<exists>fin r gm'. result = Some (r, gm') \<and> (\<not> fault \<and> (\<forall>k. host k) \<longrightarrow> r) \<and> (r \<longrightarrow> fin = len) \<and>
        stored val a fin gm gm'
      else result = Some (False, gm))"

lemma own_initializes:
  assumes "mutated val fault a 0 len gm new_report result"
  shows "\<exists>fin r gm'. map_option (\<lambda>(completed, _, gm', mutations). (completed, NotifyMutationReport mutations gm')) result =
      Some (r, gm') \<and> (\<not> fault \<and> granting \<longrightarrow> r) \<and> (r \<longrightarrow> fin = len) \<and> stored val a fin gm gm'"
proof -
  from mutated_finish [OF assms] obtain fin gm' where
    f: "map_option (\<lambda>(completed, _, gm', mutations). (completed, NotifyMutationReport mutations gm')) result =
      Some (\<not> fault \<or> len = 0, gm')" "unat fin \<le> unat len" "\<not> fault \<longrightarrow> fin = len" "stored val a fin gm gm'" by blast
  have "\<not> fault \<or> len = 0 \<longrightarrow> fin = len" using f(2,3) by (auto simp: unat_eq_iff)
  with f show ?thesis by blast
qed

lemma Initialize_spec:
  assumes ok: "gm_ok gm" and n: "length source < 18446744073709551616"
  shows "initializes (\<lambda>i. source ! i) fault host a (of_nat (length source)) gm (Initialize fault host a source gm)"
proof (cases "IsMappedLocked a (of_nat (length source)) gm")
  case False
  then show ?thesis by (simp add: initializes_def Initialize_def IsMapped_def)
next
  case True
  let ?n = "of_nat (length source) :: u64"
  have l: "unat ?n = length source" using n by (simp add: unat_of_nat)
  note m = mapped_range [OF ok True]
  show ?thesis
  proof (cases "source = [] \<or> \<not> gm_host_mapped gm")
    case own: True
    have "mutated (\<lambda>i. source ! i) fault a 0 ?n gm new_report (WriteBytes fault a source gm new_report)"
      unfolding WriteBytes_def by (rule writing.mutate_loop_spec [OF ok new_report_ok(1) m(1)]) (simp_all add: l)
    from own_initializes [OF this, of "\<forall>k. host k"] show ?thesis
      using own True by (simp add: initializes_def Initialize_def IsMapped_def)
  next
    case hostm: False
    have "?n \<noteq> 0" using hostm l by auto
    then have "initialized (\<lambda>i. source ! i) (\<forall>k. host k) a 0 ?n gm (host_initialize_loop (write_piece source) host 0 a 0 ?n gm)"
      using hostm gm_okD(13) [OF ok] l m by (intro writing.host_loop_spec [OF ok _ m(1)]) simp_all
    from host_initialize_finish [OF this ok m(1)] show ?thesis
      using hostm True by (auto simp: initializes_def Initialize_def IsMapped_def)
  qed
qed

lemma InitializeFill_spec:
  assumes ok: "gm_ok gm"
  shows "initializes (\<lambda>_. v) fault host a len gm (InitializeFill fault host a len v gm)"
proof (cases "IsMappedLocked a len gm")
  case False
  then show ?thesis by (simp add: initializes_def InitializeFill_def IsMapped_def)
next
  case True
  have l: "unat len \<le> 18446744073709551616" using unat_u64_less [of len] by simp
  note m = mapped_range [OF ok True]
  show ?thesis
  proof (cases "len = 0 \<or> \<not> gm_host_mapped gm")
    case own: True
    have "mutated (\<lambda>_. v) fault a 0 len gm new_report (FillBytes fault a len v gm new_report)"
      unfolding FillBytes_def using l by (intro filling.mutate_loop_spec [OF ok new_report_ok(1) m(1)]) simp_all
    from own_initializes [OF this, of "\<forall>k. host k"] show ?thesis
      using own True by (simp add: initializes_def InitializeFill_def IsMapped_def)
  next
    case hostm: False
    then have "initialized (\<lambda>_. v) (\<forall>k. host k) a 0 len gm (host_initialize_loop (fill_piece v) host 0 a 0 len gm)"
      using gm_okD(13) [OF ok] l m by (intro filling.host_loop_spec [OF ok _ m(1)]) simp_all
    from host_initialize_finish [OF this ok m(1)] show ?thesis
      using hostm True by (auto simp: initializes_def InitializeFill_def IsMapped_def)
  qed
qed

section \<open>Properties\<close>



end
