(* ===== verification/Direct_Memory.thy ===== *)
theory Direct_Memory
  imports Handle_Table Segments Shared_Backing
begin

text \<open>
  Direct memory (\<open>kernel/direct_memory.cpp\<close>): the physical range of \<open>kDirectMemorySize\<close> bytes is
  divided into allocations and free ranges, both kept in maps ordered by start address; the
  mappings of allocated memory into the guest are a list. The state is a record, every method a
  function that returns the new state.
\<close>

section \<open>State\<close>

abbreviation kDirectMemorySize :: u64 where
  "kDirectMemorySize \<equiv> 0x360000000"

abbreviation kMaximumDirectMemoryAllocations :: nat where
  "kMaximumDirectMemoryAllocations \<equiv> 262144"

abbreviation kMaximumDirectMemoryMappings :: nat where
  "kMaximumDirectMemoryMappings \<equiv> 262144"

record direct_memory_range_result =
  dr_status :: kernel_status
  dr_address :: u64
  dr_size :: u64

record direct_memory_query_result =
  dq_status :: kernel_status
  dq_start :: int
  dq_end :: int
  dq_memory_type :: int

record allocation =
  al_size :: u64
  al_memory_type :: int

text \<open>A mapping is an interval of guest addresses with the physical address of its first byte.\<close>

record direct_memory =
  dm_allocations :: "(u64, allocation) omap"
  dm_free_ranges :: "(u64, u64) omap"
  dm_mappings :: "u64 seg list"
  dm_backing :: shared_backing

definition new_direct_memory :: direct_memory where
  "new_direct_memory = \<lparr>dm_allocations = [], dm_free_ranges = om_emplace 0 kDirectMemorySize [],
     dm_mappings = [], dm_backing = new_backing kDirectMemorySize\<rparr>"

section \<open>Operations\<close>

definition AlignUp :: "u64 \<Rightarrow> u64 \<Rightarrow> u64 option" where
  "AlignUp v alignment =
     (if alignment = 0 then Some v
      else
        let remainder = v mod alignment;
            increment = (if remainder = 0 then 0 else alignment - remainder)
        in if increment > u64_max - v then None else Some (v + increment))"

text \<open>The loop of \<open>Available\<close> over the free ranges; the pair is the best address and size so far.\<close>

fun Available_loop :: "u64 \<Rightarrow> u64 \<Rightarrow> u64 \<Rightarrow> u64 \<times> u64 \<Rightarrow> (u64, u64) omap \<Rightarrow> u64 \<times> u64" where
  "Available_loop search_start bounded_end alignment best [] = best"
| "Available_loop search_start bounded_end alignment best ((range_start, range_size) # rest) =
     (if range_start \<ge> bounded_end then best
      else
        let range_end = range_start + range_size;
            lower_bound = max range_start search_start;
            clipped_end = min range_end bounded_end
        in case AlignUp lower_bound alignment of
            None \<Rightarrow> Available_loop search_start bounded_end alignment best rest
          | Some aligned \<Rightarrow>
              if aligned < lower_bound \<or> aligned \<ge> clipped_end \<or> clipped_end - aligned \<le> snd best
              then Available_loop search_start bounded_end alignment best rest
              else Available_loop search_start bounded_end alignment (aligned, clipped_end - aligned) rest)"

definition Available :: "u64 \<Rightarrow> u64 \<Rightarrow> u64 \<Rightarrow> direct_memory \<Rightarrow> direct_memory_range_result" where
  "Available search_start search_end alignment dm =
     (if search_start \<ge> search_end then \<lparr>dr_status = kInvalidArgument, dr_address = 0, dr_size = 0\<rparr>
      else
        let bounded_end = min search_end kDirectMemorySize in
        if search_start \<ge> bounded_end then \<lparr>dr_status = kNoResources, dr_address = 0, dr_size = 0\<rparr>
        else
          let (best_address, best_size) =
            Available_loop search_start bounded_end alignment (0, 0) (dm_free_ranges dm)
          in if best_size = 0 then \<lparr>dr_status = kNoResources, dr_address = 0, dr_size = 0\<rparr>
             else \<lparr>dr_status = kOk, dr_address = best_address, dr_size = best_size\<rparr>)"

text \<open>The loop of \<open>Allocate\<close>: the range that is used and the selected address.\<close>

fun Allocate_loop :: "u64 \<Rightarrow> u64 \<Rightarrow> u64 \<Rightarrow> u64 \<Rightarrow> (u64, u64) omap \<Rightarrow> ((u64 \<times> u64) \<times> u64) option" where
  "Allocate_loop search_start bounded_end len alignment [] = None"
| "Allocate_loop search_start bounded_end len alignment ((first, second) # rest) =
     (if \<not> first < bounded_end then None
      else
        let range_end = min (first + second) bounded_end;
            lower_bound = max first search_start
        in case AlignUp lower_bound alignment of
            None \<Rightarrow> Allocate_loop search_start bounded_end len alignment rest
          | Some aligned \<Rightarrow>
              if aligned < lower_bound \<or> aligned > range_end \<or> len > range_end - aligned
              then Allocate_loop search_start bounded_end len alignment rest
              else Some ((first, second), aligned))"

definition ConsumeFreeRange :: "u64 \<times> u64 \<Rightarrow> u64 \<Rightarrow> u64 \<Rightarrow> (u64, u64) omap \<Rightarrow> (u64, u64) omap" where
  "ConsumeFreeRange rng start len m =
     (let range_start = fst rng;
          range_end = range_start + snd rng;
          m1 = om_erase range_start m;
          m2 = (if range_start < start then om_emplace range_start (start - range_start) m1 else m1)
      in if start + len < range_end then om_emplace (start + len) (range_end - start - len) m2 else m2)"

definition Allocate ::
  "u64 \<Rightarrow> u64 \<Rightarrow> u64 \<Rightarrow> u64 \<Rightarrow> int \<Rightarrow> direct_memory \<Rightarrow> direct_memory_range_result \<times> direct_memory" where
  "Allocate search_start search_end len alignment memory_type dm =
     (if len = 0 \<or> search_start \<ge> search_end
      then (\<lparr>dr_status = kInvalidArgument, dr_address = 0, dr_size = 0\<rparr>, dm)
      else
        let bounded_end = min search_end kDirectMemorySize in
        if search_start \<ge> bounded_end \<or> length (dm_allocations dm) \<ge> kMaximumDirectMemoryAllocations
        then (\<lparr>dr_status = kNoResources, dr_address = 0, dr_size = 0\<rparr>, dm)
        else
          let upper = om_upper_bound (dm_free_ranges dm) search_start;
              first = (if upper \<noteq> 0 then upper - 1 else upper)
          in case Allocate_loop search_start bounded_end len alignment (drop first (dm_free_ranges dm)) of
              None \<Rightarrow> (\<lparr>dr_status = kNoResources, dr_address = 0, dr_size = 0\<rparr>, dm)
            | Some (rng, selected) \<Rightarrow>
                (\<lparr>dr_status = kOk, dr_address = selected, dr_size = len\<rparr>,
                 dm\<lparr>dm_free_ranges := ConsumeFreeRange rng selected len (dm_free_ranges dm),
                    dm_allocations := om_emplace selected \<lparr>al_size = len, al_memory_type = memory_type\<rparr>
                      (dm_allocations dm)\<rparr>))"

text \<open>The loop of \<open>Query\<close> that joins following allocations of the same type.\<close>

fun Query_loop :: "u64 \<Rightarrow> int \<Rightarrow> (u64, allocation) omap \<Rightarrow> u64" where
  "Query_loop end_address memory_type [] = end_address"
| "Query_loop end_address memory_type ((first, al) # rest) =
     (if first = end_address \<and> al_memory_type al = memory_type
      then Query_loop (end_address + al_size al) memory_type rest else end_address)"

definition Query :: "int \<Rightarrow> int \<Rightarrow> direct_memory \<Rightarrow> direct_memory_query_result" where
  "Query offset flags dm =
     (if offset < 0 \<or> (flags \<noteq> 0 \<and> flags \<noteq> 1)
      then \<lparr>dq_status = kInvalidArgument, dq_start = 0, dq_end = 0, dq_memory_type = 0\<rparr>
      else
        let address = word_of_int offset;
            m = dm_allocations dm;
            upper = om_upper_bound m address;
            current = (if upper \<noteq> 0 \<and> address < fst (m ! (upper - 1)) + al_size (snd (m ! (upper - 1)))
                       then upper - 1 else upper)
        in if current = length m \<or>
              (flags = 0 \<and> (address < fst (m ! current) \<or> address \<ge> fst (m ! current) + al_size (snd (m ! current))))
           then if flags = 1 \<and> address < kDirectMemorySize
                then \<lparr>dq_status = kOk, dq_start = sint kDirectMemorySize, dq_end = sint kDirectMemorySize,
                      dq_memory_type = 0\<rparr>
                else \<lparr>dq_status = kPermissionDenied, dq_start = 0, dq_end = 0, dq_memory_type = 0\<rparr>
           else
             let (start, al) = m ! current
             in \<lparr>dq_status = kOk, dq_start = sint start,
                 dq_end = sint (Query_loop (start + al_size al) (al_memory_type al) (drop (Suc current) m)),
                 dq_memory_type = al_memory_type al\<rparr>)"

definition HasMappedPhysicalOverlapLocked :: "u64 \<Rightarrow> u64 \<Rightarrow> direct_memory \<Rightarrow> bool" where
  "HasMappedPhysicalOverlapLocked start len dm =
     (let end_address = start + len in
      list_ex (\<lambda>mapping. start < seg_val mapping + seg_size mapping \<and> seg_val mapping < end_address)
        (dm_mappings dm))"

fun absorb :: "u64 \<Rightarrow> (u64, u64) omap \<Rightarrow> u64 \<times> (u64, u64) omap" where
  "absorb end_address [] = (end_address, [])"
| "absorb end_address ((first, second) # rest) =
     (if first \<le> end_address then absorb (max end_address (first + second)) rest
      else (end_address, (first, second) # rest))"

definition AddFreeRange :: "u64 \<Rightarrow> u64 \<Rightarrow> (u64, u64) omap \<Rightarrow> (u64, u64) omap" where
  "AddFreeRange start len m =
     (let end_address = start + len;
          next = om_lower_bound m start;
          (start1, end1, before) =
            (if next \<noteq> 0 \<and> fst (m ! (next - 1)) + snd (m ! (next - 1)) \<ge> start
             then (fst (m ! (next - 1)), max end_address (fst (m ! (next - 1)) + snd (m ! (next - 1))), take (next - 1) m)
             else (start, end_address, take next m));
          (end2, rest) = absorb end1 (drop next m)
      in om_emplace start1 (end2 - start1) (before @ rest))"

definition Release :: "u64 \<Rightarrow> u64 \<Rightarrow> direct_memory \<Rightarrow> kernel_status \<times> direct_memory" where
  "Release start len dm =
     (if len = 0 \<or> start \<ge> kDirectMemorySize \<or> len > kDirectMemorySize - start then (kInvalidArgument, dm)
      else if HasMappedPhysicalOverlapLocked start len dm then (kBusy, dm)
      else
        let m = dm_allocations dm;
            upper = om_upper_bound m start
        in if upper = 0 then (kNotFound, dm)
           else
             let (owner_start, owner) = m ! (upper - 1);
                 owner_end = owner_start + al_size owner;
                 release_end = start + len
             in if start < owner_start \<or> release_end > owner_end then (kNotFound, dm)
                else if start > owner_start \<and> release_end < owner_end \<and> length m \<ge> kMaximumDirectMemoryAllocations
                then (kNoResources, dm)
                else
                  let m1 = om_erase owner_start m;
                      m2 = (if owner_start < start
                            then om_emplace owner_start (owner\<lparr>al_size := start - owner_start\<rparr>) m1 else m1);
                      m3 = (if release_end < owner_end
                            then om_emplace release_end (owner\<lparr>al_size := owner_end - release_end\<rparr>) m2 else m2)
                  in (kOk, dm\<lparr>dm_allocations := m3, dm_free_ranges := AddFreeRange start len (dm_free_ranges dm),
                              dm_backing := sb_Clear start len (dm_backing dm)\<rparr>))"

definition ContainsAllocatedRangeLocked :: "u64 \<Rightarrow> u64 \<Rightarrow> direct_memory \<Rightarrow> bool" where
  "ContainsAllocatedRangeLocked start len dm =
     (let m = dm_allocations dm;
          upper = om_upper_bound m start
      in if upper = 0 then False
         else
           let (first, owner) = m ! (upper - 1)
           in start \<ge> first \<and> len \<le> first + al_size owner - start)"

definition ContainsAllocatedRange :: "u64 \<Rightarrow> u64 \<Rightarrow> direct_memory \<Rightarrow> bool" where
  "ContainsAllocatedRange start len dm =
     (if len = 0 \<or> start \<ge> kDirectMemorySize \<or> len > kDirectMemorySize - start then False
      else ContainsAllocatedRangeLocked start len dm)"

definition RegisterMapping :: "u64 \<Rightarrow> u64 \<Rightarrow> u64 \<Rightarrow> direct_memory \<Rightarrow> kernel_status \<times> direct_memory" where
  "RegisterMapping guest_address physical_address len dm =
     (if guest_address = 0 \<or> len = 0 \<or> len > u64_max - guest_address \<or>
         physical_address \<ge> kDirectMemorySize \<or> len > kDirectMemorySize - physical_address
      then (kInvalidArgument, dm)
      else if \<not> ContainsAllocatedRangeLocked physical_address len dm then (kNotFound, dm)
      else if length (dm_mappings dm) \<ge> kMaximumDirectMemoryMappings then (kNoResources, dm)
      else
        let guest_end = guest_address + len in
        if list_ex (\<lambda>mapping. guest_address < seg_end mapping \<and> seg_address mapping < guest_end) (dm_mappings dm)
        then (kBusy, dm)
        else (kOk, dm\<lparr>dm_mappings := dm_mappings dm @ [Seg guest_address len physical_address]\<rparr>))"

definition UnregisterMappings :: "u64 \<Rightarrow> u64 \<Rightarrow> direct_memory \<Rightarrow> direct_memory" where
  "UnregisterMappings guest_address len dm =
     (if len = 0 \<or> len > u64_max - guest_address then dm
      else dm\<lparr>dm_mappings := seg_cut (\<lambda>n physical. physical + n) guest_address (guest_address + len) (dm_mappings dm)\<rparr>)"

definition allocation_count :: "direct_memory \<Rightarrow> nat" where
  "allocation_count dm = length (dm_allocations dm)"

definition mapping_count :: "direct_memory \<Rightarrow> nat" where
  "mapping_count dm = length (dm_mappings dm)"

section \<open>Meaning and invariant\<close>

text \<open>
  A physical address is free or owned by an allocation of some type. Free ranges never touch, so
  that they are maximal; allocations may touch. Every address below the size is exactly one of both.
\<close>

definition in_free :: "(u64, u64) omap \<Rightarrow> nat \<Rightarrow> bool" where
  "in_free m x \<longleftrightarrow> (\<exists>(a, n) \<in> set m. unat a \<le> x \<and> x < unat a + unat n)"

definition owned :: "(u64, allocation) omap \<Rightarrow> nat \<Rightarrow> int \<Rightarrow> bool" where
  "owned m x t \<longleftrightarrow> (\<exists>(a, al) \<in> set m. unat a \<le> x \<and> x < unat a + unat (al_size al) \<and> al_memory_type al = t)"

definition free_ok :: "(u64, u64) omap \<Rightarrow> bool" where
  "free_ok m \<longleftrightarrow> om_ok m \<and> (\<forall>(a, n) \<in> set m. n \<noteq> 0 \<and> unat a + unat n \<le> unat kDirectMemorySize) \<and>
     (\<forall>(a, n) \<in> set m. \<forall>(b, k) \<in> set m. a < b \<longrightarrow> unat a + unat n < unat b)"

definition alloc_ok :: "(u64, allocation) omap \<Rightarrow> bool" where
  "alloc_ok m \<longleftrightarrow> om_ok m \<and>
     (\<forall>(a, al) \<in> set m. al_size al \<noteq> 0 \<and> unat a + unat (al_size al) \<le> unat kDirectMemorySize) \<and>
     (\<forall>(a, al) \<in> set m. \<forall>(b, bl) \<in> set m. a < b \<longrightarrow> unat a + unat (al_size al) \<le> unat b)"

definition dm_ok :: "direct_memory \<Rightarrow> bool" where
  "dm_ok dm \<longleftrightarrow> free_ok (dm_free_ranges dm) \<and> alloc_ok (dm_allocations dm) \<and>
     (\<forall>x < unat kDirectMemorySize. in_free (dm_free_ranges dm) x \<longleftrightarrow> \<not> (\<exists>t. owned (dm_allocations dm) x t)) \<and>
     sb_ok (dm_backing dm) \<and> sb_size (dm_backing dm) = kDirectMemorySize"

lemma set_om_emplace:
  assumes "om_ok m" "om_find m k = None"
  shows "set (om_emplace k v m) = insert (k, v) (set m)"
proof -
  have "(a, b) \<in> set (om_emplace k v m) \<longleftrightarrow> (a, b) = (k, v) \<or> (a, b) \<in> set m" for a b
    using assms by (auto simp: om_find_Some_iff [symmetric] om_find_emplace)
  then show ?thesis by auto
qed

lemma set_om_erase: "set (om_erase k m) = {p \<in> set m. fst p \<noteq> k}"
  by (auto simp: om_erase_def)

lemma om_find_None_set: "om_find m k = None \<longleftrightarrow> (\<forall>p \<in> set m. fst p \<noteq> k)"
  by (auto simp: om_find_None_iff om_keys_def)

lemma om_key_unique: "om_ok m \<Longrightarrow> (k, v) \<in> set m \<Longrightarrow> (k, w) \<in> set m \<Longrightarrow> v = w"
  by (metis om_find_Some_iff option.inject)

text \<open>Replacing one block by the parts of it in front of and behind a hole.\<close>

definition hole :: "u64 \<Rightarrow> u64 \<Rightarrow> u64 \<Rightarrow> u64 \<Rightarrow> (u64 \<Rightarrow> 'v) \<Rightarrow> (u64, 'v) omap \<Rightarrow> (u64, 'v) omap" where
  "hole a n s l part m =
     (let m1 = om_erase a m;
          m2 = (if a < s then om_emplace a (part (s - a)) m1 else m1)
      in if s + l < a + n then om_emplace (s + l) (part (a + n - (s + l))) m2 else m2)"

lemma hole_set:
  assumes ok: "om_ok m" and nov: "unat a + unat n < 18446744073709551616"
    and h: "unat a \<le> unat s" "unat s + unat l \<le> unat a + unat n" "l \<noteq> 0"
    and free: "\<forall>p \<in> set m. fst p \<noteq> a \<longrightarrow> \<not> (unat a < unat (fst p) \<and> unat (fst p) < unat a + unat n)"
  shows "om_ok (hole a n s l part m)"
    "set (hole a n s l part m) = {p \<in> set m. fst p \<noteq> a} \<union> (if a < s then {(a, part (s - a))} else {}) \<union>
       (if s + l < a + n then {(s + l, part (a + n - (s + l)))} else {})"
proof -
  have u: "unat (s + l) = unat s + unat l" "unat (a + n) = unat a + unat n"
    using h(2) nov by (auto intro!: unat_add_exact)
  let ?m1 = "om_erase a m"
  let ?m2 = "if a < s then om_emplace a (part (s - a)) ?m1 else ?m1"
  have ok1: "om_ok ?m1" using ok by simp
  have f1: "om_find ?m1 a = None" by (simp add: om_find_erase)
  have s1: "set ?m1 = {p \<in> set m. fst p \<noteq> a}" by (rule set_om_erase)
  have ok2: "om_ok ?m2" using ok1 by simp
  have s2: "set ?m2 = {p \<in> set m. fst p \<noteq> a} \<union> (if a < s then {(a, part (s - a))} else {})"
    using set_om_emplace [OF ok1 f1] s1 by simp
  have f2: "om_find ?m2 (s + l) = None" if "s + l < a + n"
  proof -
    have "0 < unat l" using h(3) by (simp add: unat_gt_0)
    then have "unat a < unat (s + l)" "unat (s + l) < unat a + unat n" using that h(1) u by (auto simp: word_less_nat_alt)
    then show ?thesis using free unfolding om_find_None_set s2 by (auto split: if_splits)
  qed
  show "om_ok (hole a n s l part m)" using ok2 by (simp add: hole_def Let_def)
  show "set (hole a n s l part m) = {p \<in> set m. fst p \<noteq> a} \<union> (if a < s then {(a, part (s - a))} else {}) \<union>
       (if s + l < a + n then {(s + l, part (a + n - (s + l)))} else {})"
  proof (cases "s + l < a + n")
    case True
    then show ?thesis using set_om_emplace [OF ok2 f2 [OF True]] s2 by (simp add: hole_def Let_def)
  next
    case False
    then show ?thesis using s2 by (simp add: hole_def Let_def)
  qed
qed

lemma ConsumeFreeRange_hole: "ConsumeFreeRange (a, n) s l m = hole a n s l (\<lambda>k. k) m"
  by (simp add: ConsumeFreeRange_def hole_def Let_def diff_diff_eq)

lemma part_units:
  fixes a n s l :: u64
  assumes "unat a + unat n < 18446744073709551616" "unat a \<le> unat s" "unat s + unat l \<le> unat a + unat n"
  shows "unat (s + l) = unat s + unat l" "unat (a + n) = unat a + unat n" "unat (s - a) = unat s - unat a"
    "unat (a + n - (s + l)) = unat a + unat n - (unat s + unat l)"
proof -
  show u: "unat (s + l) = unat s + unat l" "unat (a + n) = unat a + unat n"
    using assms by (simp_all add: unat_add_exact)
  show "unat (s - a) = unat s - unat a" using assms by (simp add: unat_sub_exact)
  show "unat (a + n - (s + l)) = unat a + unat n - (unat s + unat l)" using assms u by (simp add: unat_sub_exact)
qed

section \<open>Taking from the free ranges\<close>

lemma free_okD:
  assumes "free_ok m"
  shows "om_ok m" "(a, n) \<in> set m \<Longrightarrow> n \<noteq> 0" "(a, n) \<in> set m \<Longrightarrow> unat a + unat n \<le> unat kDirectMemorySize"
    "(a, n) \<in> set m \<Longrightarrow> (b, k) \<in> set m \<Longrightarrow> a < b \<Longrightarrow> unat a + unat n < unat b"
  using assms unfolding free_ok_def by auto

lemma free_neighbours:
  assumes ok: "free_ok m" and a: "(a, n) \<in> set m" and b: "(b, k) \<in> set m" "b \<noteq> a"
  shows "unat b + unat k < unat a \<or> unat a + unat n < unat b"
  using free_okD(4) [OF ok a b(1)] free_okD(4) [OF ok b(1) a] b(2) by (metis linorder_less_linear)

lemma Consume_spec:
  assumes ok: "free_ok m" and a: "(a, n) \<in> set m"
    and h: "unat a \<le> unat s" "unat s + unat l \<le> unat a + unat n" "l \<noteq> 0"
  shows "free_ok (ConsumeFreeRange (a, n) s l m)"
    "in_free (ConsumeFreeRange (a, n) s l m) x \<longleftrightarrow> in_free m x \<and> \<not> (unat s \<le> x \<and> x < unat s + unat l)"
proof -
  have sz: "unat a + unat n \<le> unat kDirectMemorySize" using free_okD(3) [OF ok a] .
  then have nov: "unat a + unat n < 18446744073709551616" by simp
  note U = part_units [OF nov h(1,2)]
  note nb = free_neighbours [OF ok a]
  have gap: "\<forall>p \<in> set m. fst p \<noteq> a \<longrightarrow> \<not> (unat a < unat (fst p) \<and> unat (fst p) < unat a + unat n)"
    using nb by fastforce
  note H = hole_set [OF free_okD(1) [OF ok] nov h gap, of "\<lambda>k. k", folded ConsumeFreeRange_hole]
  have lt: "a < s \<longleftrightarrow> unat a < unat s" "s + l < a + n \<longleftrightarrow> unat s + unat l < unat a + unat n"
    by (simp_all add: word_less_nat_alt U)
  have l0: "0 < unat l" using h(3) by (simp add: unat_gt_0)
  have mem: "(b, k) \<in> set (ConsumeFreeRange (a, n) s l m) \<longleftrightarrow>
      ((b, k) \<in> set m \<and> b \<noteq> a) \<or> (unat a < unat s \<and> b = a \<and> k = s - a) \<or>
      (unat s + unat l < unat a + unat n \<and> b = s + l \<and> k = a + n - (s + l))" for b k
    unfolding H(2) by (auto simp: lt)
  have kinds: "(b, k) \<in> set m \<and> (unat b + unat k < unat a \<or> unat a + unat n < unat b) \<or>
      (unat b = unat a \<and> unat k = unat s - unat a) \<or>
      (unat b = unat s + unat l \<and> unat k = unat a + unat n - (unat s + unat l))"
    if "(b, k) \<in> set (ConsumeFreeRange (a, n) s l m)" for b k
    using that nb [of b k] unfolding mem by (elim disjE conjE) (simp_all add: U)
  show "free_ok (ConsumeFreeRange (a, n) s l m)"
    unfolding free_ok_def
  proof (intro conjI ballI)
    show "om_ok (ConsumeFreeRange (a, n) s l m)" by (rule H(1))
  next
    fix p assume "p \<in> set (ConsumeFreeRange (a, n) s l m)"
    then obtain b k where p: "p = (b, k)" "(b, k) \<in> set (ConsumeFreeRange (a, n) s l m)" by (metis surj_pair)
    have "0 < unat k \<and> unat b + unat k \<le> unat kDirectMemorySize"
      using p(2) [unfolded mem]
    proof (elim disjE conjE)
      assume "(b, k) \<in> set m"
      then show ?thesis using free_okD(2,3) [OF ok, of b k] by (simp add: unat_gt_0)
    next
      assume "unat a < unat s" and e: "b = a" "k = s - a"
      then show ?thesis unfolding e U using sz h by linarith
    next
      assume "unat s + unat l < unat a + unat n" and e: "b = s + l" "k = a + n - (s + l)"
      then show ?thesis unfolding e U using sz h by linarith
    qed
    then show "case p of (a, n) \<Rightarrow> n \<noteq> 0 \<and> unat a + unat n \<le> unat kDirectMemorySize" by (auto simp: p)
  next
    fix p assume "p \<in> set (ConsumeFreeRange (a, n) s l m)"
    then obtain b k where p: "p = (b, k)" "(b, k) \<in> set (ConsumeFreeRange (a, n) s l m)" by (metis surj_pair)
    have "unat b + unat k < unat c" if q: "(c, j) \<in> set (ConsumeFreeRange (a, n) s l m)" "unat b < unat c" for c j
    proof (cases "(b, k) \<in> set m \<and> (c, j) \<in> set m")
      case True
      then show ?thesis using free_okD(4) [OF ok, of b k c j] q(2) by (simp add: word_less_nat_alt)
    next
      case False
      from False kinds [OF p(2)] kinds [OF q(1)] q(2) show ?thesis using l0 h by linarith
    qed
    then show "case p of (a', n') \<Rightarrow> \<forall>(b, k) \<in> set (ConsumeFreeRange (a, n) s l m). a' < b \<longrightarrow> unat a' + unat n' < unat b"
      by (auto simp: p word_less_nat_alt)
  qed
  have "(\<exists>(b, k) \<in> set m. b \<noteq> a \<and> unat b \<le> x \<and> x < unat b + unat k) \<longleftrightarrow>
      in_free m x \<and> \<not> (unat a \<le> x \<and> x < unat a + unat n)"
  proof
    assume "\<exists>(b, k) \<in> set m. b \<noteq> a \<and> unat b \<le> x \<and> x < unat b + unat k"
    then obtain b k where b: "(b, k) \<in> set m" "b \<noteq> a" "unat b \<le> x" "x < unat b + unat k" by auto
    then have "\<not> (unat a \<le> x \<and> x < unat a + unat n)" using nb [OF b(1,2)] by linarith
    with b show "in_free m x \<and> \<not> (unat a \<le> x \<and> x < unat a + unat n)" by (auto simp: in_free_def)
  next
    assume x: "in_free m x \<and> \<not> (unat a \<le> x \<and> x < unat a + unat n)"
    then obtain b k where b: "(b, k) \<in> set m" "unat b \<le> x" "x < unat b + unat k" by (auto simp: in_free_def)
    with x om_key_unique [OF free_okD(1) [OF ok] a] have "b \<noteq> a" by metis
    with b show "\<exists>(b, k) \<in> set m. b \<noteq> a \<and> unat b \<le> x \<and> x < unat b + unat k" by blast
  qed
  moreover have "in_free (ConsumeFreeRange (a, n) s l m) x \<longleftrightarrow>
      (\<exists>(b, k) \<in> set m. b \<noteq> a \<and> unat b \<le> x \<and> x < unat b + unat k) \<or> (unat a \<le> x \<and> x < unat s) \<or>
      (unat s + unat l \<le> x \<and> x < unat a + unat n)"
    unfolding in_free_def H(2) using h by (auto simp: lt U split: if_splits)
  moreover have "unat a \<le> x \<and> x < unat a + unat n \<Longrightarrow> in_free m x" using a by (auto simp: in_free_def)
  ultimately show "in_free (ConsumeFreeRange (a, n) s l m) x \<longleftrightarrow> in_free m x \<and> \<not> (unat s \<le> x \<and> x < unat s + unat l)"
    using h by auto
qed

section \<open>Allocation\<close>

definition aligned_to :: "u64 \<Rightarrow> nat \<Rightarrow> bool" where
  "aligned_to alignment x \<longleftrightarrow> alignment = 0 \<or> unat alignment dvd x"

lemma nat_align:
  fixes v p :: nat
  assumes p: "0 < p"
  defines "w \<equiv> v + (if v mod p = 0 then 0 else p - v mod p)"
  shows "p dvd w" "p dvd y \<Longrightarrow> v \<le> y \<Longrightarrow> w \<le> y"
proof -
  have "w mod p = 0"
  proof (cases "v mod p = 0")
    case False
    have "v mod p < p" using p by simp
    moreover have "w = v + (p - v mod p)" using False by (simp add: w_def)
    ultimately have "w = v div p * p + p" using div_mult_mod_eq [of v p] by linarith
    then show ?thesis by simp
  qed (simp add: w_def)
  then show d: "p dvd w" by (simp add: dvd_eq_mod_eq_0)
  show "w \<le> y" if y: "p dvd y" "v \<le> y"
  proof (rule ccontr)
    assume "\<not> w \<le> y"
    moreover have "w < v + p" using p by (simp add: w_def)
    ultimately have "y < w" "w - y < p" using y(2) by linarith+
    moreover have "p dvd w - y" using d y(1) by (rule dvd_diff_nat)
    ultimately show False by (simp add: nat_dvd_not_less)
  qed
qed

lemma AlignUp_spec:
  "AlignUp v al = Some w \<Longrightarrow> unat v \<le> unat w \<and> aligned_to al (unat w) \<and> (\<forall>y \<ge> unat v. aligned_to al y \<longrightarrow> unat w \<le> y)"
  "AlignUp v al = None \<Longrightarrow> \<forall>y \<ge> unat v. aligned_to al y \<longrightarrow> 18446744073709551616 \<le> y"
proof -
  define inc where "inc = (if v mod al = 0 then 0 else al - v mod al)"
  have u: "unat inc = (if unat v mod unat al = 0 then 0 else unat al - unat v mod unat al)" if "al \<noteq> 0"
  proof -
    have m: "unat (v mod al) = unat v mod unat al" by (simp add: unat_mod)
    have "0 < unat al" using that by (simp add: unat_gt_0)
    then have "unat v mod unat al \<le> unat al" by (simp add: less_imp_le)
    then show ?thesis by (auto simp: inc_def m [symmetric] unat_sub_exact unat_eq_0)
  qed
  have w: "AlignUp v al = (if al = 0 then Some v else if inc > u64_max - v then None else Some (v + inc))"
    by (simp add: AlignUp_def Let_def inc_def)
  show "unat v \<le> unat w \<and> aligned_to al (unat w) \<and> (\<forall>y \<ge> unat v. aligned_to al y \<longrightarrow> unat w \<le> y)" if "AlignUp v al = Some w"
  proof (cases "al = 0")
    case True
    then have "w = v" using that w by simp
    then show ?thesis using True by (simp add: aligned_to_def)
  next
    case False
    then have "unat inc + unat v < 18446744073709551616" "w = v + inc"
      using that u64_overflow_test [of v inc] by (auto simp: w split: if_splits)
    then have "unat w = unat v + unat inc" by (simp add: unat_add_exact)
    moreover have "0 < unat al" using False by (simp add: unat_gt_0)
    note A = nat_align(1) [OF this, of "unat v"] nat_align(2) [OF this, of _ "unat v"]
    ultimately show ?thesis using A False unfolding u [OF False] aligned_to_def by simp
  qed
  show "\<forall>y \<ge> unat v. aligned_to al y \<longrightarrow> 18446744073709551616 \<le> y" if "AlignUp v al = None"
  proof -
    have al: "al \<noteq> 0" and "18446744073709551616 \<le> unat inc + unat v"
      using that u64_overflow_test [of v inc] by (auto simp: w split: if_splits)
    moreover have "0 < unat al" using al by (simp add: unat_gt_0)
    note A = nat_align(2) [OF this, of _ "unat v"]
    ultimately show ?thesis using A al unfolding u [OF al] aligned_to_def by (intro allI impI) (fastforce dest: A)
  qed
qed

text \<open>The addresses at which a block fits into one of the ranges.\<close>

definition fits_in :: "u64 \<Rightarrow> u64 \<Rightarrow> u64 \<Rightarrow> u64 \<Rightarrow> (u64 \<times> u64) set \<Rightarrow> nat \<Rightarrow> bool" where
  "fits_in start be l al R x \<longleftrightarrow> aligned_to al x \<and> unat start \<le> x \<and> x + unat l \<le> unat be \<and>
     (\<exists>(a, n) \<in> R. unat a \<le> x \<and> x + unat l \<le> unat a + unat n)"

lemma fits_in_insert:
  "fits_in start be l al (insert (a, n) R) x \<longleftrightarrow> fits_in start be l al R x \<or>
     aligned_to al x \<and> unat start \<le> x \<and> x + unat l \<le> unat be \<and> unat a \<le> x \<and> x + unat l \<le> unat a + unat n"
  by (auto simp: fits_in_def)

lemma free_ok_Cons:
  assumes "free_ok ((a, n) # rs)"
  shows "free_ok rs" "n \<noteq> 0" "unat (a + n) = unat a + unat n" "(b, k) \<in> set rs \<Longrightarrow> unat a + unat n < unat b"
proof -
  have keys: "\<forall>b \<in> om_keys rs. a < b" "om_ok rs" using free_okD(1) [OF assms] by (simp_all add: om_ok_Cons)
  then show "(b, k) \<in> set rs \<Longrightarrow> unat a + unat n < unat b"
    using free_okD(4) [OF assms, of a n b k] by (auto simp: om_keys_def)
  show "free_ok rs" using assms keys(2) unfolding free_ok_def by auto
  show "n \<noteq> 0" using free_okD(2) [OF assms, of a n] by simp
  show "unat (a + n) = unat a + unat n" using free_okD(3) [OF assms, of a n] by (simp add: unat_add_exact)
qed

lemma Allocate_loop_spec:
  assumes "free_ok rs" "l \<noteq> 0"
  shows "case Allocate_loop start be l al rs of
      None \<Rightarrow> \<forall>x. \<not> fits_in start be l al (set rs) x
    | Some ((a, n), sel) \<Rightarrow> (a, n) \<in> set rs \<and> unat a \<le> unat sel \<and> unat sel + unat l \<le> unat a + unat n \<and>
        fits_in start be l al (set rs) (unat sel) \<and> (\<forall>x. fits_in start be l al (set rs) x \<longrightarrow> unat sel \<le> x)"
  using assms
proof (induction start be l al rs rule: Allocate_loop.induct)
  case (1 start be l al)
  then show ?case by (simp add: fits_in_def)
next
  case (2 start be l al a n rs)
  note C = free_ok_Cons [OF 2(3)]
  have l0: "0 < unat l" using 2(4) by (simp add: unat_gt_0)
  let ?re = "min (a + n) be" and ?lb = "max a start"
  have re: "unat ?re = min (unat a + unat n) (unat be)" using C(3) by simp
  have lb: "unat ?lb = max (unat a) (unat start)" by simp
  consider (stop) "\<not> a < be" | (none) "a < be" "AlignUp ?lb al = None"
    | (skip) w where "a < be" "AlignUp ?lb al = Some w" "w < ?lb \<or> w > ?re \<or> l > ?re - w"
    | (found) w where "a < be" "AlignUp ?lb al = Some w" "\<not> (w < ?lb \<or> w > ?re \<or> l > ?re - w)"
    by (cases "AlignUp ?lb al") auto
  then show ?case
  proof cases
    case stop
    have "\<not> fits_in start be l al (set ((a, n) # rs)) x" for x
    proof
      assume "fits_in start be l al (set ((a, n) # rs)) x"
      then obtain b k where "(b, k) \<in> set ((a, n) # rs)" "unat b \<le> x" "x + unat l \<le> unat be" by (auto simp: fits_in_def)
      moreover have "unat be \<le> unat b" if "(b, k) \<in> set ((a, n) # rs)" for b k
        using that C(4) [of b k] stop by (auto simp: word_less_nat_alt)
      ultimately show False using l0 by fastforce
    qed
    then show ?thesis using stop by simp
  next
    case none
    have "\<not> (aligned_to al x \<and> unat start \<le> x \<and> unat a \<le> x \<and> x + unat l \<le> unat be)" for x
      using AlignUp_spec(2) [OF none(2)] unat_u64_less [of be] l0 unfolding lb by fastforce
    then have "fits_in start be l al (set ((a, n) # rs)) x \<longleftrightarrow> fits_in start be l al (set rs) x" for x
      by (auto simp: fits_in_insert)
    then show ?thesis
      using 2(1) [OF _ refl refl none(2) C(1) 2(4)] none by (auto split: option.splits)
  next
    case skip
    note W = AlignUp_spec(1) [OF skip(2), unfolded lb]
    have bad: "unat w > unat ?re \<or> unat l > unat ?re - unat w"
    proof (cases "w > ?re")
      case False
      then have "unat (?re - w) = unat ?re - unat w" by (metis unat_sub_exact not_less word_le_nat_alt)
      moreover have "\<not> w < ?lb" using W by (simp add: word_less_nat_alt not_less)
      ultimately show ?thesis using skip(3) False by (auto simp: word_less_nat_alt)
    qed (simp add: word_less_nat_alt)
    have "\<not> (aligned_to al x \<and> unat start \<le> x \<and> x + unat l \<le> unat be \<and> unat a \<le> x \<and> x + unat l \<le> unat a + unat n)" for x
    proof
      assume x: "aligned_to al x \<and> unat start \<le> x \<and> x + unat l \<le> unat be \<and> unat a \<le> x \<and> x + unat l \<le> unat a + unat n"
      then have "unat w \<le> x" using W by simp
      with x bad show False unfolding re by linarith
    qed
    then have "fits_in start be l al (set ((a, n) # rs)) x \<longleftrightarrow> fits_in start be l al (set rs) x" for x
      by (auto simp: fits_in_insert)
    then show ?thesis
      using 2(2) [OF _ refl refl skip(2,3) C(1) 2(4)] skip by (auto split: option.splits)
  next
    case found
    note W = AlignUp_spec(1) [OF found(2), unfolded lb]
    have "unat w \<le> unat ?re" using found(3) by (metis not_less word_le_nat_alt)
    moreover from this have "unat l \<le> unat ?re - unat w"
      using found(3) by (metis not_less word_le_nat_alt unat_sub_exact)
    ultimately have good: "unat w + unat l \<le> unat a + unat n" "unat w + unat l \<le> unat be" unfolding re by linarith+
    have "unat w \<le> x" if x: "fits_in start be l al (set ((a, n) # rs)) x" for x
    proof -
      from x obtain b k where b: "(b, k) \<in> set ((a, n) # rs)" "unat b \<le> x" "aligned_to al x" "unat start \<le> x"
        by (auto simp: fits_in_def)
      have "unat a \<le> unat b" using b(1) C(4) [of b k] by auto
      then show ?thesis using W b by simp
    qed
    moreover have "fits_in start be l al (set ((a, n) # rs)) (unat w)"
      using W good by (auto simp: fits_in_insert)
    ultimately show ?thesis using found W good by auto
  qed
qed

lemma in_freeI: "(a, n) \<in> set m \<Longrightarrow> unat a \<le> x \<Longrightarrow> x < unat a + unat n \<Longrightarrow> in_free m x"
  by (auto simp: in_free_def)

lemma free_contiguous:
  assumes ok: "free_ok m" and l: "0 < l" and all: "\<forall>y. x \<le> y \<and> y < x + l \<longrightarrow> in_free m y"
  shows "\<exists>(a, n) \<in> set m. unat a \<le> x \<and> x + l \<le> unat a + unat n"
proof -
  have "in_free m x" using all l by simp
  then obtain a n where a: "(a, n) \<in> set m" "unat a \<le> x" "x < unat a + unat n" by (auto simp: in_free_def)
  have "x + l \<le> unat a + unat n"
  proof (rule ccontr)
    assume "\<not> x + l \<le> unat a + unat n"
    then have "in_free m (unat a + unat n)" using all a by simp
    then obtain b k where b: "(b, k) \<in> set m" "unat b \<le> unat a + unat n" "unat a + unat n < unat b + unat k"
      by (auto simp: in_free_def)
    then have "b \<noteq> a" using om_key_unique [OF free_okD(1) [OF ok] a(1)] by auto
    then show False using free_neighbours [OF ok a(1) b(1)] b a by linarith
  qed
  with a show ?thesis by auto
qed

text \<open>Starting the search at the range in front of the first one behind \<open>search_start\<close> loses nothing.\<close>

lemma fits_in_drop:
  assumes ok: "free_ok m" and l: "l \<noteq> 0" and k: "k = om_upper_bound m start"
  shows "fits_in start be l al (set (drop (if k \<noteq> 0 then k - 1 else k) m)) x \<longleftrightarrow> fits_in start be l al (set m) x"
proof -
  let ?f = "if k \<noteq> 0 then k - 1 else k"
  have l0: "0 < unat l" using l by (simp add: unat_gt_0)
  have "p \<in> set (drop ?f m)" if p: "p \<in> set m" "unat start < unat (fst p) + unat (snd p)" for p
  proof -
    obtain i where i: "i < length m" "m ! i = p" using p(1) by (auto simp: in_set_conv_nth)
    have "?f \<le> i"
    proof (rule ccontr)
      assume "\<not> ?f \<le> i"
      then have less: "i < k - 1" "k \<noteq> 0" by (auto split: if_splits)
      then have j: "k - 1 < length m" using om_upper_bound_le [of m start] k by linarith
      have "fst (m ! (k - 1)) \<le> start" using om_upper_bound_nth [OF free_okD(1) [OF ok] j, of start] less k by simp
      moreover have "fst p < fst (m ! (k - 1))"
        using free_okD(1) [OF ok] i less j by (auto simp: om_ok_def sorted_wrt_iff_nth_less)
      moreover have "m ! (k - 1) \<in> set m" using j by simp
      ultimately have "unat (fst p) + unat (snd p) < unat start"
        using free_okD(4) [OF ok, of "fst p" "snd p" "fst (m ! (k - 1))" "snd (m ! (k - 1))"] p(1)
        by (simp add: word_le_nat_alt)
      with p(2) show False by simp
    qed
    then show ?thesis using i by (auto simp: in_set_conv_nth intro!: exI [of _ "i - ?f"])
  qed
  note sub = this
  have "\<exists>(a, n) \<in> set (drop ?f m). unat a \<le> x \<and> x + unat l \<le> unat a + unat n"
    if h: "(a, n) \<in> set m" "unat a \<le> x" "x + unat l \<le> unat a + unat n" "unat start \<le> x" for a n
    using sub [OF h(1)] h l0 by (intro bexI [of _ "(a, n)"]) auto
  moreover have "set (drop ?f m) \<subseteq> set m" by (rule set_drop_subset)
  ultimately show ?thesis unfolding fits_in_def by blast
qed

lemma alloc_okD:
  assumes "alloc_ok m"
  shows "om_ok m" "(a, n) \<in> set m \<Longrightarrow> al_size n \<noteq> 0" "(a, n) \<in> set m \<Longrightarrow> unat a + unat (al_size n) \<le> unat kDirectMemorySize"
    "(a, n) \<in> set m \<Longrightarrow> (b, k) \<in> set m \<Longrightarrow> a < b \<Longrightarrow> unat a + unat (al_size n) \<le> unat b"
  using assms unfolding alloc_ok_def by auto

lemma alloc_insert:
  fixes t :: int
  assumes ok: "alloc_ok m" and free: "\<forall>y t. unat s \<le> y \<and> y < unat s + unat l \<longrightarrow> \<not> owned m y t"
    and l: "l \<noteq> 0" and b: "unat s + unat l \<le> unat kDirectMemorySize"
  defines "m' \<equiv> om_emplace s \<lparr>al_size = l, al_memory_type = t\<rparr> m"
  shows "alloc_ok m'" "owned m' x u \<longleftrightarrow> owned m x u \<or> (unat s \<le> x \<and> x < unat s + unat l \<and> u = t)"
proof -
  have l0: "0 < unat l" using l by (simp add: unat_gt_0)
  have out: "\<not> (unat s \<le> y \<and> y < unat s + unat l)" if "(a, al) \<in> set m" "unat a \<le> y" "y < unat a + unat (al_size al)" for a al y
    using free that by (auto simp: owned_def)
  have pos: "0 < unat (al_size al)" if "(a, al) \<in> set m" for a al using alloc_okD(2) [OF ok that] by (simp add: unat_gt_0)
  have sep: "unat a + unat (al_size al) \<le> unat s \<or> unat s + unat l \<le> unat a" if "(a, al) \<in> set m" for a al
    using out [OF that, of "unat a"] out [OF that, of "unat s"] pos [OF that] l0 by linarith
  have "om_find m s = None" unfolding om_find_None_set using sep pos l0 by fastforce
  note S = set_om_emplace [OF alloc_okD(1) [OF ok] this, of "\<lparr>al_size = l, al_memory_type = t\<rparr>", folded m'_def]
  show "alloc_ok m'"
    unfolding alloc_ok_def S
  proof (intro conjI)
    show "om_ok m'" using alloc_okD(1) [OF ok] by (simp add: m'_def)
    show "\<forall>(a, al) \<in> insert (s, \<lparr>al_size = l, al_memory_type = t\<rparr>) (set m). al_size al \<noteq> 0 \<and> unat a + unat (al_size al) \<le> unat kDirectMemorySize"
      using l b alloc_okD(2,3) [OF ok] by auto
    show "\<forall>(a, al) \<in> insert (s, \<lparr>al_size = l, al_memory_type = t\<rparr>) (set m).
      \<forall>(b, bl) \<in> insert (s, \<lparr>al_size = l, al_memory_type = t\<rparr>) (set m). a < b \<longrightarrow> unat a + unat (al_size al) \<le> unat b"
    proof -
      have "unat s + unat l \<le> unat a" if "(a, al) \<in> set m" "s < a" for a al
        using sep [OF that(1)] pos [OF that(1)] that(2) unfolding word_less_nat_alt by linarith
      moreover have "unat a + unat (al_size al) \<le> unat s" if "(a, al) \<in> set m" "a < s" for a al
        using sep [OF that(1)] l0 that(2) unfolding word_less_nat_alt by linarith
      ultimately show ?thesis using alloc_okD(4) [OF ok] by auto
    qed
  qed
  show "owned m' x u \<longleftrightarrow> owned m x u \<or> (unat s \<le> x \<and> x < unat s + unat l \<and> u = t)"
    unfolding owned_def S by auto
qed

lemma dm_okD:
  assumes "dm_ok dm"
  shows "free_ok (dm_free_ranges dm)" "alloc_ok (dm_allocations dm)"
    "x < unat kDirectMemorySize \<Longrightarrow> in_free (dm_free_ranges dm) x \<longleftrightarrow> \<not> (\<exists>t. owned (dm_allocations dm) x t)"
    "sb_ok (dm_backing dm)" "sb_size (dm_backing dm) = kDirectMemorySize"
  using assms unfolding dm_ok_def by auto

definition allocatable :: "u64 \<Rightarrow> u64 \<Rightarrow> u64 \<Rightarrow> u64 \<Rightarrow> direct_memory \<Rightarrow> nat \<Rightarrow> bool" where
  "allocatable start end_address l al dm x \<longleftrightarrow> aligned_to al x \<and> unat start \<le> x \<and>
     x + unat l \<le> min (unat end_address) (unat kDirectMemorySize) \<and>
     (\<forall>y t. x \<le> y \<and> y < x + unat l \<longrightarrow> \<not> owned (dm_allocations dm) y t)"

lemma allocatable_fits:
  assumes ok: "dm_ok dm" and l: "l \<noteq> 0"
  shows "allocatable start e l al dm x \<longleftrightarrow> fits_in start (min e kDirectMemorySize) l al (set (dm_free_ranges dm)) x"
proof -
  have l0: "0 < unat l" using l by (simp add: unat_gt_0)
  have m: "unat (min e kDirectMemorySize) = min (unat e) (unat kDirectMemorySize)" by (simp add: min_def word_le_nat_alt)
  have "(\<forall>y t. x \<le> y \<and> y < x + unat l \<longrightarrow> \<not> owned (dm_allocations dm) y t) \<longleftrightarrow>
      (\<exists>(a, n) \<in> set (dm_free_ranges dm). unat a \<le> x \<and> x + unat l \<le> unat a + unat n)"
    if x: "x + unat l \<le> unat kDirectMemorySize"
  proof -
    have "in_free (dm_free_ranges dm) y \<longleftrightarrow> \<not> (\<exists>t. owned (dm_allocations dm) y t)" if "y < x + unat l" for y
      using dm_okD(3) [OF ok order.strict_trans2 [OF that x]] .
    then have "(\<forall>y t. x \<le> y \<and> y < x + unat l \<longrightarrow> \<not> owned (dm_allocations dm) y t) \<longleftrightarrow>
        (\<forall>y. x \<le> y \<and> y < x + unat l \<longrightarrow> in_free (dm_free_ranges dm) y)" by blast
    moreover have "in_free (dm_free_ranges dm) y" if "(a, n) \<in> set (dm_free_ranges dm)" "unat a \<le> x" "x + unat l \<le> unat a + unat n"
        "x \<le> y" "y < x + unat l" for a n y
      using that by (intro in_freeI [OF that(1)]) linarith+
    ultimately show ?thesis using free_contiguous [OF dm_okD(1) [OF ok] l0, of x] by blast
  qed
  note eq = this
  show ?thesis
  proof (cases "x + unat l \<le> min (unat e) (unat kDirectMemorySize)")
    case True
    then have "x + unat l \<le> unat kDirectMemorySize" by simp
    from eq [OF this] show ?thesis unfolding allocatable_def fits_in_def m by simp
  next
    case False
    then show ?thesis unfolding allocatable_def fits_in_def m by blast
  qed
qed

lemma free_ok_drop:
  assumes "free_ok m"
  shows "free_ok (drop k m)"
proof -
  have "om_ok (drop k m)" using free_okD(1) [OF assms] by (simp add: om_ok_def drop_map [symmetric] sorted_wrt_drop)
  moreover have "p \<in> set m" if "p \<in> set (drop k m)" for p using that by (rule in_set_dropD)
  ultimately show ?thesis using assms unfolding free_ok_def by blast
qed

lemma Allocate_found:
  fixes t :: int
  assumes ok: "dm_ok dm" and l: "l \<noteq> 0"
    and a: "(a, n) \<in> set (dm_free_ranges dm)" "unat a \<le> unat s" "unat s + unat l \<le> unat a + unat n"
  defines "dm' \<equiv> dm\<lparr>dm_free_ranges := ConsumeFreeRange (a, n) s l (dm_free_ranges dm),
      dm_allocations := om_emplace s \<lparr>al_size = l, al_memory_type = t\<rparr> (dm_allocations dm)\<rparr>"
  shows "dm_ok dm'" "owned (dm_allocations dm') x u \<longleftrightarrow>
    owned (dm_allocations dm) x u \<or> (unat s \<le> x \<and> x < unat s + unat l \<and> u = t)"
proof -
  have sz: "unat s + unat l \<le> unat kDirectMemorySize" using free_okD(3) [OF dm_okD(1) [OF ok] a(1)] a(3) by linarith
  have free: "\<forall>y t. unat s \<le> y \<and> y < unat s + unat l \<longrightarrow> \<not> owned (dm_allocations dm) y t"
  proof (intro allI impI)
    fix y t assume y: "unat s \<le> y \<and> y < unat s + unat l"
    then have "in_free (dm_free_ranges dm) y" using a by (intro in_freeI [OF a(1)]) linarith+
    then show "\<not> owned (dm_allocations dm) y t" using dm_okD(3) [OF ok, of y] y sz by auto
  qed
  note A = alloc_insert [OF dm_okD(2) [OF ok] free l sz, of t]
  note C = Consume_spec [OF dm_okD(1) [OF ok] a l]
  show "owned (dm_allocations dm') x u \<longleftrightarrow>
      owned (dm_allocations dm) x u \<or> (unat s \<le> x \<and> x < unat s + unat l \<and> u = t)"
    using A(2) by (simp add: dm'_def)
  have "in_free (dm_free_ranges dm') y \<longleftrightarrow> \<not> (\<exists>t. owned (dm_allocations dm') y t)" if y: "y < unat kDirectMemorySize" for y
    using dm_okD(3) [OF ok y] A(2) C(2) by (auto simp: dm'_def)
  then show "dm_ok dm'" using A(1) C(1) dm_okD(4,5) [OF ok] unfolding dm_ok_def by (simp add: dm'_def)
qed

lemma Allocate_result:
  assumes ok: "dm_ok dm" and A: "Allocate start e l al t dm = (r, dm')"
  shows "(dr_status r = kInvalidArgument \<and> dm' = dm \<and> (l = 0 \<or> e \<le> start)) \<or>
    (dr_status r = kNoResources \<and> dm' = dm \<and>
      (kMaximumDirectMemoryAllocations \<le> length (dm_allocations dm) \<or> (\<forall>x. \<not> allocatable start e l al dm x))) \<or>
    (dr_status r = kOk \<and> dr_size r = l \<and> allocatable start e l al dm (unat (dr_address r)) \<and>
      (\<forall>x. allocatable start e l al dm x \<longrightarrow> unat (dr_address r) \<le> x) \<and> dm_ok dm' \<and>
      (\<forall>x u. owned (dm_allocations dm') x u \<longleftrightarrow> owned (dm_allocations dm) x u \<or>
        (unat (dr_address r) \<le> x \<and> x < unat (dr_address r) + unat l \<and> u = t)))"
proof -
  let ?be = "min e kDirectMemorySize" and ?m = "dm_free_ranges dm"
  let ?k = "om_upper_bound ?m start"
  let ?f = "if ?k \<noteq> 0 then ?k - 1 else ?k"
  note D = A [unfolded Allocate_def Let_def]
  consider (arg) "l = 0 \<or> start \<ge> e"
    | (full) "\<not> (l = 0 \<or> start \<ge> e)" "start \<ge> ?be \<or> length (dm_allocations dm) \<ge> kMaximumDirectMemoryAllocations"
    | (run) "\<not> (l = 0 \<or> start \<ge> e)" "\<not> (start \<ge> ?be \<or> length (dm_allocations dm) \<ge> kMaximumDirectMemoryAllocations)"
    by blast
  then show ?thesis
  proof cases
    case arg
    then show ?thesis using D [unfolded if_P [OF arg]] by auto
  next
    case full
    have "\<not> allocatable start e l al dm x" if "start \<ge> ?be" for x
    proof -
      have "0 < unat l" "unat ?be \<le> unat start" using full that by (auto simp: unat_gt_0 word_le_nat_alt)
      moreover have "unat ?be = min (unat e) (unat kDirectMemorySize)" by (simp add: min_def word_le_nat_alt)
      ultimately show ?thesis unfolding allocatable_def by linarith
    qed
    then show ?thesis using D [unfolded if_not_P [OF full(1)] if_P [OF full(2)]] full(2) by auto
  next
    case run
    have l: "l \<noteq> 0" using run(1) by simp
    note F = fits_in_drop [OF dm_okD(1) [OF ok] l refl, of start ?be al] and B = allocatable_fits [OF ok l, of start e al]
    note S = Allocate_loop_spec [OF free_ok_drop [OF dm_okD(1) [OF ok], of ?f] l, of start ?be al, unfolded F B [symmetric]]
    note E = D [unfolded if_not_P [OF run(1)] if_not_P [OF run(2)]]
    show ?thesis
    proof (cases "Allocate_loop start ?be l al (drop ?f ?m)")
      case None
      then show ?thesis using E S by auto
    next
      case (Some q)
      then obtain a n s where q: "Allocate_loop start ?be l al (drop ?f ?m) = Some ((a, n), s)" by (metis surj_pair)
      then have a: "(a, n) \<in> set ?m" "unat a \<le> unat s" "unat s + unat l \<le> unat a + unat n"
        using S by (auto dest: in_set_dropD)
      have S': "allocatable start e l al dm (unat s)" "\<forall>x. allocatable start e l al dm x \<longrightarrow> unat s \<le> x" using S unfolding q by auto
      have E': "r = \<lparr>dr_status = kOk, dr_address = s, dr_size = l\<rparr>"
        "dm' = dm\<lparr>dm_free_ranges := ConsumeFreeRange (a, n) s l ?m,
          dm_allocations := om_emplace s \<lparr>al_size = l, al_memory_type = t\<rparr> (dm_allocations dm)\<rparr>"
        using E unfolding q by auto
      show ?thesis using S' Allocate_found [OF ok l a, of t] unfolding E' by simp
    qed
  qed
qed

section \<open>Release\<close>

lemma absorb_spec:
  assumes "free_ok rs" "unat e \<le> unat kDirectMemorySize"
  shows "case absorb e rs of (e', rest) \<Rightarrow> free_ok rest \<and> set rest \<subseteq> set rs \<and> unat e \<le> unat e' \<and>
    unat e' \<le> unat kDirectMemorySize \<and> (\<forall>(b, k) \<in> set rest. unat e' < unat b) \<and>
    (\<forall>x. in_free rs x \<and> unat e \<le> x \<longleftrightarrow> unat e \<le> x \<and> x < unat e' \<or> in_free rest x)"
  using assms
proof (induction e rs rule: absorb.induct)
  case (1 e)
  then show ?case by (simp add: in_free_def)
next
  case (2 e a n rs)
  note C = free_ok_Cons [OF 2(2)]
  have fr: "in_free ((a, n) # rs) x \<longleftrightarrow> unat a \<le> x \<and> x < unat a + unat n \<or> in_free rs x" for x
    by (auto simp: in_free_def)
  show ?case
  proof (cases "a \<le> e")
    case True
    let ?e = "max e (a + n)"
    have e: "unat ?e = max (unat e) (unat a + unat n)" by (simp add: C(3))
    have sz: "unat a + unat n \<le> unat kDirectMemorySize" using free_okD(3) [OF 2(2), of a n] by simp
    then have le: "unat ?e \<le> unat kDirectMemorySize" using 2(3) unfolding e by simp
    obtain e' rest where r: "absorb ?e rs = (e', rest)" by fastforce
    have IH: "free_ok rest" "set rest \<subseteq> set rs" "unat ?e \<le> unat e'" "unat e' \<le> unat kDirectMemorySize"
      "\<forall>(b, k) \<in> set rest. unat e' < unat b"
      "\<And>x. in_free rs x \<and> unat ?e \<le> x \<longleftrightarrow> unat ?e \<le> x \<and> x < unat e' \<or> in_free rest x"
      using 2(1) [OF True C(1) le] unfolding r by auto
    have behind: "unat a + unat n < x" if "in_free rs x" for x
      using that C(4) unfolding in_free_def by fastforce
    have "unat a \<le> unat e" using True by (simp add: word_le_nat_alt)
    then have "in_free ((a, n) # rs) x \<and> unat e \<le> x \<longleftrightarrow> unat e \<le> x \<and> x < unat e' \<or> in_free rest x" for x
      using IH(6) [of x] behind [of x] IH(3) unfolding fr e by linarith
    then show ?thesis using IH r True unfolding e by auto
  next
    case False
    then have a: "unat e < unat a" by (simp add: word_le_nat_alt)
    have keys: "unat e < unat b" if "(b, k) \<in> set ((a, n) # rs)" for b k
      using that a C(4) [of b k] by auto
    then have "in_free ((a, n) # rs) x \<Longrightarrow> unat e \<le> x" for x unfolding in_free_def by fastforce
    then show ?thesis using False 2(2,3) keys by auto
  qed
qed

lemma free_ok_append:
  assumes "free_ok xs" "free_ok ys" "\<forall>(a, n) \<in> set xs. \<forall>(b, k) \<in> set ys. unat a + unat n < unat b"
  shows "free_ok (xs @ ys)"
proof -
  have "a < b" if "(a, n) \<in> set xs" "(b, k) \<in> set ys" for a n b k
    using assms(3) that unfolding word_less_nat_alt by fastforce
  then have "om_ok (xs @ ys)"
    using free_okD(1) [OF assms(1)] free_okD(1) [OF assms(2)] by (fastforce simp: om_ok_def sorted_wrt_append)
  moreover have "unat a + unat n < unat b" if h: "(a, n) \<in> set (xs @ ys)" "(b, k) \<in> set (xs @ ys)" "a < b" for a n b k
  proof -
    consider "(a, n) \<in> set xs" "(b, k) \<in> set xs" | "(a, n) \<in> set xs" "(b, k) \<in> set ys"
      | "(a, n) \<in> set ys" "(b, k) \<in> set xs" | "(a, n) \<in> set ys" "(b, k) \<in> set ys" using h(1,2) by auto
    then show ?thesis
    proof cases
      case 3
      then have "unat b + unat k < unat a" using assms(3) by fastforce
      then show ?thesis using h(3) by (simp add: word_less_nat_alt)
    qed (use assms(3) free_okD(4) [OF assms(1)] free_okD(4) [OF assms(2)] h(3) in fastforce)+
  qed
  ultimately show ?thesis using assms(1,2) unfolding free_ok_def by auto
qed

lemma om_emplace_middle:
  assumes "\<forall>p \<in> set xs. fst p < k" "\<forall>p \<in> set ys. k < fst p"
  shows "om_emplace k v (xs @ ys) = xs @ (k, v) # ys"
proof -
  have "om_find (xs @ ys) k = None" using assms by (fastforce simp: om_find_None_set)
  moreover have "om_set k v ys = (k, v) # ys" using assms(2) by (cases ys) auto
  then have "om_set k v (xs @ ys) = xs @ (k, v) # ys" using assms(1) by (induction xs) auto
  ultimately show ?thesis by (simp add: om_emplace_def)
qed

lemma join_spec:
  assumes xs: "free_ok xs" "\<forall>(b, k) \<in> set xs. unat b + unat k < unat s" and ys: "free_ok ys" "\<forall>(b, k) \<in> set ys. unat s \<le> unat b"
    and e: "unat s < unat e" "unat e \<le> unat kDirectMemorySize" and a: "absorb e ys = (e', rest)"
  shows "free_ok (om_emplace s (e' - s) (xs @ rest))"
    "in_free (om_emplace s (e' - s) (xs @ rest)) x \<longleftrightarrow> in_free xs x \<or> (unat s \<le> x \<and> x < unat e) \<or> in_free ys x"
proof -
  have A: "free_ok rest" "set rest \<subseteq> set ys" "unat e \<le> unat e'" "unat e' \<le> unat kDirectMemorySize"
    "\<forall>(b, k) \<in> set rest. unat e' < unat b"
    "in_free ys x \<and> unat e \<le> x \<longleftrightarrow> unat e \<le> x \<and> x < unat e' \<or> in_free rest x"
    using absorb_spec [OF ys(1) e(2)] unfolding a by auto
  have u: "unat (e' - s) = unat e' - unat s" using A(3) e by (simp add: unat_sub_exact)
  have "om_emplace s (e' - s) (xs @ rest) = xs @ (s, e' - s) # rest"
    using xs(2) A(3,5) e by (intro om_emplace_middle) (fastforce simp: word_less_nat_alt)+
  note E = this
  have one: "free_ok [(s, e' - s)]" using u A(3,4) e by (auto simp: free_ok_def om_ok_def)
  have "free_ok ([(s, e' - s)] @ rest)"
    using one A(1) by (rule free_ok_append) (use A(3,5) e u in auto)
  then have "free_ok (xs @ [(s, e' - s)] @ rest)"
    using free_ok_append [OF xs(1)] xs(2) A(3,5) e by fastforce
  then show "free_ok (om_emplace s (e' - s) (xs @ rest))" unfolding E by simp
  have "in_free (xs @ (s, e' - s) # rest) x \<longleftrightarrow> in_free xs x \<or> (unat s \<le> x \<and> x < unat e') \<or> in_free rest x"
    using u A(3) e by (auto simp: in_free_def)
  moreover have "in_free ys x \<Longrightarrow> unat s \<le> x" using ys(2) unfolding in_free_def by fastforce
  ultimately show "in_free (om_emplace s (e' - s) (xs @ rest)) x \<longleftrightarrow> in_free xs x \<or> (unat s \<le> x \<and> x < unat e) \<or> in_free ys x"
    unfolding E using A(3,6) by linarith
qed

lemma free_ok_take:
  assumes "free_ok m"
  shows "free_ok (take k m)"
proof -
  have "om_ok (take k m)" using free_okD(1) [OF assms] by (simp add: om_ok_def take_map [symmetric] sorted_wrt_take)
  moreover have "p \<in> set m" if "p \<in> set (take k m)" for p using that by (rule in_set_takeD)
  ultimately show ?thesis using assms unfolding free_ok_def by blast
qed

lemma free_nth_end:
  assumes ok: "free_ok m" and i: "i < j" "j < length m"
  shows "unat (fst (m ! i)) + unat (snd (m ! i)) < unat (fst (m ! j))"
proof -
  have "fst (m ! i) < fst (m ! j)" using free_okD(1) [OF ok] i by (auto simp: om_ok_def sorted_wrt_iff_nth_less)
  then show ?thesis using free_okD(4) [OF ok, of "fst (m ! i)" "snd (m ! i)" "fst (m ! j)" "snd (m ! j)"] i by simp
qed

lemma free_behind:
  assumes ok: "free_ok m"
  shows "\<forall>(b, j) \<in> set (drop (om_lower_bound m s) m). unat s \<le> unat b"
proof
  let ?k = "om_lower_bound m s"
  fix p assume "p \<in> set (drop ?k m)"
  then obtain i where "?k + i < length m" "p = m ! (?k + i)"
    by (auto simp: in_set_conv_nth less_diff_conv add.commute)
  then show "case p of (b, j) \<Rightarrow> unat s \<le> unat b"
    using om_lower_bound_nth [OF free_okD(1) [OF ok], of "?k + i" s]
    by (cases p) (auto simp: word_less_nat_alt not_less)
qed

lemma free_before:
  assumes ok: "free_ok m" and alone: "\<not> (k \<noteq> 0 \<and> fst (m ! (k - 1)) + snd (m ! (k - 1)) \<ge> s)" and kl: "k \<le> length m"
  shows "\<forall>(b, j) \<in> set (take k m). unat b + unat j < unat s"
proof
  fix p assume "p \<in> set (take k m)"
  then obtain i where i: "i < k" "p = m ! i" by (auto simp: in_set_conv_nth)
  obtain a n where an: "m ! (k - 1) = (a, n)" by fastforce
  have k1: "k - 1 < length m" "k \<noteq> 0" using i kl by linarith+
  have "unat (a + n) = unat a + unat n" using free_okD(3) [OF ok, of a n] an nth_mem [OF k1(1)] by (simp add: unat_add_exact)
  then have last: "unat a + unat n < unat s" using alone k1 an by (simp add: word_le_nat_alt)
  have "unat (fst p) + unat (snd p) < unat s"
  proof (cases "i = k - 1")
    case True
    then show ?thesis using last an i by simp
  next
    case False
    then have "i < k - 1" using i by linarith
    from free_nth_end [OF ok this k1(1)] show ?thesis using i an last by simp
  qed
  then show "case p of (b, j) \<Rightarrow> unat b + unat j < unat s" by (cases p) simp
qed

lemma AddFreeRange_spec:
  assumes ok: "free_ok m" and l: "l \<noteq> 0" and sz: "unat s + unat l \<le> unat kDirectMemorySize"
  shows "free_ok (AddFreeRange s l m) \<and>
    (\<forall>x. in_free (AddFreeRange s l m) x \<longleftrightarrow> in_free m x \<or> (unat s \<le> x \<and> x < unat s + unat l))"
proof -
  define k where "k = om_lower_bound m s"
  define ys where "ys = drop k m"
  have l0: "0 < unat l" using l by (simp add: unat_gt_0)
  have u: "unat (s + l) = unat s + unat l" using sz by (simp add: unat_add_exact)
  have kl: "k \<le> length m" unfolding k_def by (rule om_lower_bound_le)
  have ysb: "\<forall>(b, j) \<in> set ys. unat s \<le> unat b" unfolding ys_def k_def by (rule free_behind [OF ok])
  have yso: "free_ok ys" unfolding ys_def by (rule free_ok_drop [OF ok])
  have eq: "in_free m x \<longleftrightarrow> in_free (take k m) x \<or> in_free ys x" for x
    by (metis (no_types, lifting) append_take_drop_id in_free_def Un_iff set_append ys_def)
  consider (merge) a n where "k \<noteq> 0" "m ! (k - 1) = (a, n)" "a + n \<ge> s"
    | (alone) "\<not> (k \<noteq> 0 \<and> fst (m ! (k - 1)) + snd (m ! (k - 1)) \<ge> s)"
    by (cases "m ! (k - 1)") auto
  then show ?thesis
  proof cases
    case merge
    have k1: "k - 1 < length m" using merge kl by linarith
    have a: "(a, n) \<in> set m" "a < s"
      using nth_mem [OF k1] merge om_lower_bound_nth [OF free_okD(1) [OF ok] k1, of s] k_def by auto
    have an: "unat (a + n) = unat a + unat n" "unat a + unat n \<le> unat kDirectMemorySize"
      using free_okD(3) [OF ok a(1)] by (simp_all add: unat_add_exact)
    have as: "unat a < unat s" "unat s \<le> unat a + unat n"
      using a(2) merge(3) an by (simp_all add: word_less_nat_alt word_le_nat_alt)
    let ?e = "max (s + l) (a + n)"
    have e: "unat ?e = max (unat s + unat l) (unat a + unat n)" by (simp add: u an)
    have e2: "unat a < unat ?e" "unat ?e \<le> unat kDirectMemorySize" using e as an sz l0 by linarith+
    have xs: "\<forall>(b, j) \<in> set (take (k - 1) m). unat b + unat j < unat a"
      using free_nth_end [OF ok _ k1] k1 merge(2) by (fastforce simp: in_set_conv_nth)
    have ysa: "\<forall>(b, j) \<in> set ys. unat a \<le> unat b" using ysb as(1) by fastforce
    have t: "take k m = take (k - 1) m @ [(a, n)]" using take_Suc_conv_app_nth [OF k1] merge by simp
    have "in_free (take k m) x \<longleftrightarrow> in_free (take (k - 1) m) x \<or> (unat a \<le> x \<and> x < unat a + unat n)" for x
      unfolding t by (auto simp: in_free_def)
    note eq' = eq [unfolded this]
    obtain e' rest where r: "absorb ?e ys = (e', rest)" by fastforce
    note J = join_spec [OF free_ok_take [OF ok] xs yso ysa e2 r]
    have A: "AddFreeRange s l m = om_emplace a (e' - a) (take (k - 1) m @ rest)"
      using merge r by (simp add: AddFreeRange_def Let_def k_def [symmetric] ys_def [symmetric])
    have "unat a \<le> x \<and> x < unat ?e \<longleftrightarrow> (unat a \<le> x \<and> x < unat a + unat n) \<or> (unat s \<le> x \<and> x < unat s + unat l)" for x
      using e as by linarith
    then show ?thesis unfolding A eq' J(2) using J(1) by blast
  next
    case alone
    obtain e' rest where r: "absorb (s + l) ys = (e', rest)" by fastforce
    have "unat s < unat (s + l)" "unat (s + l) \<le> unat kDirectMemorySize" using u sz l0 by linarith+
    note J = join_spec [OF free_ok_take [OF ok] free_before [OF ok alone kl] yso ysb this r, unfolded u]
    have A: "AddFreeRange s l m = om_emplace s (e' - s) (take k m @ rest)"
      unfolding AddFreeRange_def Let_def k_def [symmetric] ys_def [symmetric] if_not_P [OF alone] by (simp add: r)
    show ?thesis unfolding A eq J(2) using J(1) by blast
  qed
qed

lemma alloc_neighbours:
  assumes ok: "alloc_ok m" and a: "(a, n) \<in> set m" and b: "(b, k) \<in> set m" "b \<noteq> a"
  shows "unat b + unat (al_size k) \<le> unat a \<or> unat a + unat (al_size n) \<le> unat b"
  using alloc_okD(4) [OF ok a b(1)] alloc_okD(4) [OF ok b(1) a] b(2) by (metis linorder_less_linear)

lemma ownedI:
  "(a, n) \<in> set m \<Longrightarrow> unat a \<le> x \<Longrightarrow> x < unat a + unat (al_size n) \<Longrightarrow> owned m x (al_memory_type n)"
  by (auto simp: owned_def)

lemma alloc_hole:
  assumes ok: "alloc_ok m" and a: "(a, o1) \<in> set m" and n: "n = al_size o1"
    and h: "unat a \<le> unat s" "unat s + unat l \<le> unat a + unat n" "l \<noteq> 0"
  defines "m' \<equiv> hole a n s l (\<lambda>k. o1\<lparr>al_size := k\<rparr>) m"
  shows "alloc_ok m'" "owned m' x t \<longleftrightarrow> owned m x t \<and> \<not> (unat s \<le> x \<and> x < unat s + unat l)"
proof -
  have sz: "unat a + unat n \<le> unat kDirectMemorySize" using alloc_okD(3) [OF ok a] n by simp
  then have nov: "unat a + unat n < 18446744073709551616" by simp
  note U = part_units [OF nov h(1,2)] and nb = alloc_neighbours [OF ok a, folded n]
  have pos: "0 < unat (al_size k)" if "(b, k) \<in> set m" for b k using alloc_okD(2) [OF ok that] by (simp add: unat_gt_0)
  have gap: "\<forall>p \<in> set m. fst p \<noteq> a \<longrightarrow> \<not> (unat a < unat (fst p) \<and> unat (fst p) < unat a + unat n)"
    using nb by fastforce
  note H = hole_set [OF alloc_okD(1) [OF ok] nov h gap, of "\<lambda>k. o1\<lparr>al_size := k\<rparr>", folded m'_def]
  have lt: "a < s \<longleftrightarrow> unat a < unat s" "s + l < a + n \<longleftrightarrow> unat s + unat l < unat a + unat n"
    by (simp_all add: word_less_nat_alt U)
  have l0: "0 < unat l" using h(3) by (simp add: unat_gt_0)
  have mem: "(b, k) \<in> set m' \<longleftrightarrow> ((b, k) \<in> set m \<and> b \<noteq> a) \<or> (unat a < unat s \<and> b = a \<and> k = o1\<lparr>al_size := s - a\<rparr>) \<or>
      (unat s + unat l < unat a + unat n \<and> b = s + l \<and> k = o1\<lparr>al_size := a + n - (s + l)\<rparr>)" for b k
    unfolding H(2) by (auto simp: lt)
  have kinds: "(b, k) \<in> set m \<and> (unat b + unat (al_size k) \<le> unat a \<or> unat a + unat n \<le> unat b) \<and> 0 < unat (al_size k) \<or>
      (unat a < unat s \<and> unat b = unat a \<and> unat (al_size k) = unat s - unat a \<and> al_memory_type k = al_memory_type o1) \<or>
      (unat s + unat l < unat a + unat n \<and> unat b = unat s + unat l \<and> unat (al_size k) = unat a + unat n - (unat s + unat l) \<and>
        al_memory_type k = al_memory_type o1)"
    if "(b, k) \<in> set m'" for b k
    using that nb [of b k] pos [of b k] unfolding mem by (elim disjE conjE) (simp_all add: U)
  show "alloc_ok m'"
    unfolding alloc_ok_def
  proof (intro conjI ballI)
    show "om_ok m'" by (rule H(1))
  next
    fix p assume "p \<in> set m'"
    then obtain b k where p: "p = (b, k)" "(b, k) \<in> set m'" by (metis surj_pair)
    have "0 < unat (al_size k) \<and> unat b + unat (al_size k) \<le> unat kDirectMemorySize"
      using kinds [OF p(2)] alloc_okD(3) [OF ok, of b k] sz h by linarith
    then show "case p of (a, n) \<Rightarrow> al_size n \<noteq> 0 \<and> unat a + unat (al_size n) \<le> unat kDirectMemorySize" by (auto simp: p)
  next
    fix p assume "p \<in> set m'"
    then obtain b k where p: "p = (b, k)" "(b, k) \<in> set m'" by (metis surj_pair)
    have "unat b + unat (al_size k) \<le> unat c" if q: "(c, j) \<in> set m'" "unat b < unat c" for c j
    proof (cases "(b, k) \<in> set m \<and> (c, j) \<in> set m")
      case True
      then show ?thesis using alloc_okD(4) [OF ok, of b k c j] q(2) by (simp add: word_less_nat_alt)
    next
      case False
      from False kinds [OF p(2)] kinds [OF q(1)] q(2) show ?thesis using l0 h by linarith
    qed
    then show "case p of (a', n') \<Rightarrow> \<forall>(b, k) \<in> set m'. a' < b \<longrightarrow> unat a' + unat (al_size n') \<le> unat b"
      by (auto simp: p word_less_nat_alt)
  qed
  show "owned m' x t \<longleftrightarrow> owned m x t \<and> \<not> (unat s \<le> x \<and> x < unat s + unat l)"
  proof
    assume "owned m' x t"
    then obtain b k where b: "(b, k) \<in> set m'" "unat b \<le> x" "x < unat b + unat (al_size k)" "al_memory_type k = t" by (auto simp: owned_def)
    have "owned m x t" if "(b, k) \<in> set m" using that b by (auto simp: owned_def)
    moreover have "owned m x t" if "unat a \<le> x" "x < unat a + unat n" "al_memory_type o1 = t" using that a n by (auto simp: owned_def)
    ultimately show "owned m x t \<and> \<not> (unat s \<le> x \<and> x < unat s + unat l)" using kinds [OF b(1)] b(2-4) h by auto
  next
    assume o: "owned m x t \<and> \<not> (unat s \<le> x \<and> x < unat s + unat l)"
    then obtain b k where b: "(b, k) \<in> set m" "unat b \<le> x" "x < unat b + unat (al_size k)" "al_memory_type k = t" by (auto simp: owned_def)
    show "owned m' x t"
    proof (cases "b = a")
      case False
      then have "(b, k) \<in> set m'" using b mem by simp
      then show ?thesis using b by (auto simp: owned_def)
    next
      case True
      then have "k = o1" using om_key_unique [OF alloc_okD(1) [OF ok] a] b by simp
      then have t: "t = al_memory_type o1" "unat a \<le> x" "x < unat a + unat n" using b True n by auto
      show ?thesis
      proof (cases "x < unat s")
        case True
        then have "(a, o1\<lparr>al_size := s - a\<rparr>) \<in> set m'" using t mem by simp
        from ownedI [OF this, of x] show ?thesis using t True U by simp
      next
        case False
        then have x: "unat s + unat l \<le> x" using o by simp
        then have "(s + l, o1\<lparr>al_size := a + n - (s + l)\<rparr>) \<in> set m'" using t mem by simp
        from ownedI [OF this, of x] show ?thesis using t x U by simp
      qed
    qed
  qed
qed

lemma upper_owner:
  assumes ok: "alloc_ok m" and a: "(a, n) \<in> set m" "unat a \<le> unat s" "unat s < unat a + unat (al_size n)"
  shows "om_upper_bound m s \<noteq> 0 \<and> m ! (om_upper_bound m s - 1) = (a, n)"
proof -
  let ?k = "om_upper_bound m s"
  obtain i where i: "i < length m" "m ! i = (a, n)" using a(1) by (auto simp: in_set_conv_nth)
  have ik: "i < ?k" using om_upper_bound_nth [OF alloc_okD(1) [OF ok] i(1), of s] i a(2) by (simp add: word_le_nat_alt)
  have k1: "?k - 1 < length m" using ik om_upper_bound_le [of m s] by linarith
  obtain b j where b: "m ! (?k - 1) = (b, j)" by fastforce
  have bs: "unat b \<le> unat s" using om_upper_bound_nth [OF alloc_okD(1) [OF ok] k1, of s] ik b by (simp add: word_le_nat_alt)
  have "i = ?k - 1"
  proof (rule ccontr)
    assume "i \<noteq> ?k - 1"
    then have "i < ?k - 1" using ik by linarith
    then have "a < b" using alloc_okD(1) [OF ok] i b k1 by (fastforce simp: om_ok_def sorted_wrt_iff_nth_less)
    then have "unat a + unat (al_size n) \<le> unat b" using alloc_okD(4) [OF ok a(1), of b j] nth_mem [OF k1] b by simp
    then show False using bs a(3) by linarith
  qed
  then show ?thesis using i ik by auto
qed

definition held :: "u64 \<Rightarrow> u64 \<Rightarrow> direct_memory \<Rightarrow> bool" where
  "held s l dm \<longleftrightarrow> (\<exists>(a, n) \<in> set (dm_allocations dm). unat a \<le> unat s \<and> unat s + unat l \<le> unat a + unat (al_size n))"

lemma Release_found:
  assumes ok: "dm_ok dm" and a: "(a, n) \<in> set (dm_allocations dm)"
    and h: "unat a \<le> unat s" "unat s + unat l \<le> unat a + unat (al_size n)" "l \<noteq> 0"
  defines "dm' \<equiv> dm\<lparr>dm_allocations := hole a (al_size n) s l (\<lambda>k. n\<lparr>al_size := k\<rparr>) (dm_allocations dm),
      dm_free_ranges := AddFreeRange s l (dm_free_ranges dm), dm_backing := sb_Clear s l (dm_backing dm)\<rparr>"
  shows "dm_ok dm'"
    "owned (dm_allocations dm') x t \<longleftrightarrow> owned (dm_allocations dm) x t \<and> \<not> (unat s \<le> x \<and> x < unat s + unat l)"
    "sb_byte (dm_backing dm') y = (if unat s \<le> unat y \<and> unat y < unat s + unat l then 0 else sb_byte (dm_backing dm) y)"
proof -
  have sz: "unat s + unat l \<le> unat kDirectMemorySize" using alloc_okD(3) [OF dm_okD(2) [OF ok] a] h(2) by linarith
  note H = alloc_hole [OF dm_okD(2) [OF ok] a refl h]
  note F = AddFreeRange_spec [OF dm_okD(1) [OF ok] h(3) sz]
  have r: "unat s + unat l \<le> unat (sb_size (dm_backing dm))" using sz dm_okD(5) [OF ok] by simp
  note B = sb_Clear_spec [OF dm_okD(4) [OF ok] r]
  show "owned (dm_allocations dm') x t \<longleftrightarrow> owned (dm_allocations dm) x t \<and> \<not> (unat s \<le> x \<and> x < unat s + unat l)"
    using H(2) by (simp add: dm'_def)
  show "sb_byte (dm_backing dm') y = (if unat s \<le> unat y \<and> unat y < unat s + unat l then 0 else sb_byte (dm_backing dm) y)"
    using B(3) by (simp add: dm'_def)
  have "in_free (dm_free_ranges dm') y \<longleftrightarrow> \<not> (\<exists>t. owned (dm_allocations dm') y t)" if y: "y < unat kDirectMemorySize" for y
    using dm_okD(3) [OF ok y] H(2) F by (auto simp: dm'_def)
  then show "dm_ok dm'" using H(1) F B(1,2) dm_okD(5) [OF ok] unfolding dm_ok_def by (simp add: dm'_def)
qed

lemma range_test:
  fixes s l K :: u64
  shows "(l = 0 \<or> s \<ge> K \<or> l > K - s) \<longleftrightarrow> l = 0 \<or> unat K < unat s + unat l"
proof (cases "s \<ge> K")
  case True
  then show ?thesis using unat_gt_0 [of l] unfolding word_le_nat_alt by linarith
next
  case False
  then have "unat (K - s) = unat K - unat s" by (intro unat_sub_exact) (simp add: word_le_nat_alt)
  then show ?thesis using False unfolding word_less_nat_alt word_le_nat_alt by linarith
qed

lemma Release_owner:
  assumes ok: "dm_ok dm" and a: "(a, n) \<in> set (dm_allocations dm)"
    and k: "om_upper_bound (dm_allocations dm) s \<noteq> 0"
      "dm_allocations dm ! (om_upper_bound (dm_allocations dm) s - 1) = (a, n)"
    and args: "\<not> (l = 0 \<or> s \<ge> kDirectMemorySize \<or> l > kDirectMemorySize - s)" "\<not> HasMappedPhysicalOverlapLocked s l dm"
  shows "Release s l dm =
    (if \<not> (unat a \<le> unat s \<and> unat s + unat l \<le> unat a + unat (al_size n)) then (kNotFound, dm)
     else if s > a \<and> s + l < a + al_size n \<and> kMaximumDirectMemoryAllocations \<le> length (dm_allocations dm) then (kNoResources, dm)
     else (kOk, dm\<lparr>dm_allocations := hole a (al_size n) s l (\<lambda>k. n\<lparr>al_size := k\<rparr>) (dm_allocations dm),
       dm_free_ranges := AddFreeRange s l (dm_free_ranges dm), dm_backing := sb_Clear s l (dm_backing dm)\<rparr>))"
proof -
  have sz: "unat s + unat l \<le> unat kDirectMemorySize" using args(1) unfolding range_test by simp
  have u: "unat (s + l) = unat s + unat l" "unat (a + al_size n) = unat a + unat (al_size n)"
    using sz alloc_okD(3) [OF dm_okD(2) [OF ok] a] by (simp_all add: unat_add_exact)
  have "s < a \<or> s + l > a + al_size n \<longleftrightarrow> \<not> (unat a \<le> unat s \<and> unat s + unat l \<le> unat a + unat (al_size n))"
    unfolding word_less_nat_alt u by linarith
  then show ?thesis
    unfolding Release_def if_not_P [OF args(1)] if_not_P [OF args(2)] hole_def Let_def if_not_P [OF k(1)] k(2) by simp
qed

lemma held_owner:
  assumes ok: "dm_ok dm" and l: "l \<noteq> 0" and h: "held s l dm"
  shows "\<exists>a n. om_upper_bound (dm_allocations dm) s \<noteq> 0 \<and>
    dm_allocations dm ! (om_upper_bound (dm_allocations dm) s - 1) = (a, n) \<and>
    unat a \<le> unat s \<and> unat s + unat l \<le> unat a + unat (al_size n)"
proof -
  obtain a n where a: "(a, n) \<in> set (dm_allocations dm)" "unat a \<le> unat s" "unat s + unat l \<le> unat a + unat (al_size n)"
    using h by (auto simp: held_def)
  have "unat s < unat a + unat (al_size n)" using a(3) l unat_gt_0 [of l] by linarith
  from upper_owner [OF dm_okD(2) [OF ok] a(1,2) this] show ?thesis using a by auto
qed

lemma upper_mem: "om_upper_bound m s \<noteq> 0 \<Longrightarrow> m ! (om_upper_bound m s - 1) \<in> set m"
  using om_upper_bound_le [of m s] by (intro nth_mem) linarith

lemma Release_cases:
  assumes ok: "dm_ok dm" and R: "Release s l dm = (st, dm')"
  shows "(st = kInvalidArgument \<and> dm' = dm \<and> (l = 0 \<or> unat kDirectMemorySize < unat s + unat l)) \<or>
    (st = kBusy \<and> dm' = dm \<and> HasMappedPhysicalOverlapLocked s l dm) \<or>
    (st = kNotFound \<and> dm' = dm \<and> \<not> held s l dm) \<or>
    (st = kNoResources \<and> dm' = dm \<and> kMaximumDirectMemoryAllocations \<le> length (dm_allocations dm)) \<or>
    (st = kOk \<and> l \<noteq> 0 \<and> \<not> HasMappedPhysicalOverlapLocked s l dm \<and> held s l dm \<and> dm_ok dm' \<and>
      (\<forall>x t. owned (dm_allocations dm') x t \<longleftrightarrow> owned (dm_allocations dm) x t \<and> \<not> (unat s \<le> x \<and> x < unat s + unat l)) \<and>
      (\<forall>y. sb_byte (dm_backing dm') y = (if unat s \<le> unat y \<and> unat y < unat s + unat l then 0 else sb_byte (dm_backing dm) y)))"
proof -
  let ?m = "dm_allocations dm"
  let ?k = "om_upper_bound ?m s"
  consider (arg) "l = 0 \<or> s \<ge> kDirectMemorySize \<or> l > kDirectMemorySize - s"
    | (busy) "\<not> (l = 0 \<or> s \<ge> kDirectMemorySize \<or> l > kDirectMemorySize - s)" "HasMappedPhysicalOverlapLocked s l dm"
    | (run) "\<not> (l = 0 \<or> s \<ge> kDirectMemorySize \<or> l > kDirectMemorySize - s)" "\<not> HasMappedPhysicalOverlapLocked s l dm"
    by blast
  then show ?thesis
  proof cases
    case arg
    then show ?thesis using R [unfolded Release_def if_P [OF arg]] range_test [of l kDirectMemorySize s] by auto
  next
    case busy
    then show ?thesis using R [unfolded Release_def if_not_P [OF busy(1)]] by auto
  next
    case run
    have l: "l \<noteq> 0" using run(1) by simp
    show ?thesis
    proof (cases "?k = 0")
      case True
      have "\<not> held s l dm" using held_owner [OF ok l, of s] True by auto
      then show ?thesis using R [unfolded Release_def if_not_P [OF run(1)] if_not_P [OF run(2)] Let_def if_P [OF True]] by auto
    next
      case k: False
      obtain a n where a: "?m ! (?k - 1) = (a, n)" by fastforce
      have mem: "(a, n) \<in> set ?m" using upper_mem [OF k] a by simp
      have iff: "held s l dm \<longleftrightarrow> unat a \<le> unat s \<and> unat s + unat l \<le> unat a + unat (al_size n)"
        using held_owner [OF ok l, of s] a mem by (auto simp: held_def)
      note E = R [unfolded Release_owner [OF ok mem k a run], folded iff]
      show ?thesis
      proof (cases "held s l dm")
        case True
        then have h: "unat a \<le> unat s" "unat s + unat l \<le> unat a + unat (al_size n)"
          using iff by auto
        show ?thesis using E True l run(2) Release_found [OF ok mem h l] by (auto split: if_splits)
      next
        case False
        then show ?thesis using E by auto
      qed
    qed
  qed
qed

section \<open>Reachable states\<close>

lemma new_direct_memory_ok: "dm_ok new_direct_memory"
proof -
  have "free_ok (dm_free_ranges new_direct_memory)" by (simp add: new_direct_memory_def om_emplace_def free_ok_def om_ok_def)
  moreover have "alloc_ok (dm_allocations new_direct_memory)" by (simp add: new_direct_memory_def alloc_ok_def)
  moreover have "in_free (dm_free_ranges new_direct_memory) x" if "x < unat kDirectMemorySize" for x
    using that by (simp add: new_direct_memory_def om_emplace_def in_free_def)
  ultimately show ?thesis by (simp add: dm_ok_def owned_def new_direct_memory_def new_backing_def sb_ok_def)
qed

inductive dm_reachable :: "direct_memory \<Rightarrow> bool" where
  start: "dm_reachable new_direct_memory"
| allocate: "dm_reachable dm \<Longrightarrow> dm_reachable (snd (Allocate start e l al t dm))"
| release: "dm_reachable dm \<Longrightarrow> dm_reachable (snd (Release start l dm))"
| register: "dm_reachable dm \<Longrightarrow> dm_reachable (snd (RegisterMapping g p l dm))"
| unregister: "dm_reachable dm \<Longrightarrow> dm_reachable (UnregisterMappings g l dm)"
| store: "dm_reachable dm \<Longrightarrow> sb_ok b \<Longrightarrow> sb_size b = kDirectMemorySize \<Longrightarrow> dm_reachable (dm\<lparr>dm_backing := b\<rparr>)"

lemma Allocate_ok: "dm_ok dm \<Longrightarrow> dm_ok (snd (Allocate start e l al t dm))"
  using Allocate_result [of dm start e l al t] by (cases "Allocate start e l al t dm") auto

lemma Release_ok: "dm_ok dm \<Longrightarrow> dm_ok (snd (Release s l dm))"
  using Release_cases [of dm s l] by (cases "Release s l dm") auto

lemma mappings_irrelevant:
  "dm_ok (dm\<lparr>dm_mappings := ms\<rparr>) \<longleftrightarrow> dm_ok dm"
  by (simp add: dm_ok_def)

lemma RegisterMapping_ok: "dm_ok (snd (RegisterMapping g p l dm)) \<longleftrightarrow> dm_ok dm"
  by (simp add: RegisterMapping_def Let_def mappings_irrelevant)

lemma UnregisterMappings_ok: "dm_ok (UnregisterMappings g l dm) \<longleftrightarrow> dm_ok dm"
  by (simp add: UnregisterMappings_def mappings_irrelevant)

lemma reachable_ok: "dm_reachable dm \<Longrightarrow> dm_ok dm"
proof (induction rule: dm_reachable.induct)
  case (store dm b)
  then show ?case by (simp add: dm_ok_def)
qed (simp_all add: new_direct_memory_ok Allocate_ok Release_ok RegisterMapping_ok UnregisterMappings_ok)

lemma owned_unique:
  assumes ok: "alloc_ok m" and o: "owned m x t" "owned m x u"
  shows "t = u"
proof -
  obtain a n where a: "(a, n) \<in> set m" "unat a \<le> x" "x < unat a + unat (al_size n)" "al_memory_type n = t"
    using o(1) by (auto simp: owned_def)
  obtain b k where b: "(b, k) \<in> set m" "unat b \<le> x" "x < unat b + unat (al_size k)" "al_memory_type k = u"
    using o(2) by (auto simp: owned_def)
  have "b = a" using alloc_neighbours [OF ok a(1) b(1)] a b by linarith
  then have "k = n" using om_key_unique [OF alloc_okD(1) [OF ok]] a b by simp
  then show ?thesis using a b by simp
qed

section \<open>Properties\<close>

text \<open>
  C32: whatever the sequence of allocations, releases, registrations, unregistrations and stores,
  every physical address is either in a free range or in an allocation, never in both and never in
  none, and the allocation it is in determines its memory type.
\<close>

theorem direct_memory_partition:
  assumes "dm_reachable dm" "x < unat kDirectMemorySize"
  shows "in_free (dm_free_ranges dm) x \<noteq> (\<exists>t. owned (dm_allocations dm) x t) \<and>
    (\<forall>t u. owned (dm_allocations dm) x t \<longrightarrow> owned (dm_allocations dm) x u \<longrightarrow> t = u)"
  using dm_okD(3) [OF reachable_ok [OF assms(1)] assms(2)] owned_unique [OF dm_okD(2) [OF reachable_ok [OF assms(1)]]]
  by auto

definition one_block :: direct_memory where
  "one_block = snd (Allocate 0x1000 0x8000 0x4000 0x2000 3 new_direct_memory)"

lemma one_block_eval:
  "Allocate 0x1000 0x8000 0x4000 0x2000 3 new_direct_memory =
     (\<lparr>dr_status = kOk, dr_address = 0x2000, dr_size = 0x4000\<rparr>, one_block)"
  "dm_allocations one_block = [(0x2000, \<lparr>al_size = 0x4000, al_memory_type = 3\<rparr>)]"
  "dm_free_ranges one_block = [(0, 0x2000), (0x6000, 0x35FFFA000)]" "dm_mappings one_block = []"
  by (simp_all add: one_block_def Allocate_def new_direct_memory_def om_emplace_def om_upper_bound_def om_erase_def
      om_find_Cons AlignUp_def ConsumeFreeRange_def Let_def)

lemma one_block_reachable: "dm_reachable one_block"
  unfolding one_block_def by (intro dm_reachable.intros)

theorem direct_memory_partition_witness:
  "dm_reachable one_block \<and> owned (dm_allocations one_block) 0x2000 3 \<and> \<not> in_free (dm_free_ranges one_block) 0x2000"
proof -
  have "owned (dm_allocations one_block) 0x2000 3" by (simp add: one_block_eval owned_def)
  then show ?thesis using direct_memory_partition [OF one_block_reachable, of "0x2000"] one_block_reachable by auto
qed

text \<open>
  C31: allocation is first fit. A successful \<open>Allocate\<close> returns the lowest aligned address of the
  search window at which the whole block is unowned, and changes ownership of that block only; it
  fails with \<open>kNoResources\<close> only if the table is full or no address of the window would do.
\<close>

theorem allocate_is_first_fit:
  assumes "dm_reachable dm" "Allocate start e l al t dm = (r, dm')"
  shows "(dr_status r = kInvalidArgument \<and> dm' = dm \<and> (l = 0 \<or> e \<le> start)) \<or>
    (dr_status r = kNoResources \<and> dm' = dm \<and>
      (kMaximumDirectMemoryAllocations \<le> length (dm_allocations dm) \<or> (\<forall>x. \<not> allocatable start e l al dm x))) \<or>
    (dr_status r = kOk \<and> dr_size r = l \<and> allocatable start e l al dm (unat (dr_address r)) \<and>
      (\<forall>x. allocatable start e l al dm x \<longrightarrow> unat (dr_address r) \<le> x) \<and> dm_reachable dm' \<and>
      (\<forall>x u. owned (dm_allocations dm') x u \<longleftrightarrow> owned (dm_allocations dm) x u \<or>
        (unat (dr_address r) \<le> x \<and> x < unat (dr_address r) + unat l \<and> u = t)))"
  using Allocate_result [OF reachable_ok [OF assms(1)] assms(2)] dm_reachable.allocate [OF assms(1), of start e l al t] assms(2)
  by auto

theorem allocate_is_first_fit_witness:
  "dm_reachable new_direct_memory \<and> allocatable 0x1000 0x8000 0x4000 0x2000 new_direct_memory 0x2000 \<and>
   \<not> allocatable 0x1000 0x8000 0x4000 0x2000 new_direct_memory 0x1000"
  using allocate_is_first_fit [OF dm_reachable.start one_block_eval(1)] dm_reachable.start by fastforce

text \<open>
  C33: release gives back exactly the named range. It succeeds only on a range inside one allocation
  that no mapping overlaps; then the range, and nothing else, stops being owned, and its bytes in
  the backing read as zero while all others keep their value. Every failure leaves the state alone
  and names its cause.
\<close>

theorem release_frees_exactly_the_range:
  assumes "dm_reachable dm" "Release s l dm = (st, dm')"
  shows "(st = kInvalidArgument \<and> dm' = dm \<and> (l = 0 \<or> unat kDirectMemorySize < unat s + unat l)) \<or>
    (st = kBusy \<and> dm' = dm \<and> HasMappedPhysicalOverlapLocked s l dm) \<or>
    (st = kNotFound \<and> dm' = dm \<and> \<not> held s l dm) \<or>
    (st = kNoResources \<and> dm' = dm \<and> kMaximumDirectMemoryAllocations \<le> length (dm_allocations dm)) \<or>
    (st = kOk \<and> l \<noteq> 0 \<and> \<not> HasMappedPhysicalOverlapLocked s l dm \<and> held s l dm \<and> dm_reachable dm' \<and>
      (\<forall>x t. owned (dm_allocations dm') x t \<longleftrightarrow> owned (dm_allocations dm) x t \<and> \<not> (unat s \<le> x \<and> x < unat s + unat l)) \<and>
      (\<forall>y. sb_byte (dm_backing dm') y = (if unat s \<le> unat y \<and> unat y < unat s + unat l then 0 else sb_byte (dm_backing dm) y)))"
  using Release_cases [OF reachable_ok [OF assms(1)] assms(2)] dm_reachable.release [OF assms(1), of s l] assms(2)
  by auto

lemma release_eval: "fst (Release 0x3000 0x1000 one_block) = kOk"
  by (simp add: Release_def HasMappedPhysicalOverlapLocked_def om_upper_bound_def one_block_eval)

theorem release_frees_exactly_the_range_witness:
  "dm_reachable one_block \<and> held 0x3000 0x1000 one_block \<and>
   \<not> owned (dm_allocations (snd (Release 0x3000 0x1000 one_block))) 0x3000 3 \<and>
   owned (dm_allocations (snd (Release 0x3000 0x1000 one_block))) 0x4000 3"
proof -
  obtain dm' where R: "Release 0x3000 0x1000 one_block = (kOk, dm')" using release_eval by (metis prod.collapse)
  note F = release_frees_exactly_the_range [OF one_block_reachable R]
  have "owned (dm_allocations one_block) 0x4000 3" by (simp add: owned_def one_block_eval)
  then show ?thesis using F one_block_reachable by (simp add: R)
qed

section \<open>The allocation test\<close>

text \<open>
  \<open>ContainsAllocatedRange\<close> is right when the range starts in an allocation. When it starts behind
  the last allocation in front of it, the subtraction in its bound wraps around and the answer is
  true for memory nobody owns.
\<close>

lemma contains_allocated_when_owned:
  assumes ok: "dm_ok dm" and o: "owned (dm_allocations dm) (unat s) t" and l: "l \<noteq> 0"
    "unat s + unat l \<le> unat kDirectMemorySize"
  shows "ContainsAllocatedRange s l dm \<longleftrightarrow> held s l dm"
proof -
  obtain a n where a: "(a, n) \<in> set (dm_allocations dm)" "unat a \<le> unat s" "unat s < unat a + unat (al_size n)"
    using o by (auto simp: owned_def)
  note up = upper_owner [OF dm_okD(2) [OF ok] a]
  have u: "unat (a + al_size n - s) = unat a + unat (al_size n) - unat s"
    using a alloc_okD(3) [OF dm_okD(2) [OF ok] a(1)] by (simp add: unat_sub_exact unat_add_exact)
  have "\<not> (l = 0 \<or> s \<ge> kDirectMemorySize \<or> l > kDirectMemorySize - s)" unfolding range_test using l by simp
  then have "ContainsAllocatedRange s l dm \<longleftrightarrow> a \<le> s \<and> l \<le> a + al_size n - s"
    unfolding ContainsAllocatedRange_def ContainsAllocatedRangeLocked_def Let_def using up by auto
  also have "\<dots> \<longleftrightarrow> unat s + unat l \<le> unat a + unat (al_size n)" unfolding word_le_nat_alt u using a by linarith
  also have "\<dots> \<longleftrightarrow> held s l dm" using held_owner [OF ok l(1), of s] up a by (auto simp: held_def)
  finally show ?thesis .
qed

text \<open>
  C34: with one allocation at 0x2000 of 0x4000 bytes, the test answers true for 0x1000 bytes at
  0x8000, which nobody owns, and a mapping of them is registered.
\<close>

theorem contains_allocated_range_wraps:
  "dm_reachable one_block \<and> \<not> (\<exists>t. owned (dm_allocations one_block) 0x8000 t) \<and>
   ContainsAllocatedRange 0x8000 0x1000 one_block \<and>
   fst (RegisterMapping 0x400000 0x8000 0x1000 one_block) = kOk"
proof -
  have "ContainsAllocatedRangeLocked 0x8000 0x1000 one_block"
    by (simp add: ContainsAllocatedRangeLocked_def om_upper_bound_def one_block_eval)
  moreover from this have "ContainsAllocatedRange 0x8000 0x1000 one_block" by (simp add: ContainsAllocatedRange_def)
  moreover have "fst (RegisterMapping 0x400000 0x8000 0x1000 one_block) = kOk"
    using calculation(1) by (simp add: RegisterMapping_def one_block_eval)
  ultimately show ?thesis using one_block_reachable by (simp add: one_block_eval owned_def)
qed

end
