(* ===== verification/Static_Tls_Layout.thy ===== *)
theory Static_Tls_Layout
  imports Ordered_Map
begin

text \<open>
  The static thread-local storage layout (\<open>loader/static_tls_layout.cpp\<close>): modules are registered in
  the order of their identifiers, and each gets the offset of its block below the thread pointer.
\<close>

section \<open>State and operations\<close>

abbreviation kDefaultStaticTlsReservation :: u64 where
  "kDefaultStaticTlsReservation \<equiv> 0x20000"

datatype static_tls_layout_status =
  kTlsOk | kInvalidModuleId | kInvalidMemorySize | kInvalidAlignment | kLayoutOverflow
  | kReservationExceeded | kModuleOrderInvalid | kModuleConflict

record static_tls_module =
  tm_module_id :: u64
  tm_memory_size :: u64
  tm_alignment :: u64
  tm_alignment_bias :: u64
  tm_static_offset :: u64

record static_tls_registration_result =
  tr_status :: static_tls_layout_status
  tr_module :: static_tls_module

record static_tls_layout =
  tl_reservation :: u64
  tl_total_size :: u64
  tl_maximum_alignment :: u64
  tl_modules :: "(u64, static_tls_module) omap"

definition default_tls_module :: static_tls_module where
  "default_tls_module = \<lparr>tm_module_id = 0, tm_memory_size = 0, tm_alignment = 1, tm_alignment_bias = 0,
     tm_static_offset = 0\<rparr>"

definition new_static_tls_layout :: "u64 \<Rightarrow> static_tls_layout" where
  "new_static_tls_layout reservation =
     \<lparr>tl_reservation = reservation, tl_total_size = 0, tl_maximum_alignment = 1, tl_modules = []\<rparr>"

definition tls_failure :: "static_tls_layout_status \<Rightarrow> static_tls_registration_result" where
  "tls_failure status = \<lparr>tr_status = status, tr_module = default_tls_module\<rparr>"

definition RegisterModule ::
  "u64 \<Rightarrow> u64 \<Rightarrow> u64 \<Rightarrow> u64 \<Rightarrow> static_tls_layout \<Rightarrow> static_tls_registration_result \<times> static_tls_layout" where
  "RegisterModule module_id memory_size alignment alignment_bias layout =
     (if module_id = 0 then (tls_failure kInvalidModuleId, layout)
      else if memory_size = 0 then (tls_failure kInvalidMemorySize, layout)
      else
        let normalized_alignment = (if alignment = 0 then 1 else alignment) in
        if (normalized_alignment AND (normalized_alignment - 1)) \<noteq> 0 then (tls_failure kInvalidAlignment, layout)
        else
          let normalized_bias = (alignment_bias AND (normalized_alignment - 1)) in
          case om_find (tl_modules layout) module_id of
            Some module \<Rightarrow>
              (if tm_memory_size module \<noteq> memory_size \<or> tm_alignment module \<noteq> normalized_alignment \<or>
                  tm_alignment_bias module \<noteq> normalized_bias
               then (\<lparr>tr_status = kModuleConflict, tr_module = module\<rparr>, layout)
               else (\<lparr>tr_status = kTlsOk, tr_module = module\<rparr>, layout))
          | None \<Rightarrow>
              if tl_modules layout \<noteq> [] \<and> module_id \<le> fst (last (tl_modules layout))
              then (tls_failure kModuleOrderInvalid, layout)
              else if memory_size > u64_max - tl_total_size layout \<or>
                      normalized_alignment - 1 > u64_max - tl_total_size layout - memory_size
              then (tls_failure kLayoutOverflow, layout)
              else
                let candidate = tl_total_size layout + memory_size + normalized_alignment - 1;
                    remainder = (((candidate AND (normalized_alignment - 1)) + normalized_bias) AND
                                 (normalized_alignment - 1));
                    static_offset = candidate - remainder
                in if static_offset > tl_reservation layout then (tls_failure kReservationExceeded, layout)
                   else
                     let module = \<lparr>tm_module_id = module_id, tm_memory_size = memory_size,
                           tm_alignment = normalized_alignment, tm_alignment_bias = normalized_bias,
                           tm_static_offset = static_offset\<rparr>
                     in (\<lparr>tr_status = kTlsOk, tr_module = module\<rparr>,
                         layout\<lparr>tl_modules := om_emplace module_id module (tl_modules layout),
                           tl_total_size := static_offset,
                           tl_maximum_alignment := max (tl_maximum_alignment layout) normalized_alignment\<rparr>))"

definition FindModule :: "u64 \<Rightarrow> static_tls_layout \<Rightarrow> static_tls_module option" where
  "FindModule module_id layout = om_find (tl_modules layout) module_id"

definition total_size :: "static_tls_layout \<Rightarrow> u64" where
  "total_size layout = tl_total_size layout"

definition maximum_alignment :: "static_tls_layout \<Rightarrow> u64" where
  "maximum_alignment layout = tl_maximum_alignment layout"

definition module_count :: "static_tls_layout \<Rightarrow> nat" where
  "module_count layout = length (tl_modules layout)"

fun StaticTlsLayoutStatusName :: "static_tls_layout_status \<Rightarrow> string" where
  "StaticTlsLayoutStatusName kTlsOk = ''ok''"
| "StaticTlsLayoutStatusName kInvalidModuleId = ''invalid-module-id''"
| "StaticTlsLayoutStatusName kInvalidMemorySize = ''invalid-memory-size''"
| "StaticTlsLayoutStatusName kInvalidAlignment = ''invalid-alignment''"
| "StaticTlsLayoutStatusName kLayoutOverflow = ''layout-overflow''"
| "StaticTlsLayoutStatusName kReservationExceeded = ''reservation-exceeded''"
| "StaticTlsLayoutStatusName kModuleOrderInvalid = ''module-order-invalid''"
| "StaticTlsLayoutStatusName kModuleConflict = ''module-conflict''"

section \<open>Invariant\<close>

text \<open>
  The block of a module is the \<open>memory_size\<close> bytes that start \<open>static_offset\<close> bytes below the thread
  pointer.
\<close>

definition tls_module_ok :: "static_tls_module \<Rightarrow> bool" where
  "tls_module_ok m \<longleftrightarrow> tm_memory_size m \<noteq> 0 \<and> is_power_of_two (tm_alignment m) \<and>
     tm_alignment_bias m < tm_alignment m \<and>
     unat (tm_memory_size m) \<le> unat (tm_static_offset m) \<and>
     unat (tm_alignment m) dvd unat (tm_static_offset m) + unat (tm_alignment_bias m)"

definition tls_ok :: "static_tls_layout \<Rightarrow> bool" where
  "tls_ok L \<longleftrightarrow> om_ok (tl_modules L) \<and> tl_total_size L \<le> tl_reservation L \<and>
     (\<forall>(k, m) \<in> set (tl_modules L). k \<noteq> 0 \<and> tm_module_id m = k \<and> tls_module_ok m \<and>
        tm_static_offset m \<le> tl_total_size L \<and> tm_alignment m \<le> tl_maximum_alignment L) \<and>
     (\<forall>(k, m) \<in> set (tl_modules L). \<forall>(j, n) \<in> set (tl_modules L). k < j \<longrightarrow>
        unat (tm_static_offset m) + unat (tm_memory_size n) \<le> unat (tm_static_offset n))"

lemma nat_tls_offset:
  fixes t s p b :: nat
  assumes p: "0 < p"
  defines "c \<equiv> t + s + (p - 1)"
  defines "o1 \<equiv> c - (c mod p + b) mod p"
  shows "t + s \<le> o1" "o1 \<le> c" "p dvd o1 + b" "t + s \<le> y \<Longrightarrow> p dvd y + b \<Longrightarrow> o1 \<le> y"
proof -
  define r where "r = (c + b) mod p"
  have r: "(c mod p + b) mod p = r" by (simp add: r_def mod_add_left_eq)
  have rp: "r < p" using p by (simp add: r_def)
  have pc: "p - 1 \<le> c" by (simp add: c_def)
  have o: "o1 + r = c" using rp pc unfolding o1_def r by linarith
  show "t + s \<le> o1" using o rp unfolding c_def by linarith
  show "o1 \<le> c" using o by linarith
  have e: "o1 + b = (c + b) - r" using o by linarith
  show "p dvd o1 + b" unfolding e r_def by (rule dvd_minus_mod)
  have "o1 + b = (t + s + b + (p - 1)) div p * p"
    unfolding e r_def c_def by (simp add: minus_mod_eq_div_mult add.commute add.left_commute)
  then show "t + s \<le> y \<Longrightarrow> p dvd y + b \<Longrightarrow> o1 \<le> y"
    using nat_round_up(3) [OF p, of "y + b" "t + s + b"] by linarith
qed

text \<open>What a registration of a new module establishes.\<close>

definition registered :: "u64 \<Rightarrow> u64 \<Rightarrow> u64 \<Rightarrow> u64 \<Rightarrow> static_tls_layout \<Rightarrow> static_tls_module \<Rightarrow> static_tls_layout \<Rightarrow> bool" where
  "registered i s al b L m L' \<longleftrightarrow>
     L' = L\<lparr>tl_modules := om_emplace i m (tl_modules L), tl_total_size := tm_static_offset m,
       tl_maximum_alignment := max (tl_maximum_alignment L) (tm_alignment m)\<rparr> \<and>
     i \<noteq> 0 \<and> om_find (tl_modules L) i = None \<and> (tl_modules L \<noteq> [] \<longrightarrow> fst (last (tl_modules L)) < i) \<and>
     tm_module_id m = i \<and> tm_memory_size m = s \<and> tm_alignment m = (if al = 0 then 1 else al) \<and>
     tls_module_ok m \<and> tm_static_offset m \<le> tl_reservation L \<and>
     unat (tl_total_size L) + unat s \<le> unat (tm_static_offset m) \<and>
     (\<forall>y. unat (tl_total_size L) + unat s \<le> y \<and> unat (tm_alignment m) dvd y + unat (tm_alignment_bias m) \<longrightarrow>
        unat (tm_static_offset m) \<le> y)"

lemma tls_offset:
  fixes t s A b0 :: u64
  assumes A: "is_power_of_two A"
    and nov: "\<not> (s > u64_max - t \<or> A - 1 > u64_max - t - s)"
  defines "b \<equiv> b0 AND (A - 1)" and "c \<equiv> t + s + A - 1"
  defines "o1 \<equiv> c - (((c AND (A - 1)) + b) AND (A - 1))"
  shows "unat t + unat s \<le> unat o1" "b < A" "unat A dvd unat o1 + unat b"
    "unat t + unat s \<le> y \<Longrightarrow> unat A dvd y + unat b \<Longrightarrow> unat o1 \<le> y"
proof -
  have A0: "0 < unat A" using A by (simp add: is_power_of_two_def unat_gt_0)
  have m: "unat (A - 1) = unat A - 1" using A0 by (simp add: unat_minus_one unat_gt_0)
  have ts: "unat s + unat t < 18446744073709551616" using nov u64_overflow_test [of t s] by simp
  have ts': "unat (t + s) = unat t + unat s" using ts by (simp add: unat_add_exact)
  have "u64_max - t - s = u64_max - (t + s)" by simp
  then have "unat (A - 1) + unat (t + s) < 18446744073709551616" using nov u64_overflow_test [of "t + s" "A - 1"] by (metis not_le)
  then have cn: "unat c = unat t + unat s + (unat A - 1)"
    using unat_add_exact [of "t + s" "A - 1"] ts' m by (simp add: c_def algebra_simps)
  have bn: "unat b < unat A" using and_below_power [OF A, of b0] A0 by (simp add: b_def)
  then show "b < A" by (simp add: word_less_nat_alt)
  have cm: "unat (c AND (A - 1)) = unat c mod unat A" by (rule and_below_power [OF A])
  from A obtain k where k: "k < 64" "unat A = 2 ^ k" by (rule is_power_of_two_cases)
  have "(2::nat) ^ k \<le> 2 ^ 63" using k(1) by (intro power_increasing) auto
  then have A63: "unat A \<le> 9223372036854775808" using k(2) by simp
  have "unat c mod unat A < unat A" using A0 by simp
  then have "unat ((c AND (A - 1)) + b) = unat c mod unat A + unat b"
    unfolding cm [symmetric] using bn A63 by (intro unat_add_exact) linarith
  then have rn: "unat (((c AND (A - 1)) + b) AND (A - 1)) = (unat c mod unat A + unat b) mod unat A"
    by (simp only: and_below_power [OF A])
  note N = nat_tls_offset [OF A0, of "unat t" "unat s", folded cn]
  have "(unat c mod unat A + unat b) mod unat A \<le> unat c"
  proof -
    have "(unat c mod unat A + unat b) mod unat A < unat A" using A0 by simp
    moreover have "unat A - 1 \<le> unat c" using cn by simp
    ultimately show ?thesis by linarith
  qed
  then have "unat o1 = unat c - (unat c mod unat A + unat b) mod unat A"
    unfolding o1_def rn [symmetric] by (rule unat_sub_exact)
  then show "unat t + unat s \<le> unat o1" "unat A dvd unat o1 + unat b"
    "unat t + unat s \<le> y \<Longrightarrow> unat A dvd y + unat b \<Longrightarrow> unat o1 \<le> y"
    using N by simp_all
qed

lemma RegisterModule_cases:
  assumes R: "RegisterModule i s al b L = (r, L')"
  shows "(tr_status r \<noteq> kTlsOk \<and> L' = L) \<or>
    (tr_status r = kTlsOk \<and> L' = L \<and> om_find (tl_modules L) i = Some (tr_module r)) \<or>
    (tr_status r = kTlsOk \<and> registered i s al b L (tr_module r) L')"
proof -
  let ?A = "if al = 0 then 1 else al"
  let ?b = "b AND (?A - 1)"
  let ?c = "tl_total_size L + s + ?A - 1"
  let ?o = "?c - (((?c AND (?A - 1)) + ?b) AND (?A - 1))"
  let ?m = "\<lparr>tm_module_id = i, tm_memory_size = s, tm_alignment = ?A, tm_alignment_bias = ?b, tm_static_offset = ?o\<rparr>"
  show ?thesis
  proof (cases "i \<noteq> 0 \<and> s \<noteq> 0 \<and> (?A AND (?A - 1)) = 0 \<and> om_find (tl_modules L) i = None \<and>
      \<not> (tl_modules L \<noteq> [] \<and> i \<le> fst (last (tl_modules L))) \<and>
      \<not> (s > u64_max - tl_total_size L \<or> ?A - 1 > u64_max - tl_total_size L - s) \<and> \<not> ?o > tl_reservation L")
    case True
    have A: "is_power_of_two ?A" using True by (simp add: is_power_of_two_def)
    from True have s0: "s \<noteq> 0" and nov: "\<not> (s > u64_max - tl_total_size L \<or> ?A - 1 > u64_max - tl_total_size L - s)" by blast+
    note O = tls_offset [OF A nov, where ?b0.0 = b]
    have "tls_module_ok ?m" using A O s0 by (simp add: tls_module_ok_def)
    then have "registered i s al b L ?m (L\<lparr>tl_modules := om_emplace i ?m (tl_modules L), tl_total_size := ?o,
        tl_maximum_alignment := max (tl_maximum_alignment L) ?A\<rparr>)"
      using True O by (auto simp: registered_def not_less not_le)
    moreover have "r = \<lparr>tr_status = kTlsOk, tr_module = ?m\<rparr>" "L' = L\<lparr>tl_modules := om_emplace i ?m (tl_modules L), tl_total_size := ?o,
        tl_maximum_alignment := max (tl_maximum_alignment L) ?A\<rparr>"
      using R True unfolding RegisterModule_def Let_def by simp_all
    ultimately show ?thesis by simp
  next
    case False
    then show ?thesis using R unfolding RegisterModule_def Let_def tls_failure_def
      by (auto split: if_splits option.splits)
  qed
qed

lemma om_last_key: "om_ok m \<Longrightarrow> (k, v) \<in> set m \<Longrightarrow> k \<le> fst (last m)"
proof (induction m)
  case (Cons p m)
  then show ?case
    by (cases m) (auto simp: om_ok_def order.strict_implies_order)
qed simp

lemma om_emplace_new:
  assumes "om_ok m" "om_find m k = None"
  shows "(j, w) \<in> set (om_emplace k v m) \<longleftrightarrow> (j, w) = (k, v) \<or> (j, w) \<in> set m"
  using assms by (auto simp: om_find_Some_iff [symmetric] om_find_emplace)

lemma registered_ok:
  assumes ok: "tls_ok L" and r: "registered i s al b L m L'"
  shows "tls_ok L'"
proof -
  have R: "om_find (tl_modules L) i = None" "tm_module_id m = i" "i \<noteq> 0" "tls_module_ok m" "tm_memory_size m = s"
    "tm_static_offset m \<le> tl_reservation L" "unat (tl_total_size L) + unat s \<le> unat (tm_static_offset m)"
    using r by (simp_all add: registered_def)
  have L': "tl_modules L' = om_emplace i m (tl_modules L)" "tl_total_size L' = tm_static_offset m"
    "tl_reservation L' = tl_reservation L" "tl_maximum_alignment L' = max (tl_maximum_alignment L) (tm_alignment m)"
    using r by (simp_all add: registered_def)
  have okL: "om_ok (tl_modules L)" using ok by (simp add: tls_ok_def)
  have mem: "(k, n) \<in> set (tl_modules L') \<longleftrightarrow> (k, n) = (i, m) \<or> (k, n) \<in> set (tl_modules L)" for k n
    unfolding L' by (rule om_emplace_new [OF okL R(1)])
  have old: "k \<noteq> 0 \<and> tm_module_id n = k \<and> tls_module_ok n \<and> tm_static_offset n \<le> tl_total_size L \<and>
      tm_alignment n \<le> tl_maximum_alignment L" if "(k, n) \<in> set (tl_modules L)" for k n
    using ok that unfolding tls_ok_def by blast
  have below: "k < i" if k: "(k, n) \<in> set (tl_modules L)" for k n
  proof -
    have "fst (last (tl_modules L)) < i" using r k by (auto simp: registered_def)
    then show ?thesis using om_last_key [OF okL k] by simp
  qed
  have up: "tl_total_size L \<le> tm_static_offset m" using R(7) by (simp add: word_le_nat_alt)
  show ?thesis
    unfolding tls_ok_def
  proof (intro conjI ballI)
    show "om_ok (tl_modules L')" using okL unfolding L' by simp
    show "tl_total_size L' \<le> tl_reservation L'" using R unfolding L' by simp
    fix p assume "p \<in> set (tl_modules L')"
    then obtain k n where p: "p = (k, n)" "(k, n) \<in> set (tl_modules L')" by (metis surj_pair)
    show "case p of (k, n) \<Rightarrow> k \<noteq> 0 \<and> tm_module_id n = k \<and> tls_module_ok n \<and> tm_static_offset n \<le> tl_total_size L' \<and>
        tm_alignment n \<le> tl_maximum_alignment L'"
      using p(2) [unfolded mem] old [of k n] R(2-4) up unfolding p(1) L' by (auto simp: le_max_iff_disj intro: order.trans)
    have "unat (tm_static_offset n) + unat (tm_memory_size n') \<le> unat (tm_static_offset n')"
      if q: "(j, n') \<in> set (tl_modules L')" "k < j" for j n'
    proof (cases "(k, n) \<in> set (tl_modules L) \<and> (j, n') \<in> set (tl_modules L)")
      case True
      then show ?thesis using ok q(2) unfolding tls_ok_def by blast
    next
      case False
      then have "(j, n') = (i, m)" "(k, n) \<in> set (tl_modules L)"
        using p(2) q below [of j n'] unfolding mem by auto
      then show ?thesis using old [of k n] R(5,7) by (auto simp: word_le_nat_alt)
    qed
    then show "case p of (k, n) \<Rightarrow> \<forall>(j, n') \<in> set (tl_modules L'). k < j \<longrightarrow>
        unat (tm_static_offset n) + unat (tm_memory_size n') \<le> unat (tm_static_offset n')"
      unfolding p(1) by auto
  qed
qed

lemma RegisterModule_ok: "tls_ok L \<Longrightarrow> tls_ok (snd (RegisterModule i s al b L))"
  using RegisterModule_cases [of i s al b L] registered_ok by (cases "RegisterModule i s al b L") auto

lemma RegisterModule_keeps:
  assumes "FindModule j L = Some m"
  shows "FindModule j (snd (RegisterModule i s al b L)) = Some m"
proof -
  obtain r L' where R: "RegisterModule i s al b L = (r, L')" by fastforce
  from RegisterModule_cases [OF R] have "L' = L \<or> (\<exists>n. om_find (tl_modules L) i = None \<and> tl_modules L' = om_emplace i n (tl_modules L))"
    by (auto simp: registered_def)
  then show ?thesis using assms R by (auto simp: FindModule_def om_find_emplace)
qed

section \<open>Properties\<close>

type_synonym registration_request = "u64 \<times> u64 \<times> u64 \<times> u64"

definition run_registrations :: "registration_request list \<Rightarrow> static_tls_layout \<Rightarrow> static_tls_layout" where
  "run_registrations requests L = fold (\<lambda>(i, s, al, b) L. snd (RegisterModule i s al b L)) requests L"

lemma run_registrations_ok: "tls_ok L \<Longrightarrow> tls_ok (run_registrations requests L)"
  unfolding run_registrations_def by (induction requests arbitrary: L) (auto simp: RegisterModule_ok)

lemma run_registrations_keeps: "FindModule j L = Some m \<Longrightarrow> FindModule j (run_registrations requests L) = Some m"
  unfolding run_registrations_def by (induction requests arbitrary: L) (auto simp: RegisterModule_keeps)

lemma run_registrations_append: "run_registrations (xs @ ys) L = run_registrations ys (run_registrations xs L)"
  by (simp add: run_registrations_def)

lemma new_layout_ok: "tls_ok (new_static_tls_layout reservation)"
  by (simp add: tls_ok_def new_static_tls_layout_def word_le_nat_alt)

definition tls_block :: "static_tls_module \<Rightarrow> int set" where
  "tls_block m = {- uint (tm_static_offset m) ..< - uint (tm_static_offset m) + uint (tm_memory_size m)}"

lemma run_registrations_reservation: "tl_reservation (run_registrations xs L) = tl_reservation L"
proof -
  have "tl_reservation (snd (RegisterModule i s al b L)) = tl_reservation L" for i s al b L
    using RegisterModule_cases [of i s al b L] by (cases "RegisterModule i s al b L") (auto simp: registered_def)
  then show ?thesis unfolding run_registrations_def by (induction xs arbitrary: L) auto
qed

lemma tls_blocks_disjoint:
  assumes ok: "tls_ok L" and m: "(i, m) \<in> set (tl_modules L)" "(j, n) \<in> set (tl_modules L)" "i < j"
  shows "tls_block m \<inter> tls_block n = {}"
proof -
  have "unat (tm_static_offset m) + unat (tm_memory_size n) \<le> unat (tm_static_offset n)"
    using ok m unfolding tls_ok_def by blast
  then have "uint (tm_static_offset m) + uint (tm_memory_size n) \<le> uint (tm_static_offset n)"
    by (simp only: uint_nat flip: of_nat_add)
  then show ?thesis unfolding tls_block_def by auto
qed

text \<open>
  C36: however many modules are registered with a fresh layout, the blocks of two different modules,
  as offsets from the thread pointer, never overlap, every block lies below the thread pointer and
  inside the reservation, is aligned as its module asks, and keeps its place under all later
  registrations.
\<close>

theorem tls_blocks_disjoint_aligned_stable:
  assumes "FindModule i (run_registrations xs (new_static_tls_layout R)) = Some m"
    and "FindModule j (run_registrations xs (new_static_tls_layout R)) = Some n" and "i \<noteq> j"
  shows "tls_block m \<inter> tls_block n = {} \<and> tls_block m \<subseteq> {- uint R ..< 0} \<and>
    uint (tm_alignment m) dvd - uint (tm_static_offset m) - uint (tm_alignment_bias m) \<and>
    FindModule i (run_registrations (xs @ ys) (new_static_tls_layout R)) = Some m"
proof -
  let ?L = "run_registrations xs (new_static_tls_layout R)"
  have ok: "tls_ok ?L" by (rule run_registrations_ok [OF new_layout_ok])
  have mem: "(i, m) \<in> set (tl_modules ?L)" "(j, n) \<in> set (tl_modules ?L)"
    using assms by (simp_all add: FindModule_def om_find_SomeD)
  have "tls_module_ok m" "tm_static_offset m \<le> tl_total_size ?L" "tl_total_size ?L \<le> tl_reservation ?L"
    using ok mem(1) unfolding tls_ok_def by blast+
  then have m: "unat (tm_memory_size m) \<le> unat (tm_static_offset m)" "unat (tm_static_offset m) \<le> unat R"
    "unat (tm_alignment m) dvd unat (tm_static_offset m) + unat (tm_alignment_bias m)"
    by (auto simp: tls_module_ok_def run_registrations_reservation new_static_tls_layout_def word_le_nat_alt)
  have "tls_block m \<inter> tls_block n = {}"
    using tls_blocks_disjoint [OF ok mem] tls_blocks_disjoint [OF ok mem(2,1)] assms(3) by (metis Int_commute linorder_less_linear)
  moreover have "tls_block m \<subseteq> {- uint R ..< 0}"
  proof -
    have "uint (tm_memory_size m) \<le> uint (tm_static_offset m)" "uint (tm_static_offset m) \<le> uint R"
      using m(1,2) by (simp_all only: uint_nat of_nat_le_iff)
    then show ?thesis by (auto simp: tls_block_def)
  qed
  moreover have "uint (tm_alignment m) dvd - uint (tm_static_offset m) - uint (tm_alignment_bias m)"
  proof -
    have "uint (tm_alignment m) dvd - (uint (tm_static_offset m) + uint (tm_alignment_bias m))"
      unfolding dvd_minus_iff using m(3) by (simp only: uint_nat int_dvd_int_iff flip: of_nat_add)
    then show ?thesis by simp
  qed
  moreover have "FindModule i (run_registrations (xs @ ys) (new_static_tls_layout R)) = Some m"
    unfolding run_registrations_append by (rule run_registrations_keeps [OF assms(1)])
  ultimately show ?thesis by blast
qed

definition two_modules :: "registration_request list" where
  "two_modules = [(1, 0x28, 8, 0), (2, 0x30, 0x20, 4)]"

theorem tls_blocks_disjoint_aligned_stable_witness:
  "\<exists>m n. FindModule 1 (run_registrations two_modules (new_static_tls_layout kDefaultStaticTlsReservation)) = Some m \<and>
     FindModule 2 (run_registrations two_modules (new_static_tls_layout kDefaultStaticTlsReservation)) = Some n \<and>
     tm_static_offset m = 0x28 \<and> tm_static_offset n = 0x5C \<and> tls_block m \<inter> tls_block n = {}"
proof -
  let ?L = "run_registrations two_modules (new_static_tls_layout kDefaultStaticTlsReservation)"
  have m: "FindModule 1 ?L = Some \<lparr>tm_module_id = 1, tm_memory_size = 0x28, tm_alignment = 8, tm_alignment_bias = 0,
      tm_static_offset = 0x28\<rparr>" by code_simp
  have n: "FindModule 2 ?L = Some \<lparr>tm_module_id = 2, tm_memory_size = 0x30, tm_alignment = 0x20, tm_alignment_bias = 4,
      tm_static_offset = 0x5C\<rparr>" by code_simp
  show ?thesis using m n tls_blocks_disjoint_aligned_stable [OF m n] by auto
qed

end
