(* ===== verification/Elf_Types.thy ===== *)
theory Elf_Types
  imports Prelude
begin

text \<open>
  The data of the executable format (\<open>loader/elf.h\<close>): error codes, program headers, dynamic
  entries, relocations, symbols and what the parser extracts from them. Optional values are options,
  vectors are lists, strings are lists of characters; a dynamic tag, which the code reads as a
  signed integer, is an integer.
\<close>

datatype elf_error =
  kNoError | kImageTooSmall | kInvalidMagic
  | kSelfHeaderOutOfRange | kUnsupportedSelfHeader | kSelfEmbeddedElfOutOfRange
  | kSelfSegmentMappingNotFound | kMultipleSelfSegmentMappings | kSelfSegmentFileRangeOutOfRange
  | kUnsupportedEncryptedSelfSegment | kUnsupportedCompressedSelfSegment | kUnsupportedClass
  | kUnsupportedEndianness | kUnsupportedIdentVersion | kUnsupportedAbi
  | kUnsupportedFileType | kUnsupportedMachine | kUnsupportedVersion
  | kInvalidHeaderSize | kInvalidProgramHeaderSize | kProgramHeaderTableOutOfRange
  | kMultipleDynamicSegments | kMultipleSceDynlibDataSegments | kDynamicSegmentFileRangeOutOfRange
  | kSceDynlibDataSegmentFileRangeOutOfRange | kInvalidDynamicSegmentSize | kUnterminatedDynamicTable
  | kIncompleteDynamicStringTable | kDynamicStringTableNotFileBacked | kDynamicStringOffsetOutOfRange
  | kUnterminatedDynamicString | kDecodedStringBudgetExceeded | kIncompleteRelaMetadata
  | kInvalidRelaEntrySize | kRelaTableNotFileBacked | kRelocationTargetOutOfRange
  | kUnsupportedPltRelocationFormat | kIncompleteDynamicSymbolMetadata | kInvalidSymbolEntrySize
  | kInvalidSymbolTableSize | kHashTableNotFileBacked | kSymbolTableNotFileBacked
  | kSymbolNameOffsetOutOfRange | kUnterminatedSymbolName | kSegmentFileSizeExceedsMemorySize
  | kSegmentFileRangeOutOfRange | kSegmentAddressRangeOverflow | kInvalidSegmentAlignment
  | kOverlappingLoadSegments | kGuestRangeOutOfRange | kGuestMappingConflict
  | kLoadSizeOverflow

datatype elf_container_kind = kElf | kSelf

record elf_program_header =
  ph_type :: u32
  ph_flags :: u32
  ph_offset :: u64
  ph_file_offset :: u64
  ph_virtual_address :: u64
  ph_physical_address :: u64
  ph_file_size :: u64
  ph_memory_size :: u64
  ph_alignment :: u64

record elf_dynamic_entry =
  de_tag :: int
  de_value :: u64

record elf_rela_entry =
  re_offset :: u64
  re_info :: u64
  re_addend :: int

definition rela_symbol :: "elf_rela_entry \<Rightarrow> u32" where
  "rela_symbol entry = ucast (drop_bit 32 (re_info entry))"

definition rela_type :: "elf_rela_entry \<Rightarrow> u32" where
  "rela_type entry = ucast (re_info entry)"

record elf_symbol =
  sy_name_offset :: u32
  sy_info :: u8
  sy_other :: u8
  sy_section_index :: u16
  sy_value :: u64
  sy_size :: u64
  sy_name :: string

definition symbol_binding :: "elf_symbol \<Rightarrow> u8" where
  "symbol_binding symbol = drop_bit 4 (sy_info symbol)"

definition symbol_type :: "elf_symbol \<Rightarrow> u8" where
  "symbol_type symbol = (sy_info symbol AND 0x0F)"

datatype elf_dynamic_data_source = kNoSource | kLoadSegment | kSceDynlibData

record elf_module_identity =
  mi_id :: u16
  mi_version_major :: u8
  mi_version_minor :: u8
  mi_name :: string

record elf_library_identity =
  li_id :: u16
  li_version :: u16
  li_name :: string

record elf_dynamic_info =
  di_string_table_source :: elf_dynamic_data_source
  di_string_table_file_offset :: "u64 option"
  di_string_table_size :: "u64 option"
  di_needed_libraries :: "string list"
  di_shared_object_name :: "string option"
  di_import_modules :: "elf_module_identity list"
  di_export_modules :: "elf_module_identity list"
  di_import_libraries :: "elf_library_identity list"
  di_export_libraries :: "elf_library_identity list"
  di_relocations :: "elf_rela_entry list"
  di_plt_relocations :: "elf_rela_entry list"
  di_symbols :: "elf_symbol list"
  di_init_function :: "u64 option"
  di_fini_function :: "u64 option"
  di_preinit_array_address :: "u64 option"
  di_preinit_array_size :: "u64 option"
  di_init_array_address :: "u64 option"
  di_init_array_size :: "u64 option"
  di_fini_array_address :: "u64 option"
  di_fini_array_size :: "u64 option"

definition default_dynamic_info :: elf_dynamic_info where
  "default_dynamic_info = \<lparr>di_string_table_source = kNoSource, di_string_table_file_offset = None,
     di_string_table_size = None, di_needed_libraries = [], di_shared_object_name = None,
     di_import_modules = [], di_export_modules = [], di_import_libraries = [], di_export_libraries = [],
     di_relocations = [], di_plt_relocations = [], di_symbols = [], di_init_function = None,
     di_fini_function = None, di_preinit_array_address = None, di_preinit_array_size = None,
     di_init_array_address = None, di_init_array_size = None, di_fini_array_address = None,
     di_fini_array_size = None\<rparr>"

record elf_metadata =
  em_container :: elf_container_kind
  em_elf_file_offset :: u64
  em_self_segment_count :: u16
  em_os_abi :: u8
  em_abi_version :: u8
  em_type :: u16
  em_machine :: u16
  em_version :: u32
  em_entry_point :: u64
  em_program_headers :: "elf_program_header list"
  em_dynamic_entries :: "elf_dynamic_entry list"
  em_dynamic_info :: elf_dynamic_info

record elf_load_range_result =
  lr_error :: elf_error
  lr_base_address :: u64
  lr_size :: u64
  lr_load_segment_count :: u64

fun ElfErrorName :: "elf_error \<Rightarrow> string" where
  "ElfErrorName kNoError = ''none''"
| "ElfErrorName kImageTooSmall = ''image-too-small''"
| "ElfErrorName kInvalidMagic = ''invalid-magic''"
| "ElfErrorName kSelfHeaderOutOfRange = ''self-header-out-of-range''"
| "ElfErrorName kUnsupportedSelfHeader = ''unsupported-self-header''"
| "ElfErrorName kSelfEmbeddedElfOutOfRange = ''self-embedded-elf-out-of-range''"
| "ElfErrorName kSelfSegmentMappingNotFound = ''self-segment-mapping-not-found''"
| "ElfErrorName kMultipleSelfSegmentMappings = ''multiple-self-segment-mappings''"
| "ElfErrorName kSelfSegmentFileRangeOutOfRange = ''self-segment-file-range-out-of-range''"
| "ElfErrorName kUnsupportedEncryptedSelfSegment = ''unsupported-encrypted-self-segment''"
| "ElfErrorName kUnsupportedCompressedSelfSegment = ''unsupported-compressed-self-segment''"
| "ElfErrorName kUnsupportedClass = ''unsupported-class''"
| "ElfErrorName kUnsupportedEndianness = ''unsupported-endianness''"
| "ElfErrorName kUnsupportedIdentVersion = ''unsupported-ident-version''"
| "ElfErrorName kUnsupportedAbi = ''unsupported-abi''"
| "ElfErrorName kUnsupportedFileType = ''unsupported-file-type''"
| "ElfErrorName kUnsupportedMachine = ''unsupported-machine''"
| "ElfErrorName kUnsupportedVersion = ''unsupported-version''"
| "ElfErrorName kInvalidHeaderSize = ''invalid-header-size''"
| "ElfErrorName kInvalidProgramHeaderSize = ''invalid-program-header-size''"
| "ElfErrorName kProgramHeaderTableOutOfRange = ''program-header-table-out-of-range''"
| "ElfErrorName kMultipleDynamicSegments = ''multiple-dynamic-segments''"
| "ElfErrorName kMultipleSceDynlibDataSegments = ''multiple-sce-dynlibdata-segments''"
| "ElfErrorName kDynamicSegmentFileRangeOutOfRange = ''dynamic-segment-file-range-out-of-range''"
| "ElfErrorName kSceDynlibDataSegmentFileRangeOutOfRange = ''sce-dynlibdata-segment-file-range-out-of-range''"
| "ElfErrorName kInvalidDynamicSegmentSize = ''invalid-dynamic-segment-size''"
| "ElfErrorName kUnterminatedDynamicTable = ''unterminated-dynamic-table''"
| "ElfErrorName kIncompleteDynamicStringTable = ''incomplete-dynamic-string-table''"
| "ElfErrorName kDynamicStringTableNotFileBacked = ''dynamic-string-table-not-file-backed''"
| "ElfErrorName kDynamicStringOffsetOutOfRange = ''dynamic-string-offset-out-of-range''"
| "ElfErrorName kUnterminatedDynamicString = ''unterminated-dynamic-string''"
| "ElfErrorName kDecodedStringBudgetExceeded = ''decoded-string-budget-exceeded''"
| "ElfErrorName kIncompleteRelaMetadata = ''incomplete-rela-metadata''"
| "ElfErrorName kInvalidRelaEntrySize = ''invalid-rela-entry-size''"
| "ElfErrorName kRelaTableNotFileBacked = ''rela-table-not-file-backed''"
| "ElfErrorName kRelocationTargetOutOfRange = ''relocation-target-out-of-range''"
| "ElfErrorName kUnsupportedPltRelocationFormat = ''unsupported-plt-relocation-format''"
| "ElfErrorName kIncompleteDynamicSymbolMetadata = ''incomplete-dynamic-symbol-metadata''"
| "ElfErrorName kInvalidSymbolEntrySize = ''invalid-symbol-entry-size''"
| "ElfErrorName kInvalidSymbolTableSize = ''invalid-symbol-table-size''"
| "ElfErrorName kHashTableNotFileBacked = ''hash-table-not-file-backed''"
| "ElfErrorName kSymbolTableNotFileBacked = ''symbol-table-not-file-backed''"
| "ElfErrorName kSymbolNameOffsetOutOfRange = ''symbol-name-offset-out-of-range''"
| "ElfErrorName kUnterminatedSymbolName = ''unterminated-symbol-name''"
| "ElfErrorName kSegmentFileSizeExceedsMemorySize = ''segment-file-size-exceeds-memory-size''"
| "ElfErrorName kSegmentFileRangeOutOfRange = ''segment-file-range-out-of-range''"
| "ElfErrorName kSegmentAddressRangeOverflow = ''segment-address-range-overflow''"
| "ElfErrorName kInvalidSegmentAlignment = ''invalid-segment-alignment''"
| "ElfErrorName kOverlappingLoadSegments = ''overlapping-load-segments''"
| "ElfErrorName kGuestRangeOutOfRange = ''guest-range-out-of-range''"
| "ElfErrorName kGuestMappingConflict = ''guest-mapping-conflict''"
| "ElfErrorName kLoadSizeOverflow = ''load-size-overflow''"

end
