(* ===== verification/Module_Plan.thy ===== *)
theory Module_Plan
  imports Elf_Types
begin

text \<open>
  The start order of modules (\<open>loader/module_plan.cpp\<close>): module names are normalised and entered
  into a table, needed libraries become dependencies on module indices, and rounds over the modules
  start every module whose dependencies have been started; what is left over at the end, because of
  a dependency cycle, is started in index order.
\<close>

section \<open>Names\<close>

abbreviation kMaximumPlannedModules :: nat where
  "kMaximumPlannedModules \<equiv> 4096"

abbreviation kMaximumPlannedDependencies :: nat where
  "kMaximumPlannedDependencies \<equiv> 65536"

datatype module_plan_status = kPlanOk | kInvalidModuleName | kDuplicateModuleIdentity | kPlanLimitExceeded

record module_dependency_input =
  md_file_name :: string
  md_shared_object_name :: "string option"
  md_needed_libraries :: "string list"
  md_has_initializer :: bool

record missing_module_dependency =
  mm_requester_index :: nat
  mm_name :: string

record module_start_plan_result =
  mp_status :: module_plan_status
  mp_start_order :: "nat list"
  mp_missing_dependencies :: "missing_module_dependency list"
  mp_fallback_start_count :: nat

definition BaseName :: "string \<Rightarrow> string" where
  "BaseName v = rev (takeWhile (\<lambda>c. c \<noteq> CHR ''/'' \<and> c \<noteq> CHR 0x5C) (rev v))"

definition lower_ascii :: "char \<Rightarrow> char" where
  "lower_ascii character =
     (let byte = (of_char character :: nat) in
      if byte \<ge> 65 \<and> byte \<le> 90 then char_of (byte + 32) else character)"

definition NormalizeName :: "string \<Rightarrow> string" where
  "NormalizeName v = map lower_ascii (BaseName v)"

type_synonym identity_table = "string \<rightharpoonup> nat"

definition AddIdentity :: "identity_table \<Rightarrow> string \<Rightarrow> nat \<Rightarrow> bool \<times> identity_table" where
  "AddIdentity identities name index =
     (let normalized = NormalizeName name in
      if normalized = [] then (False, identities)
      else case identities normalized of
          None \<Rightarrow> (True, identities(normalized \<mapsto> index))
        | Some found \<Rightarrow> (found = index, identities))"

section \<open>Building the plan\<close>

text \<open>The first loop: the table of identities, or the status with which planning stops.\<close>

fun identity_loop ::
  "nat \<Rightarrow> nat \<Rightarrow> identity_table \<Rightarrow> module_dependency_input list \<Rightarrow> module_plan_status + identity_table" where
  "identity_loop index dependency_count identities [] = Inr identities"
| "identity_loop index dependency_count identities (module # rest) =
     (if NormalizeName (md_file_name module) = [] then Inl kInvalidModuleName
      else
        let (added, identities1) = AddIdentity identities (md_file_name module) index in
        if \<not> added then Inl kDuplicateModuleIdentity
        else
          let (added2, identities2) =
            (case md_shared_object_name module of
               None \<Rightarrow> (True, identities1)
             | Some name \<Rightarrow> if name = [] then (True, identities1) else AddIdentity identities1 name index)
          in if \<not> added2 then Inl kDuplicateModuleIdentity
             else if length (md_needed_libraries module) > kMaximumPlannedDependencies - dependency_count
             then Inl kPlanLimitExceeded
             else identity_loop (index + 1) (dependency_count + length (md_needed_libraries module)) identities2 rest)"

text \<open>
  The loop over the needed libraries of one module: its dependencies, the names found missing so
  far, and the missing dependencies in the order they are met.
\<close>

fun dependency_loop ::
  "identity_table \<Rightarrow> module_dependency_input list \<Rightarrow> nat \<Rightarrow> string list \<Rightarrow>
   nat set \<times> string set \<times> missing_module_dependency list \<Rightarrow> nat set \<times> string set \<times> missing_module_dependency list" where
  "dependency_loop identities modules index [] state = state"
| "dependency_loop identities modules index (dependency_name # rest) (dependencies, missing_names, missing) =
     (let normalized = NormalizeName dependency_name in
      if normalized = [] then dependency_loop identities modules index rest (dependencies, missing_names, missing)
      else case identities normalized of
          None \<Rightarrow>
            (if normalized \<in> missing_names
             then dependency_loop identities modules index rest (dependencies, missing_names, missing)
             else dependency_loop identities modules index rest
                    (dependencies, insert normalized missing_names,
                     missing @ [\<lparr>mm_requester_index = index, mm_name = dependency_name\<rparr>]))
        | Some found \<Rightarrow>
            if found \<noteq> index \<and> md_has_initializer (modules ! found)
            then dependency_loop identities modules index rest (insert found dependencies, missing_names, missing)
            else dependency_loop identities modules index rest (dependencies, missing_names, missing))"

definition module_dependencies ::
  "identity_table \<Rightarrow> module_dependency_input list \<Rightarrow> nat \<Rightarrow> nat set \<times> string set \<times> missing_module_dependency list" where
  "module_dependencies identities modules index =
     dependency_loop identities modules index (md_needed_libraries (modules ! index)) ({}, {}, [])"

record start_state =
  ss_started :: "bool list"
  ss_order :: "nat list"
  ss_remaining :: nat
  ss_progressed :: bool

text \<open>One step and one round of the loop that starts modules.\<close>

definition start_step :: "module_dependency_input list \<Rightarrow> nat set list \<Rightarrow> nat \<Rightarrow> start_state \<Rightarrow> start_state" where
  "start_step modules dependencies index s =
     (if \<not> md_has_initializer (modules ! index) \<or> ss_started s ! index then s
      else if \<not> (\<forall>dependency \<in> dependencies ! index. ss_started s ! dependency) then s
      else s\<lparr>ss_started := (ss_started s)[index := True], ss_order := ss_order s @ [index],
             ss_remaining := ss_remaining s - 1, ss_progressed := True\<rparr>)"

definition start_round :: "module_dependency_input list \<Rightarrow> nat set list \<Rightarrow> start_state \<Rightarrow> start_state" where
  "start_round modules dependencies s =
     fold (start_step modules dependencies) [0..<length modules] (s\<lparr>ss_progressed := False\<rparr>)"

lemma start_steps_remaining:
  "ss_remaining (fold (start_step modules deps) is s) \<le> ss_remaining s \<and>
   (ss_progressed (fold (start_step modules deps) is s) \<longrightarrow>
      ss_progressed s \<or> ss_remaining s = 0 \<or> ss_remaining (fold (start_step modules deps) is s) < ss_remaining s)"
proof (induction "is" arbitrary: s)
  case (Cons i "is")
  have step: "ss_remaining (start_step modules deps i s) \<le> ss_remaining s \<and>
      (ss_progressed (start_step modules deps i s) \<longrightarrow>
         ss_progressed s \<or> ss_remaining s = 0 \<or> ss_remaining (start_step modules deps i s) < ss_remaining s)"
    by (auto simp: start_step_def)
  then show ?case using Cons.IH [of "start_step modules deps i s"] by auto
qed simp

lemma start_round_decreases:
  "ss_progressed (start_round modules deps s) \<Longrightarrow> ss_remaining s \<noteq> 0 \<Longrightarrow>
   ss_remaining (start_round modules deps s) < ss_remaining s"
  using start_steps_remaining [of modules deps "[0..<length modules]" "s\<lparr>ss_progressed := False\<rparr>"]
  by (auto simp: start_round_def)

function start_loop :: "module_dependency_input list \<Rightarrow> nat set list \<Rightarrow> start_state \<Rightarrow> start_state" where
  "start_loop modules dependencies s =
     (if ss_remaining s = 0 then s
      else
        let s' = start_round modules dependencies s in
        if \<not> ss_progressed s' then s' else start_loop modules dependencies s')"
  by auto
termination
  by (relation "measure (\<lambda>(modules, dependencies, s). ss_remaining s)") (auto simp: start_round_decreases)

declare start_loop.simps [simp del]

definition BuildModuleStartPlan :: "module_dependency_input list \<Rightarrow> module_start_plan_result" where
  "BuildModuleStartPlan modules =
     (if length modules > kMaximumPlannedModules
      then \<lparr>mp_status = kPlanLimitExceeded, mp_start_order = [], mp_missing_dependencies = [], mp_fallback_start_count = 0\<rparr>
      else case identity_loop 0 0 Map.empty modules of
          Inl status \<Rightarrow>
            \<lparr>mp_status = status, mp_start_order = [], mp_missing_dependencies = [], mp_fallback_start_count = 0\<rparr>
        | Inr identities \<Rightarrow>
            let indices = [0..<length modules];
                found = map (module_dependencies identities modules) indices;
                dependencies = map fst found;
                missing = concat (map (\<lambda>(_, _, m). m) found);
                s = start_loop modules dependencies
                      \<lparr>ss_started = replicate (length modules) False, ss_order = [],
                       ss_remaining = length (filter md_has_initializer modules), ss_progressed = False\<rparr>;
                fallback = filter (\<lambda>index. md_has_initializer (modules ! index) \<and> \<not> ss_started s ! index) indices
            in \<lparr>mp_status = kPlanOk, mp_start_order = ss_order s @ fallback,
                mp_missing_dependencies = missing, mp_fallback_start_count = length fallback\<rparr>)"

definition MakeModuleDependencyInput :: "string \<Rightarrow> elf_metadata \<Rightarrow> module_dependency_input" where
  "MakeModuleDependencyInput file_name metadata =
     (let info = em_dynamic_info metadata;
          value_or = (\<lambda>v. case v of None \<Rightarrow> 0 | Some x \<Rightarrow> x);
          has_array = (\<lambda>address size. value_or address \<noteq> 0 \<and> value_or size \<noteq> 0)
      in \<lparr>md_file_name = file_name, md_shared_object_name = di_shared_object_name info,
          md_needed_libraries = di_needed_libraries info,
          md_has_initializer = (value_or (di_init_function info) \<noteq> 0 \<or>
            has_array (di_preinit_array_address info) (di_preinit_array_size info) \<or>
            has_array (di_init_array_address info) (di_init_array_size info))\<rparr>)"

fun ModulePlanStatusName :: "module_plan_status \<Rightarrow> string" where
  "ModulePlanStatusName kPlanOk = ''ok''"
| "ModulePlanStatusName kInvalidModuleName = ''invalid-module-name''"
| "ModulePlanStatusName kDuplicateModuleIdentity = ''duplicate-module-identity''"
| "ModulePlanStatusName kPlanLimitExceeded = ''limit-exceeded''"

section \<open>What the names mean\<close>

definition names_of :: "module_dependency_input \<Rightarrow> string set" where
  "names_of m = insert (NormalizeName (md_file_name m))
     (case md_shared_object_name m of None \<Rightarrow> {} | Some s \<Rightarrow> if s = [] then {} else {NormalizeName s})"

definition provides :: "module_dependency_input list \<Rightarrow> nat \<Rightarrow> string \<Rightarrow> bool" where
  "provides modules j n \<longleftrightarrow> j < length modules \<and> n \<in> names_of (modules ! j)"

definition depends :: "module_dependency_input list \<Rightarrow> nat \<Rightarrow> nat \<Rightarrow> bool" where
  "depends modules i j \<longleftrightarrow> i < length modules \<and> j \<noteq> i \<and> md_has_initializer (modules ! j) \<and>
     (\<exists>name \<in> set (md_needed_libraries (modules ! i)). provides modules j (NormalizeName name))"

lemma AddIdentity_spec:
  "AddIdentity ids name k = (True, ids') \<Longrightarrow>
   NormalizeName name \<noteq> [] \<and> (\<forall>n j. ids' n = Some j \<longleftrightarrow> ids n = Some j \<or> (n = NormalizeName name \<and> j = k))"
  by (auto simp: AddIdentity_def Let_def split: if_splits option.splits)

lemma identity_loop_spec:
  assumes "identity_loop k c ids ms = Inr ids'"
  shows "(\<forall>n j. ids' n = Some j \<longleftrightarrow> ids n = Some j \<or> (\<exists>i < length ms. j = k + i \<and> n \<in> names_of (ms ! i))) \<and>
    (\<forall>i < length ms. [] \<notin> names_of (ms ! i))"
  using assms
proof (induction k c ids ms rule: identity_loop.induct)
  case (1 k c ids)
  then show ?case by simp
next
  case (2 k c ids m ms)
  obtain a1 ids1 where A1: "AddIdentity ids (md_file_name m) k = (a1, ids1)" by fastforce
  obtain a2 ids2 where A2: "(case md_shared_object_name m of None \<Rightarrow> (True, ids1)
      | Some name \<Rightarrow> if name = [] then (True, ids1) else AddIdentity ids1 name k) = (a2, ids2)" by fastforce
  have ok: "a1" "a2" "\<not> length (md_needed_libraries m) > kMaximumPlannedDependencies - c" "NormalizeName (md_file_name m) \<noteq> []"
    and rest: "identity_loop (k + 1) (c + length (md_needed_libraries m)) ids2 ms = Inr ids'"
    using 2(2) by (auto simp: A1 A2 split: if_splits)
  have one: "ids1 n = Some j \<longleftrightarrow> ids n = Some j \<or> (n = NormalizeName (md_file_name m) \<and> j = k)" for n j
    using AddIdentity_spec [of ids _ k ids1] A1 ok(1) by auto
  have two: "(ids2 n = Some j \<longleftrightarrow> ids n = Some j \<or> (n \<in> names_of m \<and> j = k)) \<and> [] \<notin> names_of m" for n j
  proof (cases "md_shared_object_name m = None \<or> md_shared_object_name m = Some []")
    case True
    then show ?thesis using A2 ok(4) one by (auto simp: names_of_def)
  next
    case False
    then obtain a where a: "md_shared_object_name m = Some a" "a \<noteq> []" by auto
    then have "AddIdentity ids1 a k = (True, ids2)" using A2 ok(2) by simp
    from AddIdentity_spec [OF this] show ?thesis using a ok(4) one unfolding names_of_def by force
  qed
  have IH: "(\<forall>n j. ids' n = Some j \<longleftrightarrow> ids2 n = Some j \<or> (\<exists>i < length ms. j = k + 1 + i \<and> n \<in> names_of (ms ! i))) \<and>
    (\<forall>i < length ms. [] \<notin> names_of (ms ! i))"
    using 2(1) [OF ok(4) A1 [symmetric] refl _ A2 [symmetric] refl _ _ rest] ok by simp
  have split: "(\<exists>i < length (m # ms). j = k + i \<and> n \<in> names_of ((m # ms) ! i)) \<longleftrightarrow>
      (n \<in> names_of m \<and> j = k) \<or> (\<exists>i < length ms. j = k + 1 + i \<and> n \<in> names_of (ms ! i))" for n j
    by (auto simp: less_Suc_eq_0_disj)
  have "[] \<notin> names_of ((m # ms) ! i)" if "i < length (m # ms)" for i
    using that two IH by (cases i) auto
  then show ?case unfolding split using IH two by blast
qed

lemma identities_provide:
  assumes "identity_loop 0 0 Map.empty modules = Inr ids"
  shows "ids n = Some j \<longleftrightarrow> provides modules j n" "provides modules j n \<Longrightarrow> n \<noteq> []"
  using identity_loop_spec [OF assms] by (auto simp: provides_def)

lemma dependency_loop_spec:
  "fst (dependency_loop ids modules i names (D, M, L)) =
     D \<union> {j. \<exists>name \<in> set names. NormalizeName name \<noteq> [] \<and> ids (NormalizeName name) = Some j \<and> j \<noteq> i \<and>
             md_has_initializer (modules ! j)}"
proof (induction names arbitrary: D M L)
  case (Cons name names)
  show ?case
    by (cases "ids (NormalizeName name)") (auto simp: Let_def Cons.IH)
qed simp

lemma missing_loop_spec:
  assumes "M = NormalizeName ` mm_name ` set L"
  shows "NormalizeName ` mm_name ` set (snd (snd (dependency_loop ids modules i names (D, M, L)))) =
    M \<union> {n \<in> NormalizeName ` set names. n \<noteq> [] \<and> ids n = None}"
  using assms
proof (induction names arbitrary: D M L)
  case (Cons name names)
  show ?case
  proof (cases "NormalizeName name \<noteq> [] \<and> ids (NormalizeName name) = None \<and> NormalizeName name \<notin> M")
    case True
    have "insert (NormalizeName name) M = NormalizeName ` mm_name ` set (L @ [\<lparr>mm_requester_index = i, mm_name = name\<rparr>])"
      using Cons.prems by auto
    from Cons.IH [OF this] show ?thesis using True by (auto simp: Let_def)
  next
    case False
    then show ?thesis using Cons.IH [OF Cons.prems] by (auto simp: Let_def split: option.splits)
  qed
qed simp

section \<open>The start order\<close>

definition topo :: "nat set list \<Rightarrow> nat list \<Rightarrow> bool" where
  "topo D xs \<longleftrightarrow> (\<forall>p < length xs. D ! (xs ! p) \<subseteq> set (take p xs))"

lemma topo_snoc: "topo D (xs @ [i]) \<longleftrightarrow> topo D xs \<and> D ! i \<subseteq> set xs"
proof -
  have "p < length (xs @ [i]) \<longleftrightarrow> p < length xs \<or> p = length xs" for p by auto
  then show ?thesis unfolding topo_def by (auto simp: nth_append)
qed

definition start_ok :: "module_dependency_input list \<Rightarrow> nat set list \<Rightarrow> start_state \<Rightarrow> bool" where
  "start_ok modules D s \<longleftrightarrow> length (ss_started s) = length modules \<and> distinct (ss_order s) \<and>
     set (ss_order s) = {i. i < length modules \<and> ss_started s ! i} \<and>
     (\<forall>i \<in> set (ss_order s). md_has_initializer (modules ! i)) \<and>
     ss_remaining s + length (ss_order s) = length (filter md_has_initializer modules) \<and> topo D (ss_order s)"

lemma init_count: "length (filter md_has_initializer modules) = card {i. i < length modules \<and> md_has_initializer (modules ! i)}"
  by (simp add: length_filter_conv_card)

lemma started_all:
  assumes "start_ok modules D s" "ss_remaining s = 0" "i < length modules" "md_has_initializer (modules ! i)"
  shows "ss_started s ! i"
proof -
  let ?I = "{i. i < length modules \<and> md_has_initializer (modules ! i)}"
  have "card (set (ss_order s)) = card ?I"
    using assms(1,2) unfolding start_ok_def by (metis add_0 distinct_card init_count)
  moreover have "set (ss_order s) \<subseteq> ?I" "finite ?I" using assms(1) by (auto simp: start_ok_def)
  ultimately have "set (ss_order s) = ?I" by (metis card_subset_eq)
  then show ?thesis using assms by (auto simp: start_ok_def)
qed

lemma remaining_positive:
  assumes "start_ok modules D s" "i < length modules" "md_has_initializer (modules ! i)" "\<not> ss_started s ! i"
  shows "ss_remaining s \<noteq> 0"
  using started_all [OF assms(1)] assms(2-4) by blast

lemma start_step_ok:
  assumes ok: "start_ok modules D s" and i: "i < length modules" and D: "\<forall>d \<in> D ! i. d < length modules"
  shows "start_ok modules D (start_step modules D i s)"
proof (cases "md_has_initializer (modules ! i) \<and> \<not> ss_started s ! i \<and> (\<forall>d \<in> D ! i. ss_started s ! d)")
  case True
  have "ss_remaining s \<noteq> 0" using remaining_positive [OF ok i] True by blast
  moreover have "i \<notin> set (ss_order s)" "D ! i \<subseteq> set (ss_order s)" using ok True D by (auto simp: start_ok_def)
  ultimately show ?thesis using ok True i
    by (auto simp: start_step_def start_ok_def topo_snoc nth_list_update)
next
  case False
  then show ?thesis using ok by (auto simp: start_step_def)
qed

lemma start_round_ok:
  assumes ok: "start_ok modules D s" and D: "\<forall>i < length modules. \<forall>d \<in> D ! i. d < length modules"
  shows "start_ok modules D (start_round modules D s)"
proof -
  have "start_ok modules D (fold (start_step modules D) is t)"
    if "start_ok modules D t" "\<forall>i \<in> set is. i < length modules" for "is" t
    using that
  proof (induction "is" arbitrary: t)
    case (Cons i "is")
    have "start_ok modules D (start_step modules D i t)" using Cons.prems D by (intro start_step_ok) auto
    from Cons.IH [OF this] show ?case using Cons.prems by simp
  qed simp
  moreover have "start_ok modules D (s\<lparr>ss_progressed := False\<rparr>)" using ok by (simp add: start_ok_def)
  ultimately show ?thesis unfolding start_round_def by simp
qed

definition stuck :: "module_dependency_input list \<Rightarrow> nat set list \<Rightarrow> start_state \<Rightarrow> bool" where
  "stuck modules D s \<longleftrightarrow> (\<forall>i < length modules. md_has_initializer (modules ! i) \<longrightarrow> \<not> ss_started s ! i \<longrightarrow>
     (\<exists>d \<in> D ! i. \<not> ss_started s ! d))"

lemma start_steps_stuck:
  assumes "\<not> ss_progressed (fold (start_step modules D) is s)"
  shows "fold (start_step modules D) is s = s \<and> (\<forall>i \<in> set is. md_has_initializer (modules ! i) \<longrightarrow> \<not> ss_started s ! i \<longrightarrow>
     (\<exists>d \<in> D ! i. \<not> ss_started s ! d))"
  using assms
proof (induction "is" arbitrary: s)
  case (Cons i "is")
  let ?s = "start_step modules D i s"
  have IH: "fold (start_step modules D) is ?s = ?s" using Cons.IH [of ?s] Cons.prems by simp
  then have "\<not> ss_progressed ?s" using Cons.prems by simp
  then have "?s = s" "md_has_initializer (modules ! i) \<longrightarrow> \<not> ss_started s ! i \<longrightarrow> (\<exists>d \<in> D ! i. \<not> ss_started s ! d)"
    by (auto simp: start_step_def split: if_splits)
  then show ?case using Cons by simp
qed simp

lemma start_loop_ok:
  assumes "start_ok modules D s" "\<forall>i < length modules. \<forall>d \<in> D ! i. d < length modules"
  shows "start_ok modules D (start_loop modules D s) \<and> stuck modules D (start_loop modules D s)"
  using assms
proof (induction modules D s rule: start_loop.induct)
  case (1 modules D s)
  let ?s = "start_round modules D s"
  have ok: "start_ok modules D ?s" by (rule start_round_ok [OF 1(2,3)])
  show ?case
  proof (cases "ss_remaining s = 0")
    case True
    then have "stuck modules D s" using started_all [OF 1(2)] by (auto simp: stuck_def)
    then show ?thesis using True 1(2) by (simp add: start_loop.simps [of modules D s])
  next
    case False
    show ?thesis
    proof (cases "ss_progressed ?s")
      case True
      then show ?thesis using 1(1) [OF False refl _ ok 1(3)] False by (simp add: start_loop.simps [of modules D s])
    next
      case np: False
      have "stuck modules D ?s" using start_steps_stuck [of modules D "[0..<length modules]" "s\<lparr>ss_progressed := False\<rparr>"] np
        by (auto simp: start_round_def stuck_def)
      then show ?thesis using np False ok by (simp add: start_loop.simps [of modules D s])
    qed
  qed
qed

section \<open>Properties\<close>

definition module_relation :: "module_dependency_input list \<Rightarrow> (nat \<times> nat) set" where
  "module_relation modules = {(d, i). depends modules i d \<and> md_has_initializer (modules ! i)}"

lemma dependencies_eq:
  assumes "identity_loop 0 0 Map.empty modules = Inr ids" "i < length modules"
  shows "fst (module_dependencies ids modules i) = {d. depends modules i d}"
  unfolding module_dependencies_def dependency_loop_spec depends_def
  using identities_provide [OF assms(1)] assms(2) by blast

lemma depends_less: "depends modules i d \<Longrightarrow> d < length modules \<and> md_has_initializer (modules ! d)"
  by (auto simp: depends_def provides_def)

lemma topo_acyclic:
  assumes "\<forall>p < length xs. \<forall>d. (d, xs ! p) \<in> R \<longrightarrow> d \<in> set (take p xs)" "distinct xs" "\<forall>(d, i) \<in> R. i \<in> set xs"
  shows "acyclic R"
proof -
  define pos where "pos i = (THE p. p < length xs \<and> xs ! p = i)" for i
  have pos: "pos (xs ! p) = p" if "p < length xs" for p
    unfolding pos_def using that assms(2) by (intro the_equality) (auto simp: nth_eq_iff_index_eq)
  have "R \<subseteq> measure pos"
  proof
    fix e assume e: "e \<in> R"
    obtain d i where di: "e = (d, i)" by fastforce
    obtain p where p: "p < length xs" "i = xs ! p" using assms(3) e di by (auto simp: in_set_conv_nth)
    then have "d \<in> set (take p xs)" using assms(1) e di by blast
    then obtain q where "q < p" "d = xs ! q" using p by (auto simp: in_set_conv_nth)
    then show "e \<in> measure pos" using pos [of q] pos [of p] p di by simp
  qed
  then show ?thesis by (meson wf_measure wf_acyclic acyclic_subset)
qed

lemma leftover_cycle:
  assumes "finite R" "acyclic R" "\<forall>i \<in> F. \<exists>d \<in> F. (d, i) \<in> R"
  shows "F = {}"
proof (rule ccontr)
  assume "F \<noteq> {}"
  then obtain x where x: "x \<in> F" by auto
  have "wf R" by (rule finite_acyclic_wf [OF assms(1,2)])
  from wfE_min [OF this x] obtain z where "z \<in> F" "\<And>y. (y, z) \<in> R \<Longrightarrow> y \<notin> F" by blast
  then show False using assms(3) by blast
qed

lemma identity_loop_status: "identity_loop k c ids ms \<noteq> Inl kPlanOk"
  by (induction k c ids ms rule: identity_loop.induct) (auto split: option.splits prod.splits)

lemma plan_state:
  assumes "mp_status (BuildModuleStartPlan modules) = kPlanOk"
  shows "\<exists>s D. start_ok modules D s \<and> stuck modules D s \<and> (\<forall>i < length modules. D ! i = {d. depends modules i d}) \<and>
    mp_start_order (BuildModuleStartPlan modules) =
      ss_order s @ filter (\<lambda>i. md_has_initializer (modules ! i) \<and> \<not> ss_started s ! i) [0..<length modules] \<and>
    mp_fallback_start_count (BuildModuleStartPlan modules) =
      length (filter (\<lambda>i. md_has_initializer (modules ! i) \<and> \<not> ss_started s ! i) [0..<length modules])"
proof -
  obtain ids where len: "\<not> length modules > kMaximumPlannedModules"
    and ids: "identity_loop 0 0 Map.empty modules = Inr ids"
    using assms identity_loop_status [of 0 0 Map.empty modules] unfolding BuildModuleStartPlan_def
    by (cases "identity_loop 0 0 Map.empty modules") (auto split: if_splits)
  let ?D = "map (fst \<circ> module_dependencies ids modules) [0..<length modules]"
  let ?s0 = "\<lparr>ss_started = replicate (length modules) False, ss_order = [],
      ss_remaining = length (filter md_has_initializer modules), ss_progressed = False\<rparr>"
  have D: "?D ! i = {d. depends modules i d}" if "i < length modules" for i
    using that dependencies_eq [OF ids that] by simp
  have "start_ok modules ?D ?s0" by (auto simp: start_ok_def topo_def)
  moreover have "\<forall>i < length modules. \<forall>d \<in> ?D ! i. d < length modules" using D depends_less by auto
  ultimately have "start_ok modules ?D (start_loop modules ?D ?s0) \<and> stuck modules ?D (start_loop modules ?D ?s0)"
    by (rule start_loop_ok)
  then show ?thesis using len D unfolding BuildModuleStartPlan_def ids Let_def
    by (intro exI [of _ "start_loop modules ?D ?s0"] exI [of _ ?D]) simp
qed

text \<open>
  C37: a plan starts every module that has an initialiser exactly once. All modules but the counted
  fallback ones at the end are started after every module they depend on, and there are no fallback
  modules exactly if the dependencies have no cycle.
\<close>

theorem start_plan_is_topological:
  assumes "mp_status (BuildModuleStartPlan modules) = kPlanOk"
  defines "xs \<equiv> mp_start_order (BuildModuleStartPlan modules)"
    and "fallback \<equiv> mp_fallback_start_count (BuildModuleStartPlan modules)"
  shows "distinct xs \<and> set xs = {i. i < length modules \<and> md_has_initializer (modules ! i)} \<and>
    (\<forall>p < length xs - fallback. \<forall>d. depends modules (xs ! p) d \<longrightarrow> d \<in> set (take p xs)) \<and>
    (fallback = 0 \<longleftrightarrow> acyclic (module_relation modules))"
proof -
  obtain s D where s: "start_ok modules D s" "stuck modules D s" "\<forall>i < length modules. D ! i = {d. depends modules i d}"
    and xs: "xs = ss_order s @ filter (\<lambda>i. md_has_initializer (modules ! i) \<and> \<not> ss_started s ! i) [0..<length modules]"
    and fb: "fallback = length (filter (\<lambda>i. md_has_initializer (modules ! i) \<and> \<not> ss_started s ! i) [0..<length modules])"
    using plan_state [OF assms(1)] unfolding xs_def fallback_def by blast
  let ?F = "{i. i < length modules \<and> md_has_initializer (modules ! i) \<and> \<not> ss_started s ! i}"
  have order: "distinct (ss_order s)" "set (ss_order s) = {i. i < length modules \<and> ss_started s ! i}"
    "\<forall>i \<in> set (ss_order s). md_has_initializer (modules ! i)" "topo D (ss_order s)"
    using s(1) by (auto simp: start_ok_def)
  have set_xs: "set xs = {i. i < length modules \<and> md_has_initializer (modules ! i)}" using order by (auto simp: xs)
  have front: "\<forall>p < length (ss_order s). \<forall>d. depends modules (ss_order s ! p) d \<longrightarrow> d \<in> set (take p (ss_order s))"
    using order(2,4) s(3) nth_mem unfolding topo_def by blast
  have fbF: "fallback = 0 \<longleftrightarrow> ?F = {}" unfolding fb by (auto simp: filter_empty_conv)
  have "fallback = 0 \<longleftrightarrow> acyclic (module_relation modules)"
  proof
    assume "fallback = 0"
    then have F: "?F = {}" using fbF by simp
    show "acyclic (module_relation modules)"
    proof (rule topo_acyclic [OF _ order(1)])
      show "\<forall>p < length (ss_order s). \<forall>d. (d, ss_order s ! p) \<in> module_relation modules \<longrightarrow> d \<in> set (take p (ss_order s))"
        using front by (simp add: module_relation_def)
      show "\<forall>(d, i) \<in> module_relation modules. i \<in> set (ss_order s)"
        using F order(2) by (auto simp: module_relation_def depends_def)
    qed
  next
    assume a: "acyclic (module_relation modules)"
    have "module_relation modules \<subseteq> {..<length modules} \<times> {..<length modules}"
      by (auto simp: module_relation_def depends_less) (simp add: depends_def)
    then have "finite (module_relation modules)" by (rule finite_subset) simp
    moreover have "\<forall>i \<in> ?F. \<exists>d \<in> ?F. (d, i) \<in> module_relation modules"
      using s(2,3) depends_less unfolding stuck_def module_relation_def by fastforce
    ultimately have "?F = {}" by (rule leftover_cycle [OF _ a])
    then show "fallback = 0" using fbF by blast
  qed
  moreover have "distinct xs" using order by (auto simp: xs)
  moreover have "\<forall>p < length xs - fallback. \<forall>d. depends modules (xs ! p) d \<longrightarrow> d \<in> set (take p xs)"
    using front by (simp add: xs fb nth_append)
  ultimately show ?thesis using set_xs by blast
qed

definition example_modules :: "module_dependency_input list" where
  "example_modules =
     [\<lparr>md_file_name = ''/app0/eboot.bin'', md_shared_object_name = None,
       md_needed_libraries = [''libB.prx'', ''libc.prx''], md_has_initializer = True\<rparr>,
      \<lparr>md_file_name = ''/app0/LIBB.PRX'', md_shared_object_name = Some ''libb.so'',
       md_needed_libraries = [], md_has_initializer = True\<rparr>]"

lemma example_names:
  "NormalizeName ''/app0/eboot.bin'' = ''eboot.bin''" "NormalizeName ''/app0/LIBB.PRX'' = ''libb.prx''"
  "NormalizeName ''libb.so'' = ''libb.so''" "NormalizeName ''libB.prx'' = ''libb.prx''" "NormalizeName ''libc.prx'' = ''libc.prx''"
  by code_simp+

lemma example_identities:
  "identity_loop 0 0 Map.empty example_modules = Inr [''eboot.bin'' \<mapsto> 0, ''libb.prx'' \<mapsto> 1, ''libb.so'' \<mapsto> 1]"
  by (simp add: example_modules_def example_names AddIdentity_def Let_def)

lemma example_dependencies:
  defines "ids \<equiv> [''eboot.bin'' \<mapsto> 0, ''libb.prx'' \<mapsto> 1, ''libb.so'' \<mapsto> 1]"
  shows "module_dependencies ids example_modules 0 = ({1}, {''libc.prx''}, [\<lparr>mm_requester_index = 0, mm_name = ''libc.prx''\<rparr>])"
    "module_dependencies ids example_modules 1 = ({}, {}, [])"
  by (simp_all add: ids_def module_dependencies_def example_modules_def example_names Let_def)

lemma example_start:
  "start_loop example_modules [{1}, {}]
     \<lparr>ss_started = [False, False], ss_order = [], ss_remaining = 2, ss_progressed = False\<rparr> =
   \<lparr>ss_started = [True, True], ss_order = [1, 0], ss_remaining = 0, ss_progressed = True\<rparr>"
  by code_simp

lemma example_plan:
  "BuildModuleStartPlan example_modules =
     \<lparr>mp_status = kPlanOk, mp_start_order = [1, 0],
      mp_missing_dependencies = [\<lparr>mm_requester_index = 0, mm_name = ''libc.prx''\<rparr>], mp_fallback_start_count = 0\<rparr>"
proof -
  have "length example_modules = 2" "[0..<2] = [0, 1]" "filter md_has_initializer example_modules = example_modules"
    by (simp_all add: example_modules_def upt_rec)
  then show ?thesis
    unfolding BuildModuleStartPlan_def example_identities
    using example_start by (simp add: example_dependencies [unfolded One_nat_def] Let_def numeral_2_eq_2)
qed

theorem start_plan_is_topological_witness:
  "mp_status (BuildModuleStartPlan example_modules) = kPlanOk \<and> acyclic (module_relation example_modules) \<and>
   mp_start_order (BuildModuleStartPlan example_modules) = [1, 0]"
  using start_plan_is_topological [of example_modules] by (simp add: example_plan)

end
