(* ===== verification/Sce_Symbol.thy ===== *)
theory Sce_Symbol
  imports Elf_Types
begin

text \<open>
  Vendor symbol names (\<open>loader/sce_symbol.cpp\<close>): \<open>nid#library#module\<close>, the library and the module as
  numbers in a 64-letter alphabet, and the resolution of such a name to the identities an executable
  lists. A string view is a list of characters, a null pointer \<open>None\<close>.
\<close>

section \<open>Definitions\<close>

text \<open>\<open>std::string_view::find\<close> of a character from a position on.\<close>

fun find_char :: "char \<Rightarrow> string \<Rightarrow> nat option" where
  "find_char c [] = None"
| "find_char c (x # xs) = (if x = c then Some 0 else map_option Suc (find_char c xs))"

definition find_from :: "char \<Rightarrow> string \<Rightarrow> nat \<Rightarrow> nat option" where
  "find_from c s pos = map_option (\<lambda>i. pos + i) (find_char c (drop pos s))"

definition sce_alphabet :: string where
  "sce_alphabet = ''ABCDEFGHIJKLMNOPQRSTUVWXYZabcdefghijklmnopqrstuvwxyz0123456789+-''"

fun decode_loop :: "string \<Rightarrow> u32 \<Rightarrow> u32 option" where
  "decode_loop [] decoded = Some decoded"
| "decode_loop (character # rest) decoded =
     (case find_char character sce_alphabet of
        None \<Rightarrow> None
      | Some digit \<Rightarrow> decode_loop rest (push_bit 6 decoded OR of_nat digit))"

definition DecodeSceId :: "string \<Rightarrow> u16 option" where
  "DecodeSceId v =
     (if v = [] \<or> length v > 3 then None
      else case decode_loop v 0 of
          None \<Rightarrow> None
        | Some decoded \<Rightarrow>
            if decoded > 0xFFFF \<or> (length v = 2 \<and> decoded < 0x40) \<or> (length v = 3 \<and> decoded < 0x1000)
            then None else Some (ucast decoded))"

record sce_symbol_reference =
  sn_nid :: string
  sn_library_id :: u16
  sn_module_id :: u16

definition ParseSceSymbolReference :: "string \<Rightarrow> sce_symbol_reference option" where
  "ParseSceSymbolReference symbol =
     (case find_from (CHR ''#'') symbol 0 of
        None \<Rightarrow> None
      | Some first_separator \<Rightarrow>
          if first_separator = 0 then None
          else case find_from (CHR ''#'') symbol (first_separator + 1) of
              None \<Rightarrow> None
            | Some second_separator \<Rightarrow>
                if find_from (CHR ''#'') symbol (second_separator + 1) \<noteq> None then None
                else
                  (case (DecodeSceId (take (second_separator - first_separator - 1) (drop (first_separator + 1) symbol)),
                         DecodeSceId (drop (second_separator + 1) symbol)) of
                     (Some library_id, Some module_id) \<Rightarrow>
                       Some \<lparr>sn_nid = take first_separator symbol, sn_library_id = library_id, sn_module_id = module_id\<rparr>
                   | _ \<Rightarrow> None))"

text \<open>\<open>FindIdentity\<close> is a template; \<open>id_of\<close> reads the identifier of its type argument.\<close>

definition FindIdentity :: "('i \<Rightarrow> u16) \<Rightarrow> u16 \<Rightarrow> 'i list \<Rightarrow> 'i list \<Rightarrow> 'i option" where
  "FindIdentity id_of identifier imports exports =
     (case List.find (\<lambda>candidate. id_of candidate = identifier) imports of
        Some identity \<Rightarrow> Some identity
      | None \<Rightarrow> List.find (\<lambda>candidate. id_of candidate = identifier) exports)"

record elf_import_reference =
  ir_nid :: string
  ir_library :: "elf_library_identity option"
  ir_module :: "elf_module_identity option"
  ir_valid :: bool

definition ResolveElfImportReference :: "elf_metadata \<Rightarrow> string \<Rightarrow> elf_import_reference" where
  "ResolveElfImportReference metadata symbol =
     (case find_from (CHR ''#'') symbol 0 of
        None \<Rightarrow> \<lparr>ir_nid = symbol, ir_library = None, ir_module = None, ir_valid = (symbol \<noteq> [])\<rparr>
      | Some first_separator \<Rightarrow>
          (case ParseSceSymbolReference symbol of
             None \<Rightarrow> \<lparr>ir_nid = take first_separator symbol, ir_library = None, ir_module = None, ir_valid = False\<rparr>
           | Some parsed \<Rightarrow>
               let info = em_dynamic_info metadata;
                   library = FindIdentity li_id (sn_library_id parsed) (di_import_libraries info) (di_export_libraries info);
                   module = FindIdentity mi_id (sn_module_id parsed) (di_import_modules info) (di_export_modules info)
               in \<lparr>ir_nid = sn_nid parsed, ir_library = library, ir_module = module,
                   ir_valid = (library \<noteq> None \<and> module \<noteq> None)\<rparr>))"

section \<open>The numbering\<close>

text \<open>The canonical spelling of a number: one, two or three letters, no leading zero digit.\<close>

definition sce_letter :: "nat \<Rightarrow> char" where
  "sce_letter d = sce_alphabet ! d"

definition EncodeSceId :: "u16 \<Rightarrow> string" where
  "EncodeSceId i =
     (let n = unat i in
      if n < 64 then [sce_letter n]
      else if n < 4096 then [sce_letter (n div 64), sce_letter (n mod 64)]
      else [sce_letter (n div 4096), sce_letter (n div 64 mod 64), sce_letter (n mod 64)])"

lemma find_char_Some: "find_char c s = Some i \<longleftrightarrow> i < length s \<and> s ! i = c \<and> c \<notin> set (take i s)"
proof (induction s arbitrary: i)
  case (Cons x s)
  show ?case by (cases i) (auto simp: Cons)
qed simp

lemma find_char_None: "find_char c s = None \<longleftrightarrow> c \<notin> set s"
  by (induction s) auto

lemma sce_alphabet_facts: "length sce_alphabet = 64" "distinct sce_alphabet" "CHR ''#'' \<notin> set sce_alphabet"
  by code_simp+

lemma find_letter: "find_char c sce_alphabet = Some d \<longleftrightarrow> d < 64 \<and> c = sce_letter d"
proof -
  have "sce_alphabet ! d \<notin> set (take d sce_alphabet)" if "d < 64"
  proof
    assume "sce_alphabet ! d \<in> set (take d sce_alphabet)"
    then obtain j where "j < d" "sce_alphabet ! j = sce_alphabet ! d" by (auto simp: in_set_conv_nth)
    then show False using sce_alphabet_facts(1,2) that by (auto simp: nth_eq_iff_index_eq)
  qed
  then show ?thesis by (auto simp: find_char_Some sce_letter_def sce_alphabet_facts(1))
qed

lemma sce_letter_eq: "d < 64 \<Longrightarrow> e < 64 \<Longrightarrow> sce_letter d = sce_letter e \<longleftrightarrow> d = e"
  using sce_alphabet_facts(1,2) by (simp add: sce_letter_def nth_eq_iff_index_eq)

lemma shift_or_digit:
  assumes "unat (x :: u32) < 67108864" "d < 64"
  shows "unat (push_bit 6 x OR of_nat d) = unat x * 64 + d"
proof -
  have "\<not> bit d n" if "6 \<le> n" for n
  proof -
    have "d < 2 ^ n" using assms(2) power_increasing [OF that, of "2 :: nat"] by simp
    then show ?thesis by (simp add: bit_iff_odd)
  qed
  then have "push_bit 6 x AND of_nat d = 0"
    by (auto simp: bit_eq_iff bit_simps)
  then have "push_bit 6 x OR of_nat d = push_bit 6 x + of_nat d" by (simp add: disjunctive_add_eq_or)
  also have "unat \<dots> = unat x * 64 + d"
    using assms by (simp add: push_bit_eq_mult unat_word_ariths unat_of_nat)
  finally show ?thesis .
qed

definition sce_value :: "nat \<Rightarrow> nat list \<Rightarrow> nat" where
  "sce_value = foldl (\<lambda>n d. n * 64 + d)"

lemma decode_loop_Some:
  assumes "Suc (unat w0) * 64 ^ length s \<le> 4294967296"
  shows "decode_loop s w0 = Some w \<longleftrightarrow>
    (\<exists>ds. s = map sce_letter ds \<and> (\<forall>d \<in> set ds. d < 64) \<and> unat w = sce_value (unat w0) ds)"
  using assms
proof (induction s arbitrary: w0)
  case Nil
  then show ?case by (auto simp: sce_value_def word_unat_eq_iff)
next
  case (Cons c s)
  have room: "unat w0 < 67108864"
  proof -
    have "Suc (unat w0) * 64 \<le> Suc (unat w0) * 64 ^ Suc (length s)" by (intro mult_le_mono2) simp
    then show ?thesis using Cons.prems by simp
  qed
  show ?case
  proof (cases "find_char c sce_alphabet")
    case None
    then have "c \<noteq> sce_letter d" if "d < 64" for d using find_letter [of c d] that by auto
    then show ?thesis using None by (auto simp: Cons_eq_map_conv) blast
  next
    case (Some d)
    then have d: "d < 64" "c = sce_letter d" by (simp_all add: find_letter)
    let ?w1 = "push_bit 6 w0 OR of_nat d :: u32"
    note w1 = shift_or_digit [OF room d(1)]
    have "Suc (unat ?w1) * 64 ^ length s \<le> (Suc (unat w0) * 64) * 64 ^ length s"
      using d(1) unfolding w1 by (intro mult_le_mono1) simp
    then have "Suc (unat ?w1) * 64 ^ length s \<le> 4294967296" using Cons.prems by (simp add: algebra_simps)
    note IH = Cons.IH [OF this]
    have "(\<exists>ds. s = map sce_letter ds \<and> (\<forall>d \<in> set ds. d < 64) \<and> unat w = sce_value (unat ?w1) ds) \<longleftrightarrow>
        (\<exists>ds. c # s = map sce_letter ds \<and> (\<forall>d \<in> set ds. d < 64) \<and> unat w = sce_value (unat w0) ds)" (is "?L \<longleftrightarrow> ?R")
    proof
      assume ?L
      then obtain ds where "s = map sce_letter ds" "\<forall>d \<in> set ds. d < 64" "unat w = sce_value (unat ?w1) ds" by blast
      then show ?R using d by (intro exI [of _ "d # ds"]) (simp add: sce_value_def w1)
    next
      assume ?R
      then obtain ds where ds: "c # s = map sce_letter ds" "\<forall>d \<in> set ds. d < 64" "unat w = sce_value (unat w0) ds"
        by (elim exE conjE) (rule that)
      then obtain e es where "ds = e # es" by (cases ds) auto
      moreover from this ds d have "e = d" using sce_letter_eq [of e d] by simp
      ultimately show ?L using ds by (intro exI [of _ es]) (simp add: sce_value_def w1)
    qed
    then show ?thesis using Some IH by simp
  qed
qed

lemma digits_unique:
  "d < 64 \<Longrightarrow> e < 64 \<Longrightarrow> d * 64 + e = n \<longleftrightarrow> d = n div 64 \<and> e = n mod (64 :: nat) \<and> n < 4096"
  by auto

lemma unat_ucast_u32_u16: "decoded \<le> 0xFFFF \<Longrightarrow> ucast (decoded :: u32) = (i :: u16) \<longleftrightarrow> unat decoded = unat i"
proof -
  assume "decoded \<le> 0xFFFF"
  then have "unat decoded < 65536" by (simp add: word_le_nat_alt)
  then have "unat (ucast decoded :: u16) = unat decoded" by (simp add: unsigned_ucast_eq take_bit_nat_eq_self_iff)
  then show ?thesis by (metis unsigned_word_eqI)
qed

lemma DecodeSceId_value:
  assumes "0 < length s" "length s \<le> 3"
  shows "DecodeSceId s = Some i \<longleftrightarrow> (\<exists>ds. s = map sce_letter ds \<and> (\<forall>d \<in> set ds. d < 64) \<and> unat i = sce_value 0 ds \<and>
    (length s = 2 \<longrightarrow> 64 \<le> unat i) \<and> (length s = 3 \<longrightarrow> 4096 \<le> unat i))"
proof -
  have "(64 :: nat) ^ length s \<le> 64 ^ 3" by (rule power_increasing) (use assms in auto)
  then have b: "Suc (unat (0 :: u32)) * 64 ^ length s \<le> 4294967296" by simp
  have u: "unat i < 65536" using unsigned_less [of i, where 'a = nat] by simp
  show ?thesis
  proof
    assume "DecodeSceId s = Some i"
    then obtain w where w: "decode_loop s 0 = Some w" "w \<le> 0xFFFF" "ucast w = i"
      "length s = 2 \<longrightarrow> 0x40 \<le> w" "length s = 3 \<longrightarrow> 0x1000 \<le> w"
      by (auto simp: DecodeSceId_def not_less split: option.splits if_splits)
    have "unat w = unat i" using w(2,3) unat_ucast_u32_u16 by blast
    then show "\<exists>ds. s = map sce_letter ds \<and> (\<forall>d \<in> set ds. d < 64) \<and> unat i = sce_value 0 ds \<and>
        (length s = 2 \<longrightarrow> 64 \<le> unat i) \<and> (length s = 3 \<longrightarrow> 4096 \<le> unat i)"
      using w(1,4,5) unfolding decode_loop_Some [OF b] by (auto simp: word_le_nat_alt)
  next
    assume "\<exists>ds. s = map sce_letter ds \<and> (\<forall>d \<in> set ds. d < 64) \<and> unat i = sce_value 0 ds \<and>
        (length s = 2 \<longrightarrow> 64 \<le> unat i) \<and> (length s = 3 \<longrightarrow> 4096 \<le> unat i)"
    then obtain ds where ds: "s = map sce_letter ds" "\<forall>d \<in> set ds. d < 64" "unat i = sce_value 0 ds"
      "length s = 2 \<longrightarrow> 64 \<le> unat i" "length s = 3 \<longrightarrow> 4096 \<le> unat i" by blast
    have w: "unat (ucast i :: u32) = unat i" by (simp add: unsigned_ucast_eq take_bit_nat_eq_self_iff) (use u in simp)
    then have "decode_loop s 0 = Some (ucast i)" unfolding decode_loop_Some [OF b] using ds by auto
    moreover have "(ucast i :: u32) \<le> 0xFFFF" using u w by (simp add: word_le_nat_alt)
    moreover have "ucast (ucast i :: u32) = i" using unat_ucast_u32_u16 [OF calculation(2), of i] w by simp
    ultimately show "DecodeSceId s = Some i"
      using assms ds(4,5) w by (auto simp: DecodeSceId_def not_less word_le_nat_alt word_less_nat_alt)
  qed
qed

lemma last_digit: "f < 64 \<Longrightarrow> x * 64 + f = n \<longleftrightarrow> x = n div 64 \<and> f = n mod (64 :: nat)"
  by auto

lemma digits_unique3:
  assumes "d < 64" "e < 64" "f < 64"
  shows "(d * 64 + e) * 64 + f = n \<longleftrightarrow> d = n div 4096 \<and> e = n div 64 mod 64 \<and> f = n mod (64 :: nat) \<and> n < 262144"
proof -
  have "n div 64 div 64 = n div 4096" by (simp add: div_mult2_eq [symmetric])
  moreover have "n div 64 < 4096 \<longleftrightarrow> n < 262144" by auto
  ultimately show ?thesis
    using last_digit [OF assms(3), of "d * 64 + e" n] digits_unique [OF assms(1,2), of "n div 64"] by auto
qed

lemma ex_map_singles:
  "(\<exists>ds. [a] = map f ds \<and> P ds) \<longleftrightarrow> (\<exists>d. a = f d \<and> P [d])"
  "(\<exists>ds. [a, b] = map f ds \<and> P ds) \<longleftrightarrow> (\<exists>d e. a = f d \<and> b = f e \<and> P [d, e])"
  "(\<exists>ds. [a, b, c] = map f ds \<and> P ds) \<longleftrightarrow> (\<exists>d e g. a = f d \<and> b = f e \<and> c = f g \<and> P [d, e, g])"
  by (auto simp: Cons_eq_map_conv) blast+

lemma DecodeSceId_Encode: "DecodeSceId s = Some i \<longleftrightarrow> s = EncodeSceId i"
proof -
  have u: "unat i < 65536" using unsigned_less [of i, where 'a = nat] by simp
  consider "s = []" | a where "s = [a]" | a b where "s = [a, b]" | a b c where "s = [a, b, c]" | "length s > 3"
    by (cases s; cases "tl s"; cases "tl (tl s)"; cases "tl (tl (tl s))") auto
  then show ?thesis
  proof cases
    case 1
    then show ?thesis by (simp add: DecodeSceId_def EncodeSceId_def Let_def)
  next
    case (2 a)
    have "DecodeSceId s = Some i \<longleftrightarrow> (\<exists>d < 64. a = sce_letter d \<and> unat i = d)"
      unfolding 2 by (subst DecodeSceId_value) (simp_all add: sce_value_def ex_map_singles, metis)
    then show ?thesis unfolding 2 by (auto simp: EncodeSceId_def Let_def)
  next
    case (3 a b)
    have "DecodeSceId s = Some i \<longleftrightarrow> 64 \<le> unat i \<and> (\<exists>d < 64. \<exists>e < 64. a = sce_letter d \<and> b = sce_letter e \<and> d * 64 + e = unat i)"
      unfolding 3 by (subst DecodeSceId_value) (simp_all add: sce_value_def ex_map_singles, metis)
    also have "\<dots> \<longleftrightarrow> 64 \<le> unat i \<and> unat i < 4096 \<and> a = sce_letter (unat i div 64) \<and> b = sce_letter (unat i mod 64)"
      (is "?L \<longleftrightarrow> ?R")
    proof
      assume ?R
      moreover from this have "unat i div 64 < 64" by (simp add: less_mult_imp_div_less)
      ultimately show ?L
        by (intro conjI exI [of _ "unat i div 64"] exI [of _ "unat i mod 64"]) simp_all
    qed (use digits_unique in auto)
    finally show ?thesis unfolding 3 by (auto simp: EncodeSceId_def Let_def)
  next
    case (4 a b c)
    have "DecodeSceId s = Some i \<longleftrightarrow> 4096 \<le> unat i \<and> (\<exists>d < 64. \<exists>e < 64. \<exists>f < 64.
        a = sce_letter d \<and> b = sce_letter e \<and> c = sce_letter f \<and> (d * 64 + e) * 64 + f = unat i)"
      unfolding 4 by (subst DecodeSceId_value) (auto simp: sce_value_def ex_map_singles, metis, metis)
    also have "\<dots> \<longleftrightarrow> 4096 \<le> unat i \<and> a = sce_letter (unat i div 4096) \<and> b = sce_letter (unat i div 64 mod 64) \<and> c = sce_letter (unat i mod 64)"
      (is "?L \<longleftrightarrow> ?R")
    proof
      assume ?R
      moreover have "unat i div 4096 < 64" using u by (simp add: less_mult_imp_div_less)
      moreover have "(unat i div 4096 * 64 + unat i div 64 mod 64) * 64 + unat i mod 64 = unat i"
        using digits_unique3 [of "unat i div 4096" "unat i div 64 mod 64" "unat i mod 64" "unat i"] u calculation by simp
      ultimately show ?L
        by (intro conjI exI [of _ "unat i div 4096"] exI [of _ "unat i div 64 mod 64"] exI [of _ "unat i mod 64"]) simp_all
    qed (use digits_unique3 in auto)
    finally show ?thesis unfolding 4 by (auto simp: EncodeSceId_def Let_def)
  next
    case 5
    then show ?thesis by (auto simp: DecodeSceId_def EncodeSceId_def Let_def)
  qed
qed

lemma EncodeSceId_letters: "set (EncodeSceId i) \<subseteq> set sce_alphabet"
proof -
  have "unat i < 65536" using unsigned_less [of i, where 'a = nat] by simp
  then have "unat i div 4096 < 64" by (simp add: less_mult_imp_div_less)
  then show ?thesis using sce_alphabet_facts(1)
    by (auto simp: EncodeSceId_def Let_def sce_letter_def less_mult_imp_div_less intro!: nth_mem)
qed

section \<open>References\<close>

lemma find_char_split: "find_char c s = Some i \<longleftrightarrow> (\<exists>a b. s = a @ c # b \<and> c \<notin> set a \<and> i = length a)"
proof
  assume "find_char c s = Some i"
  then have i: "i < length s" "s ! i = c" "c \<notin> set (take i s)" by (simp_all add: find_char_Some)
  show "\<exists>a b. s = a @ c # b \<and> c \<notin> set a \<and> i = length a"
    using id_take_nth_drop [OF i(1)] i by (intro exI [of _ "take i s"] exI [of _ "drop (Suc i) s"]) simp
qed (auto simp: find_char_Some)

lemma find_from_0: "find_from c s 0 = find_char c s"
  by (simp add: find_from_def option.map_ident)

lemma find_from_append: "find_from c (a @ x # b) (Suc (length a)) = map_option (\<lambda>i. Suc (length a) + i) (find_char c b)"
  by (simp add: find_from_def)

lemma one_more_separator:
  assumes "CHR ''#'' \<notin> set a"
  shows "a @ CHR ''#'' # b = a' @ CHR ''#'' # b' \<and> CHR ''#'' \<notin> set a' \<longleftrightarrow> a' = a \<and> b' = b"
  using assms by (auto simp: append_eq_append_conv2 Cons_eq_append_conv append_eq_Cons_conv)

text \<open>
  C40: vendor symbol names are parsed exactly as they are written. A name parses to a reference if and
  only if it is the non-empty name without separators, the canonical spelling of the library number
  and the canonical spelling of the module number, separated by \<open>#\<close>. So every reference can be
  written and read back, no reference has two spellings, and every other string is rejected.
\<close>

theorem symbol_reference_roundtrip:
  "ParseSceSymbolReference s = Some r \<longleftrightarrow>
     sn_nid r \<noteq> [] \<and> CHR ''#'' \<notin> set (sn_nid r) \<and>
     s = sn_nid r @ CHR ''#'' # EncodeSceId (sn_library_id r) @ CHR ''#'' # EncodeSceId (sn_module_id r)"
proof (cases "find_char (CHR ''#'') s")
  case None
  then have "CHR ''#'' \<notin> set s" by (simp add: find_char_None)
  then show ?thesis using None by (auto simp: ParseSceSymbolReference_def find_from_0)
next
  case (Some i)
  then obtain n rest where s: "s = n @ CHR ''#'' # rest" and n: "CHR ''#'' \<notin> set n" and i: "i = length n"
    by (auto simp: find_char_split)
  note first = one_more_separator [OF n, of rest]
  have spelled: "CHR ''#'' \<notin> set (EncodeSceId k)" for k using EncodeSceId_letters sce_alphabet_facts(3) by blast
  show ?thesis
  proof (cases "find_char (CHR ''#'') rest")
    case None
    then have "CHR ''#'' \<notin> set rest" by (simp add: find_char_None)
    moreover have "ParseSceSymbolReference s = None"
      using Some None by (simp add: ParseSceSymbolReference_def find_from_0 s i find_from_append)
    ultimately show ?thesis
      using first [of "sn_nid r" "EncodeSceId (sn_library_id r) @ CHR ''#'' # EncodeSceId (sn_module_id r)"] s by force
  next
    case (Some j)
    then obtain l m where rest: "rest = l @ CHR ''#'' # m" and l: "CHR ''#'' \<notin> set l" and j: "j = length l"
      by (auto simp: find_char_split)
    note second = one_more_separator [OF l, of m]
    have third: "find_from (CHR ''#'') s (i + 1 + j + 1) = map_option (\<lambda>k. i + 1 + j + 1 + k) (find_char (CHR ''#'') m)"
      using find_from_append [of _ "n @ CHR ''#'' # l" "CHR ''#''" m] by (simp add: s rest i j)
    have "ParseSceSymbolReference s = Some r \<longleftrightarrow> n \<noteq> [] \<and> CHR ''#'' \<notin> set m \<and> sn_nid r = n \<and>
        DecodeSceId l = Some (sn_library_id r) \<and> DecodeSceId m = Some (sn_module_id r)"
      using \<open>find_char (CHR ''#'') s = Some i\<close> Some third
      by (cases r) (auto simp: ParseSceSymbolReference_def find_from_0 find_from_append s i j rest find_char_None
          split: option.splits)
    also have "\<dots> \<longleftrightarrow> n \<noteq> [] \<and> sn_nid r = n \<and> l = EncodeSceId (sn_library_id r) \<and> m = EncodeSceId (sn_module_id r)"
      using spelled by (auto simp: DecodeSceId_Encode)
    finally show ?thesis
      using first [of "sn_nid r" "EncodeSceId (sn_library_id r) @ CHR ''#'' # EncodeSceId (sn_module_id r)"]
        second [of "EncodeSceId (sn_library_id r)" "EncodeSceId (sn_module_id r)"] spelled n
      unfolding s rest by metis
  qed
qed

end
