(* ===== verification/Relocator.thy ===== *)
theory Relocator
  imports Sce_Symbol Guest_Initialize
begin

text \<open>
  Relocation of a loaded executable (\<open>loader/relocator.cpp\<close>): both relocation tables are planned
  against the memory first, and the planned values are stored only if every entry could be planned.
  The import resolver is a virtual class; its two functions are a record. Reference parameters of
  the planner are a state that it returns. The fault and the answers of the host for the k-th
  store are \<open>fault k\<close> and \<open>host k\<close>.
\<close>

section \<open>Definitions\<close>

datatype relocation_status =
  kRelocationOk | kUnsupportedRelocation | kInvalidRelativeSymbol | kTargetAddressOverflow | kTargetNotMapped
  | kRelocationWriteFailed | kInvalidSymbolIndex | kEmptyImportSymbol | kInvalidResolvedAddress
  | kMissingTlsModuleId | kMissingTlsStaticOffset | kInvalidTlsSymbol | kRelocationValueOverflow

record unresolved_import =
  ui_symbol_index :: u32
  ui_relocation_type :: u32
  ui_target_address :: u64
  ui_symbol :: string

record relocation_result =
  rr_status :: relocation_status
  rr_applied_count :: nat
  rr_unresolved_import_count :: nat
  rr_resolved_import_count :: nat
  rr_unresolved_imports :: "unresolved_import list"
  rr_unsupported_relocation_type :: "u32 option"

record import_resolver =
  ResolveImport :: "string \<Rightarrow> string list \<Rightarrow> u64 option"
  ResolveScopedImport :: "string \<Rightarrow> elf_library_identity \<Rightarrow> elf_module_identity \<Rightarrow> u64 option"

text \<open>The scoped lookup of the base class.\<close>

definition DefaultResolveScopedImport ::
  "(string \<Rightarrow> string list \<Rightarrow> u64 option) \<Rightarrow> string \<Rightarrow> elf_library_identity \<Rightarrow> elf_module_identity \<Rightarrow> u64 option" where
  "DefaultResolveScopedImport resolve symbol library module = resolve symbol [li_name library]"

abbreviation kRelocationNone :: u32 where "kRelocationNone \<equiv> 0"
abbreviation kRelocationAbsolute64 :: u32 where "kRelocationAbsolute64 \<equiv> 1"
abbreviation kRelocationPc32 :: u32 where "kRelocationPc32 \<equiv> 2"
abbreviation kRelocationPlt32 :: u32 where "kRelocationPlt32 \<equiv> 4"
abbreviation kRelocationGlobDat :: u32 where "kRelocationGlobDat \<equiv> 6"
abbreviation kRelocationJumpSlot :: u32 where "kRelocationJumpSlot \<equiv> 7"
abbreviation kRelocationRelative :: u32 where "kRelocationRelative \<equiv> 8"
abbreviation kRelocationUnsigned32 :: u32 where "kRelocationUnsigned32 \<equiv> 10"
abbreviation kRelocationSigned32 :: u32 where "kRelocationSigned32 \<equiv> 11"
abbreviation kRelocationTlsModuleId :: u32 where "kRelocationTlsModuleId \<equiv> 16"
abbreviation kRelocationTlsDtpOffset :: u32 where "kRelocationTlsDtpOffset \<equiv> 17"
abbreviation kRelocationTlsTpOffset :: u32 where "kRelocationTlsTpOffset \<equiv> 18"
abbreviation kRelocationPc64 :: u32 where "kRelocationPc64 \<equiv> 24"
abbreviation kRelocationSize32 :: u32 where "kRelocationSize32 \<equiv> 32"
abbreviation kRelocationSize64 :: u32 where "kRelocationSize64 \<equiv> 33"
abbreviation kRelocationRelative64 :: u32 where "kRelocationRelative64 \<equiv> 38"
abbreviation kSymbolBindingWeak :: u8 where "kSymbolBindingWeak \<equiv> 2"
abbreviation kUndefinedSectionIndex :: u16 where "kUndefinedSectionIndex \<equiv> 0"

record planned_relocation =
  pr_address :: u64
  pr_value :: "u8 list"
  pr_size :: nat

definition IsSymbolRelocation :: "u32 \<Rightarrow> bool" where
  "IsSymbolRelocation t \<longleftrightarrow>
     t = kRelocationAbsolute64 \<or> t = kRelocationPc32 \<or> t = kRelocationPlt32 \<or> t = kRelocationGlobDat \<or>
     t = kRelocationJumpSlot \<or> t = kRelocationUnsigned32 \<or> t = kRelocationSigned32 \<or> t = kRelocationPc64 \<or>
     t = kRelocationSize32 \<or> t = kRelocationSize64"

definition IsPcRelativeRelocation :: "u32 \<Rightarrow> bool" where
  "IsPcRelativeRelocation t \<longleftrightarrow> t = kRelocationPc32 \<or> t = kRelocationPlt32 \<or> t = kRelocationPc64"

definition IsSizeRelocation :: "u32 \<Rightarrow> bool" where
  "IsSizeRelocation t \<longleftrightarrow> t = kRelocationSize32 \<or> t = kRelocationSize64"

definition RelocationWriteSize :: "u32 \<Rightarrow> nat" where
  "RelocationWriteSize t =
     (if t = kRelocationPc32 \<or> t = kRelocationPlt32 \<or> t = kRelocationUnsigned32 \<or> t = kRelocationSigned32 \<or>
         t = kRelocationSize32 then 4 else 8)"

definition EncodeLittleEndian :: "u64 \<Rightarrow> planned_relocation \<Rightarrow> planned_relocation" where
  "EncodeLittleEndian v relocation =
     relocation\<lparr>pr_value := map (\<lambda>index. if index < pr_size relocation then ucast (drop_bit (index * 8) v AND 0xFF)
        else pr_value relocation ! index) [0..<8]\<rparr>"

definition planned :: "u64 \<Rightarrow> nat \<Rightarrow> u64 \<Rightarrow> planned_relocation" where
  "planned target write_size v =
     EncodeLittleEndian v \<lparr>pr_address = target, pr_value = replicate 8 0, pr_size = write_size\<rparr>"

record plan_state =
  ps_planned :: "planned_relocation list"
  ps_resolved_import_count :: nat
  ps_unresolved_imports :: "unresolved_import list"
  ps_unsupported_type :: "u32 option"

text \<open>The symbols of the executable and the parameters of a relocation.\<close>

record relocation_context =
  rc_metadata :: elf_metadata
  rc_resolver :: "import_resolver option"
  rc_load_bias :: u64
  rc_tls_module_id :: u64
  rc_tls_static_offset :: u64

abbreviation symbols_of :: "relocation_context \<Rightarrow> elf_symbol list" where
  "symbols_of ctx \<equiv> di_symbols (em_dynamic_info (rc_metadata ctx))"

definition plan_tls_module :: "relocation_context \<Rightarrow> u64 \<Rightarrow> plan_state \<Rightarrow> relocation_status \<times> plan_state" where
  "plan_tls_module ctx target st =
     (if rc_tls_module_id ctx = 0 then (kMissingTlsModuleId, st)
      else (kRelocationOk, st\<lparr>ps_planned := ps_planned st @ [planned target 8 (rc_tls_module_id ctx)]\<rparr>))"

definition plan_tls_offset ::
  "relocation_context \<Rightarrow> elf_rela_entry \<Rightarrow> u64 \<Rightarrow> plan_state \<Rightarrow> relocation_status \<times> plan_state" where
  "plan_tls_offset ctx entry target st =
     (let t = rela_type entry; index = rela_symbol entry in
      if rc_tls_module_id ctx = 0 then (kMissingTlsModuleId, st)
      else if t = kRelocationTlsTpOffset \<and> rc_tls_static_offset ctx = 0 then (kMissingTlsStaticOffset, st)
      else if index \<noteq> 0 \<and> unat index \<ge> length (symbols_of ctx) then (kInvalidSymbolIndex, st)
      else if index \<noteq> 0 \<and> sy_section_index (symbols_of ctx ! unat index) = kUndefinedSectionIndex then (kInvalidTlsSymbol, st)
      else
        let symbol_value = (if index \<noteq> 0 then sy_value (symbols_of ctx ! unat index) else 0);
            v = symbol_value + of_int (re_addend entry);
            v' = (if t = kRelocationTlsTpOffset then v - rc_tls_static_offset ctx else v)
        in (kRelocationOk, st\<lparr>ps_planned := ps_planned st @ [planned target 8 v']\<rparr>))"

text \<open>What a symbol resolves to: an error, a skipped import, or an address and whether it was imported.\<close>

datatype symbol_resolution = ResolutionError relocation_status | Unresolved | Resolved u64 bool

definition resolve_import_symbol :: "relocation_context \<Rightarrow> u32 \<Rightarrow> elf_symbol \<Rightarrow> symbol_resolution" where
  "resolve_import_symbol ctx t symbol =
     (case rc_resolver ctx of
        None \<Rightarrow> Unresolved
      | Some resolver \<Rightarrow>
          let reference = ResolveElfImportReference (rc_metadata ctx) (sy_name symbol) in
          if ir_nid reference = [] then ResolutionError kEmptyImportSymbol
          else if \<not> ir_valid reference then Unresolved
          else
            (case (case (ir_library reference, ir_module reference) of
                     (Some library, Some module) \<Rightarrow> ResolveScopedImport resolver (ir_nid reference) library module
                   | _ \<Rightarrow> ResolveImport resolver (ir_nid reference)
                            (di_needed_libraries (em_dynamic_info (rc_metadata ctx)))) of
               None \<Rightarrow> Unresolved
             | Some address \<Rightarrow>
                 if address = 0 then ResolutionError kInvalidResolvedAddress
                 else Resolved (if IsSizeRelocation t then sy_size symbol else address) True))"

definition resolve_symbol :: "relocation_context \<Rightarrow> u32 \<Rightarrow> u32 \<Rightarrow> symbol_resolution" where
  "resolve_symbol ctx t index =
     (if index = 0 then Resolved 0 False
      else if unat index \<ge> length (symbols_of ctx) then ResolutionError kInvalidSymbolIndex
      else
        let symbol = symbols_of ctx ! unat index in
        if sy_section_index symbol \<noteq> kUndefinedSectionIndex
        then if IsSizeRelocation t then Resolved (sy_size symbol) False
             else if sy_value symbol > u64_max - rc_load_bias ctx then ResolutionError kInvalidResolvedAddress
             else Resolved (rc_load_bias ctx + sy_value symbol) False
        else if symbol_binding symbol = kSymbolBindingWeak
        then Resolved (if IsSizeRelocation t then sy_size symbol else 0) False
        else resolve_import_symbol ctx t symbol)"

definition plan_symbol ::
  "relocation_context \<Rightarrow> elf_rela_entry \<Rightarrow> u64 \<Rightarrow> nat \<Rightarrow> plan_state \<Rightarrow> relocation_status \<times> plan_state" where
  "plan_symbol ctx entry target write_size st =
     (let t = rela_type entry; index = rela_symbol entry in
      case resolve_symbol ctx t index of
        ResolutionError status \<Rightarrow> (status, st)
      | Unresolved \<Rightarrow>
          (kRelocationOk, st\<lparr>ps_unresolved_imports := ps_unresolved_imports st @
             [\<lparr>ui_symbol_index = index, ui_relocation_type = t, ui_target_address = target,
               ui_symbol = sy_name (symbols_of ctx ! unat index)\<rparr>]\<rparr>)
      | Resolved resolved resolved_import \<Rightarrow>
          let addend = (if t = kRelocationGlobDat \<or> t = kRelocationJumpSlot then 0 else of_int (re_addend entry));
              v0 = resolved + addend;
              v = (if IsPcRelativeRelocation t then v0 - target else v0)
          in if (t = kRelocationPc32 \<or> t = kRelocationPlt32 \<or> t = kRelocationSigned32) \<and>
                (sint v < - 2147483648 \<or> sint v > 2147483647)
             then (kRelocationValueOverflow, st)
             else if (t = kRelocationUnsigned32 \<or> t = kRelocationSize32) \<and> v > 0xFFFFFFFF
             then (kRelocationValueOverflow, st)
             else (kRelocationOk, st\<lparr>ps_planned := ps_planned st @ [planned target write_size v],
                     ps_resolved_import_count := ps_resolved_import_count st + of_bool resolved_import\<rparr>))"

text \<open>One iteration of the loop; the type check comes before every other.\<close>

definition supported_relocation :: "u32 \<Rightarrow> bool" where
  "supported_relocation t \<longleftrightarrow>
     IsSymbolRelocation t \<or> t = kRelocationTlsModuleId \<or> t = kRelocationTlsDtpOffset \<or> t = kRelocationTlsTpOffset \<or>
     t = kRelocationRelative \<or> t = kRelocationRelative64"

definition plan_entry ::
  "relocation_context \<Rightarrow> guest_memory \<Rightarrow> elf_rela_entry \<Rightarrow> plan_state \<Rightarrow> relocation_status \<times> plan_state" where
  "plan_entry ctx gm entry st =
     (let t = rela_type entry in
      if t = kRelocationNone then (kRelocationOk, st)
      else if \<not> supported_relocation t then (kUnsupportedRelocation, st\<lparr>ps_unsupported_type := Some t\<rparr>)
      else if (t = kRelocationRelative \<or> t = kRelocationRelative64) \<and> rela_symbol entry \<noteq> 0
      then (kInvalidRelativeSymbol, st)
      else if re_offset entry > u64_max - rc_load_bias ctx then (kTargetAddressOverflow, st)
      else
        let target = rc_load_bias ctx + re_offset entry;
            write_size = RelocationWriteSize t
        in if \<not> IsMapped target (of_nat write_size) gm then (kTargetNotMapped, st)
           else if t = kRelocationTlsModuleId then plan_tls_module ctx target st
           else if t = kRelocationTlsDtpOffset \<or> t = kRelocationTlsTpOffset then plan_tls_offset ctx entry target st
           else if IsSymbolRelocation t then plan_symbol ctx entry target write_size st
           else (kRelocationOk,
                 st\<lparr>ps_planned := ps_planned st @ [planned target 8 (rc_load_bias ctx + of_int (re_addend entry))]\<rparr>))"

fun PlanTable ::
  "relocation_context \<Rightarrow> guest_memory \<Rightarrow> elf_rela_entry list \<Rightarrow> plan_state \<Rightarrow> relocation_status \<times> plan_state" where
  "PlanTable ctx gm [] st = (kRelocationOk, st)"
| "PlanTable ctx gm (entry # entries) st =
     (case plan_entry ctx gm entry st of
        (status, st') \<Rightarrow> if status \<noteq> kRelocationOk then (status, st') else PlanTable ctx gm entries st')"

text \<open>The stores, in the order of the plan; the count is the number of relocations applied before.\<close>

fun apply_loop ::
  "(nat \<Rightarrow> bool) \<Rightarrow> (nat \<Rightarrow> nat \<Rightarrow> bool) \<Rightarrow> nat \<Rightarrow> planned_relocation list \<Rightarrow> guest_memory \<Rightarrow>
   (bool \<times> nat \<times> guest_memory) option" where
  "apply_loop fault host applied_count [] gm = Some (True, applied_count, gm)"
| "apply_loop fault host applied_count (relocation # rest) gm =
     (case Initialize (fault applied_count) (host applied_count) (pr_address relocation)
             (take (pr_size relocation) (pr_value relocation)) gm of
        None \<Rightarrow> None
      | Some (False, gm') \<Rightarrow> Some (False, applied_count, gm')
      | Some (True, gm') \<Rightarrow> apply_loop fault host (Suc applied_count) rest gm')"

definition new_plan :: plan_state where
  "new_plan = \<lparr>ps_planned = [], ps_resolved_import_count = 0, ps_unresolved_imports = [], ps_unsupported_type = None\<rparr>"

definition plan_tables :: "relocation_context \<Rightarrow> guest_memory \<Rightarrow> relocation_status \<times> plan_state" where
  "plan_tables ctx gm =
     (case PlanTable ctx gm (di_relocations (em_dynamic_info (rc_metadata ctx))) new_plan of
        (status, st) \<Rightarrow>
          if status = kRelocationOk
          then PlanTable ctx gm (di_plt_relocations (em_dynamic_info (rc_metadata ctx))) st
          else (status, st))"

definition relocation_report :: "relocation_status \<Rightarrow> nat \<Rightarrow> plan_state \<Rightarrow> u32 option \<Rightarrow> relocation_result" where
  "relocation_report status applied_count st unsupported_type =
     \<lparr>rr_status = status, rr_applied_count = applied_count,
      rr_unresolved_import_count = length (ps_unresolved_imports st),
      rr_resolved_import_count = ps_resolved_import_count st, rr_unresolved_imports = ps_unresolved_imports st,
      rr_unsupported_relocation_type = unsupported_type\<rparr>"

definition ApplyRelocationsInternal ::
  "(nat \<Rightarrow> bool) \<Rightarrow> (nat \<Rightarrow> nat \<Rightarrow> bool) \<Rightarrow> relocation_context \<Rightarrow> guest_memory \<Rightarrow>
   (relocation_result \<times> guest_memory) option" where
  "ApplyRelocationsInternal fault host ctx gm =
     (case plan_tables ctx gm of
        (status, st) \<Rightarrow>
          if status \<noteq> kRelocationOk then Some (relocation_report status 0 st (ps_unsupported_type st), gm)
          else map_option (\<lambda>(ok, applied_count, gm').
                 (relocation_report (if ok then kRelocationOk else kRelocationWriteFailed) applied_count st None, gm'))
               (apply_loop fault host 0 (ps_planned st) gm))"

definition ApplyRelativeRelocations ::
  "(nat \<Rightarrow> bool) \<Rightarrow> (nat \<Rightarrow> nat \<Rightarrow> bool) \<Rightarrow> elf_metadata \<Rightarrow> u64 \<Rightarrow> u64 \<Rightarrow> u64 \<Rightarrow> guest_memory \<Rightarrow>
   (relocation_result \<times> guest_memory) option" where
  "ApplyRelativeRelocations fault host metadata load_bias tls_module_id tls_static_offset gm =
     ApplyRelocationsInternal fault host
       \<lparr>rc_metadata = metadata, rc_resolver = None, rc_load_bias = load_bias, rc_tls_module_id = tls_module_id,
        rc_tls_static_offset = tls_static_offset\<rparr> gm"

definition ApplyRelocations ::
  "(nat \<Rightarrow> bool) \<Rightarrow> (nat \<Rightarrow> nat \<Rightarrow> bool) \<Rightarrow> elf_metadata \<Rightarrow> import_resolver \<Rightarrow> u64 \<Rightarrow> u64 \<Rightarrow> u64 \<Rightarrow> guest_memory \<Rightarrow>
   (relocation_result \<times> guest_memory) option" where
  "ApplyRelocations fault host metadata resolver load_bias tls_module_id tls_static_offset gm =
     ApplyRelocationsInternal fault host
       \<lparr>rc_metadata = metadata, rc_resolver = Some resolver, rc_load_bias = load_bias, rc_tls_module_id = tls_module_id,
        rc_tls_static_offset = tls_static_offset\<rparr> gm"

fun RelocationStatusName :: "relocation_status \<Rightarrow> string" where
  "RelocationStatusName kRelocationOk = ''ok''"
| "RelocationStatusName kUnsupportedRelocation = ''unsupported-relocation''"
| "RelocationStatusName kInvalidRelativeSymbol = ''invalid-relative-symbol''"
| "RelocationStatusName kTargetAddressOverflow = ''target-address-overflow''"
| "RelocationStatusName kTargetNotMapped = ''target-not-mapped''"
| "RelocationStatusName kRelocationWriteFailed = ''write-failed''"
| "RelocationStatusName kInvalidSymbolIndex = ''invalid-symbol-index''"
| "RelocationStatusName kEmptyImportSymbol = ''empty-import-symbol''"
| "RelocationStatusName kInvalidResolvedAddress = ''invalid-resolved-address''"
| "RelocationStatusName kMissingTlsModuleId = ''missing-tls-module-id''"
| "RelocationStatusName kMissingTlsStaticOffset = ''missing-tls-static-offset''"
| "RelocationStatusName kInvalidTlsSymbol = ''invalid-tls-symbol''"
| "RelocationStatusName kRelocationValueOverflow = ''relocation-value-overflow''"

section \<open>The values of the binary interface\<close>

text \<open>
  The relocation of an entry as the binary interface has it: target, width and value, with the
  load bias \<open>B\<close>, the addend \<open>A\<close>, the target \<open>P\<close> and the resolved symbol \<open>S\<close>; \<open>None\<close> for an
  entry that stores nothing, the type without effect and an unresolved import.
\<close>

definition abi_width :: "u32 \<Rightarrow> nat" where
  "abi_width t = (if t \<in> {2, 4, 10, 11, 32} then 4 else 8)"

definition tls_symbol_value :: "relocation_context \<Rightarrow> u32 \<Rightarrow> u64" where
  "tls_symbol_value ctx index = (if index = 0 then 0 else sy_value (symbols_of ctx ! unat index))"

definition abi_symbol_value :: "u32 \<Rightarrow> u64 \<Rightarrow> u64 \<Rightarrow> u64 \<Rightarrow> u64" where
  "abi_symbol_value t S A P = (if t \<in> {6, 7} then S else if t \<in> {2, 4, 24} then S + A - P else S + A)"

definition abi_value :: "relocation_context \<Rightarrow> elf_rela_entry \<Rightarrow> u64 option" where
  "abi_value ctx entry =
     (let t = rela_type entry; A = of_int (re_addend entry); B = rc_load_bias ctx; P = B + re_offset entry in
      if t = 0 then None
      else if t \<in> {8, 38} then Some (B + A)
      else if t = 16 then Some (rc_tls_module_id ctx)
      else if t = 17 then Some (tls_symbol_value ctx (rela_symbol entry) + A)
      else if t = 18 then Some (tls_symbol_value ctx (rela_symbol entry) + A - rc_tls_static_offset ctx)
      else case resolve_symbol ctx t (rela_symbol entry) of
          Resolved S _ \<Rightarrow> Some (abi_symbol_value t S A P)
        | _ \<Rightarrow> None)"

definition abi_fits :: "u32 \<Rightarrow> u64 \<Rightarrow> bool" where
  "abi_fits t v \<longleftrightarrow> (t \<in> {2, 4, 11} \<longrightarrow> - 2147483648 \<le> sint v \<and> sint v < 2147483648) \<and>
     (t \<in> {10, 32} \<longrightarrow> unat v < 4294967296)"

definition le_bytes :: "nat \<Rightarrow> u64 \<Rightarrow> u8 list" where
  "le_bytes n v = map (\<lambda>i. ucast (drop_bit (8 * i) v)) [0..<n]"

definition abi_stores :: "relocation_context \<Rightarrow> elf_rela_entry list \<Rightarrow> (u64 \<times> u8 list) list" where
  "abi_stores ctx entries =
     concat (map (\<lambda>e. case abi_value ctx e of
         None \<Rightarrow> []
       | Some v \<Rightarrow> [(rc_load_bias ctx + re_offset e, le_bytes (abi_width (rela_type e)) v)]) entries)"

lemma planned_bytes: "n \<le> 8 \<Longrightarrow> take (pr_size (planned a n v)) (pr_value (planned a n v)) = le_bytes n v"
proof -
  assume "n \<le> 8"
  moreover have "ucast (x AND 0xFF) = (ucast (x :: u64) :: u8)" for x
  proof -
    have "(0xFF :: u64) = mask 8" by (simp add: mask_eq_exp_minus_1)
    then have "x AND 0xFF = take_bit 8 x" by (simp only: take_bit_eq_mask)
    then show ?thesis by (auto intro!: bit_word_eqI simp: bit_simps)
  qed
  ultimately show ?thesis
    by (intro nth_equalityI) (simp_all add: planned_def EncodeLittleEndian_def le_bytes_def mult.commute)
qed

lemma planned_fields [simp]: "pr_address (planned a n v) = a" "pr_size (planned a n v) = n"
  by (simp_all add: planned_def EncodeLittleEndian_def)

text \<open>What planning one entry promises.\<close>

definition entry_planned ::
  "relocation_context \<Rightarrow> guest_memory \<Rightarrow> elf_rela_entry \<Rightarrow> plan_state \<Rightarrow> plan_state \<Rightarrow> bool" where
  "entry_planned ctx gm e st st' \<longleftrightarrow>
     (case abi_value ctx e of
        None \<Rightarrow> ps_planned st' = ps_planned st \<and>
          length (ps_unresolved_imports st') = length (ps_unresolved_imports st) + of_bool (rela_type e \<noteq> 0)
      | Some v \<Rightarrow>
          ps_planned st' = ps_planned st @ [planned (rc_load_bias ctx + re_offset e) (abi_width (rela_type e)) v] \<and>
          length (ps_unresolved_imports st') = length (ps_unresolved_imports st) \<and>
          IsMapped (rc_load_bias ctx + re_offset e) (of_nat (abi_width (rela_type e))) gm \<and>
          unat (rc_load_bias ctx) + unat (re_offset e) < 18446744073709551616 \<and> abi_fits (rela_type e) v)"

lemma abi_width_cases: "abi_width t = RelocationWriteSize t"
  by (auto simp: abi_width_def RelocationWriteSize_def)

lemma resolve_symbol_error: "resolve_symbol ctx t index \<noteq> ResolutionError kRelocationOk"
  by (auto simp: resolve_symbol_def resolve_import_symbol_def Let_def split: option.splits)

lemma plan_symbol_spec:
  assumes "plan_symbol ctx e (rc_load_bias ctx + re_offset e) (RelocationWriteSize (rela_type e)) st = (kRelocationOk, st')"
    "IsSymbolRelocation (rela_type e)" "\<not> re_offset e > u64_max - rc_load_bias ctx"
    "IsMapped (rc_load_bias ctx + re_offset e) (of_nat (RelocationWriteSize (rela_type e))) gm"
  shows "entry_planned ctx gm e st st'"
proof -
  let ?t = "rela_type e"
  have t: "?t \<notin> {0, 8, 38, 16, 17, 18}" using assms(2) by (auto simp: IsSymbolRelocation_def)
  have room: "unat (rc_load_bias ctx) + unat (re_offset e) < 18446744073709551616"
    using assms(3) u64_overflow_test [of "rc_load_bias ctx" "re_offset e"] by simp
  show ?thesis
  proof (cases "resolve_symbol ctx ?t (rela_symbol e)")
    case (ResolutionError status)
    then have "status = kRelocationOk" using assms(1) by (simp add: plan_symbol_def)
    with ResolutionError show ?thesis using resolve_symbol_error [of ctx ?t "rela_symbol e"] by simp
  next
    case Unresolved
    then show ?thesis using assms(1) t by (auto simp: plan_symbol_def entry_planned_def abi_value_def Let_def)
  next
    case (Resolved S b)
    let ?v = "abi_symbol_value ?t S (of_int (re_addend e)) (rc_load_bias ctx + re_offset e)"
    have v: "abi_value ctx e = Some ?v" using Resolved t by (auto simp: abi_value_def Let_def)
    have "(if IsPcRelativeRelocation ?t
        then S + (if ?t = 6 \<or> ?t = 7 then 0 else of_int (re_addend e)) - (rc_load_bias ctx + re_offset e)
        else S + (if ?t = 6 \<or> ?t = 7 then 0 else of_int (re_addend e))) = ?v"
      by (auto simp: IsPcRelativeRelocation_def abi_symbol_value_def)
    then have "abi_fits ?t ?v \<and> ps_planned st' = ps_planned st @ [planned (rc_load_bias ctx + re_offset e) (RelocationWriteSize ?t) ?v] \<and>
        ps_unresolved_imports st' = ps_unresolved_imports st"
      using assms(1) Resolved
      by (auto simp: plan_symbol_def Let_def abi_fits_def not_less not_le word_le_nat_alt word_less_nat_alt split: if_splits)
    then show ?thesis using assms(4) room by (simp add: entry_planned_def v abi_width_cases)
  qed
qed

lemma plan_entry_spec:
  assumes "plan_entry ctx gm e st = (kRelocationOk, st')"
  shows "entry_planned ctx gm e st st'"
proof -
  let ?t = "rela_type e"
  let ?P = "rc_load_bias ctx + re_offset e"
  show ?thesis
  proof (cases "?t = 0")
    case True
    then show ?thesis using assms by (simp add: plan_entry_def entry_planned_def abi_value_def)
  next
    case False
    then have t: "supported_relocation ?t" and off: "\<not> re_offset e > u64_max - rc_load_bias ctx"
      and m: "IsMapped ?P (of_nat (RelocationWriteSize ?t)) gm"
      using assms by (auto simp: plan_entry_def Let_def split: if_splits)
    have room: "unat (rc_load_bias ctx) + unat (re_offset e) < 18446744073709551616"
      using off u64_overflow_test [of "rc_load_bias ctx" "re_offset e"] by simp
    consider "IsSymbolRelocation ?t" | "?t = 16" | "?t = 17 \<or> ?t = 18" | "?t = 8 \<or> ?t = 38"
      using t by (auto simp: supported_relocation_def)
    then show ?thesis
    proof cases
      case 1
      then have "plan_symbol ctx e ?P (RelocationWriteSize ?t) st = (kRelocationOk, st')"
        using assms by (auto simp: plan_entry_def Let_def IsSymbolRelocation_def split: if_splits)
      then show ?thesis using 1 off m by (rule plan_symbol_spec)
    next
      case 2
      then have "plan_tls_module ctx ?P st = (kRelocationOk, st')"
        using assms by (auto simp: plan_entry_def Let_def split: if_splits)
      then show ?thesis using 2 m room
        by (auto simp: plan_tls_module_def entry_planned_def abi_value_def Let_def abi_width_def abi_fits_def
            RelocationWriteSize_def split: if_splits)
    next
      case 3
      then have "plan_tls_offset ctx e ?P st = (kRelocationOk, st')"
        using assms by (auto simp: plan_entry_def Let_def split: if_splits)
      then show ?thesis using 3 m room
        by (auto simp: plan_tls_offset_def entry_planned_def abi_value_def Let_def abi_width_def abi_fits_def
            tls_symbol_value_def RelocationWriteSize_def split: if_splits)
    next
      case 4
      then have "st' = st\<lparr>ps_planned := ps_planned st @ [planned ?P 8 (rc_load_bias ctx + of_int (re_addend e))]\<rparr>"
        using assms by (auto simp: plan_entry_def Let_def IsSymbolRelocation_def split: if_splits)
      then show ?thesis using 4 m room
        by (auto simp: entry_planned_def abi_value_def Let_def abi_width_def abi_fits_def RelocationWriteSize_def)
    qed
  qed
qed

text \<open>What planning a table promises.\<close>

definition plan_of :: "relocation_context \<Rightarrow> elf_rela_entry list \<Rightarrow> planned_relocation list" where
  "plan_of ctx entries =
     concat (map (\<lambda>e. case abi_value ctx e of
         None \<Rightarrow> []
       | Some v \<Rightarrow> [planned (rc_load_bias ctx + re_offset e) (abi_width (rela_type e)) v]) entries)"

definition none_count :: "elf_rela_entry list \<Rightarrow> nat" where
  "none_count entries = length (filter (\<lambda>e. rela_type e = 0) entries)"

definition table_planned ::
  "relocation_context \<Rightarrow> guest_memory \<Rightarrow> elf_rela_entry list \<Rightarrow> plan_state \<Rightarrow> plan_state \<Rightarrow> bool" where
  "table_planned ctx gm entries st st' \<longleftrightarrow>
     ps_planned st' = ps_planned st @ plan_of ctx entries \<and>
     length (ps_unresolved_imports st') + length (plan_of ctx entries) + none_count entries =
       length (ps_unresolved_imports st) + length entries \<and>
     (\<forall>p \<in> set (plan_of ctx entries). IsMapped (pr_address p) (of_nat (pr_size p)) gm \<and> (pr_size p = 4 \<or> pr_size p = 8)) \<and>
     (\<forall>e \<in> set entries. \<forall>v. abi_value ctx e = Some v \<longrightarrow>
        unat (rc_load_bias ctx) + unat (re_offset e) < 18446744073709551616 \<and> abi_fits (rela_type e) v)"

lemma table_planned_Cons:
  assumes e: "entry_planned ctx gm e st st1" and es: "table_planned ctx gm entries st1 st'"
  shows "table_planned ctx gm (e # entries) st st'"
proof (cases "abi_value ctx e")
  case None
  then show ?thesis using e es
    by (auto simp: table_planned_def entry_planned_def plan_of_def none_count_def split: if_splits)
next
  case (Some v)
  then have "rela_type e \<noteq> 0" by (auto simp: abi_value_def)
  moreover have "abi_width t = 4 \<or> abi_width t = 8" for t by (simp add: abi_width_def)
  ultimately show ?thesis using Some e es by (auto simp: table_planned_def entry_planned_def plan_of_def none_count_def)
qed

lemma PlanTable_spec: "PlanTable ctx gm entries st = (kRelocationOk, st') \<Longrightarrow> table_planned ctx gm entries st st'"
proof (induction entries arbitrary: st)
  case (Cons e entries)
  obtain st1 where "plan_entry ctx gm e st = (kRelocationOk, st1)" "PlanTable ctx gm entries st1 = (kRelocationOk, st')"
    using Cons.prems by (auto split: prod.splits if_splits)
  then show ?case using table_planned_Cons plan_entry_spec Cons.IH by blast
qed (simp add: table_planned_def plan_of_def none_count_def)

lemma plan_of_append: "plan_of ctx (xs @ ys) = plan_of ctx xs @ plan_of ctx ys" "none_count (xs @ ys) = none_count xs + none_count ys"
  by (simp_all add: plan_of_def none_count_def)

lemma table_planned_append:
  "table_planned ctx gm xs st st1 \<Longrightarrow> table_planned ctx gm ys st1 st2 \<Longrightarrow> table_planned ctx gm (xs @ ys) st st2"
  unfolding table_planned_def plan_of_append by (simp add: ball_Un)

abbreviation entries_of :: "relocation_context \<Rightarrow> elf_rela_entry list" where
  "entries_of ctx \<equiv> di_relocations (em_dynamic_info (rc_metadata ctx)) @ di_plt_relocations (em_dynamic_info (rc_metadata ctx))"

lemma plan_tables_spec:
  assumes "plan_tables ctx gm = (kRelocationOk, st)"
  shows "table_planned ctx gm (entries_of ctx) new_plan st"
proof -
  obtain st1 where "PlanTable ctx gm (di_relocations (em_dynamic_info (rc_metadata ctx))) new_plan = (kRelocationOk, st1)"
    "PlanTable ctx gm (di_plt_relocations (em_dynamic_info (rc_metadata ctx))) st1 = (kRelocationOk, st)"
    using assms by (auto simp: plan_tables_def split: prod.splits if_splits)
  then show ?thesis using PlanTable_spec table_planned_append by blast
qed

lemma plan_entry_not_write_failed: "fst (plan_entry ctx gm e st) \<noteq> kRelocationWriteFailed"
proof -
  have r: "resolve_symbol ctx t index \<noteq> ResolutionError kRelocationWriteFailed" for t index
    by (auto simp: resolve_symbol_def resolve_import_symbol_def Let_def split: option.splits)
  have "fst (plan_symbol ctx e a n st) \<noteq> kRelocationWriteFailed" for a n
    using r by (auto simp: plan_symbol_def Let_def split: symbol_resolution.split)
  moreover have "fst (plan_tls_offset ctx e a st) \<noteq> kRelocationWriteFailed" for a
    by (simp add: plan_tls_offset_def Let_def)
  moreover have "fst (plan_tls_module ctx a st) \<noteq> kRelocationWriteFailed" for a
    by (simp add: plan_tls_module_def)
  ultimately show ?thesis by (simp add: plan_entry_def Let_def)
qed

lemma plan_tables_not_write_failed: "fst (plan_tables ctx gm) \<noteq> kRelocationWriteFailed"
proof -
  have "fst (PlanTable ctx gm entries st) \<noteq> kRelocationWriteFailed" for entries st
    by (induction entries arbitrary: st) (use plan_entry_not_write_failed in \<open>auto split: prod.splits\<close>, metis fst_conv)
  then show ?thesis by (auto simp: plan_tables_def split: prod.splits) (metis fst_conv)+
qed

section \<open>The stores\<close>

text \<open>The reference: the values of the binary interface, stored in the order of the tables.\<close>

definition store_all :: "guest_memory \<Rightarrow> (u64 \<times> u8 list) list \<Rightarrow> (u64 + shared_place \<Rightarrow> u8) \<Rightarrow> u64 + shared_place \<Rightarrow> u8" where
  "store_all gm = fold (\<lambda>(a, bytes). stores gm a (\<lambda>i. bytes ! i) 0 (length bytes))"

definition bytes_of :: "planned_relocation \<Rightarrow> u64 \<times> u8 list" where
  "bytes_of p = (pr_address p, take (pr_size p) (pr_value p))"

lemma bytes_of_plan: "map bytes_of (plan_of ctx entries) = abi_stores ctx entries"
proof -
  have "bytes_of (planned a (abi_width t) v) = (a, le_bytes (abi_width t) v)" for a t v
    by (simp add: bytes_of_def planned_bytes [simplified] abi_width_def)
  then show ?thesis unfolding plan_of_def abi_stores_def map_concat
    by (intro arg_cong [of _ _ concat]) (simp split: option.split)
qed

lemma stored_keeps_mapped:
  assumes "gm_ok gm" "stored val a fin gm gm'"
  shows "IsMapped b n gm' = IsMapped b n gm"
proof -
  have "gm_ok gm'" "prot_at gm' = prot_at gm" "\<And>b n. inside b n gm' = inside b n gm" using assms(2) by (auto simp: stored_def)
  then show ?thesis using assms(1) by (simp add: IsMapped_def IsMappedLocked_iff prot_at_def fun_eq_iff)
qed

lemma apply_loop_spec:
  assumes "gm_ok gm" "\<forall>k. \<not> fault k" "\<forall>k j. host k j"
    "\<forall>p \<in> set ps. IsMapped (pr_address p) (of_nat (pr_size p)) gm \<and> pr_size p \<le> 8 \<and> length (pr_value p) = 8"
  shows "\<exists>gm'. apply_loop fault host n ps gm = Some (True, n + length ps, gm') \<and> gm_ok gm' \<and> prot_at gm' = prot_at gm \<and>
    loc gm' = loc gm \<and> mem gm' = store_all gm (map bytes_of ps) (mem gm)"
  using assms(1,4)
proof (induction ps arbitrary: n gm)
  case (Cons p ps)
  let ?bytes = "take (pr_size p) (pr_value p)"
  have len: "length ?bytes = pr_size p" "length ?bytes < 18446744073709551616" using Cons.prems(2) by simp_all
  have "IsMapped (pr_address p) (of_nat (length ?bytes)) gm" using Cons.prems(2) len by simp
  then obtain gm1 where gm1: "Initialize (fault n) (host n) (pr_address p) ?bytes gm = Some (True, gm1)"
    "stored (\<lambda>i. ?bytes ! i) (pr_address p) (of_nat (length ?bytes)) gm gm1"
    using Initialize_spec [OF Cons.prems(1) len(2), of "fault n" "host n" "pr_address p"] assms(2,3)
    unfolding initializes_def by auto
  have s: "gm_ok gm1" "prot_at gm1 = prot_at gm" "loc gm1 = loc gm"
    "mem gm1 = stores gm (pr_address p) (\<lambda>i. ?bytes ! i) 0 (length ?bytes) (mem gm)"
    using gm1(2) len by (simp_all add: stored_def unat_of_nat)
  have "\<forall>q \<in> set ps. IsMapped (pr_address q) (of_nat (pr_size q)) gm1 \<and> pr_size q \<le> 8 \<and> length (pr_value q) = 8"
    using Cons.prems(2) stored_keeps_mapped [OF Cons.prems(1) gm1(2)] by simp
  from Cons.IH [OF s(1) this, of "Suc n"] obtain gm' where
    "apply_loop fault host (Suc n) ps gm1 = Some (True, Suc n + length ps, gm')" "gm_ok gm'" "prot_at gm' = prot_at gm1"
    "loc gm' = loc gm1" "mem gm' = store_all gm1 (map bytes_of ps) (mem gm1)" by blast
  moreover have "stores gm1 = stores gm" using s(3) by (intro ext) (simp add: stores_def)
  then have "store_all gm1 = store_all gm" by (simp add: store_all_def)
  moreover have "store_all gm (map bytes_of (p # ps)) (mem gm) = store_all gm (map bytes_of ps) (mem gm1)"
    by (simp add: store_all_def bytes_of_def [of p] s(4))
  ultimately show ?case using gm1(1) s(1-3) by simp
qed (simp add: store_all_def)

section \<open>Properties\<close>

text \<open>The outcome of a relocation that no injected fault and no refusal of the host disturbs.\<close>

definition relocated :: "relocation_context \<Rightarrow> guest_memory \<Rightarrow> (relocation_result \<times> guest_memory) option \<Rightarrow> bool" where
  "relocated ctx gm result \<longleftrightarrow>
     (\<exists>r gm'. result = Some (r, gm') \<and> rr_status r \<noteq> kRelocationWriteFailed \<and>
        (if rr_status r = kRelocationOk
         then gm_ok gm' \<and> prot_at gm' = prot_at gm \<and> mem gm' = store_all gm (abi_stores ctx (entries_of ctx)) (mem gm) \<and>
           rr_applied_count r = length (abi_stores ctx (entries_of ctx)) \<and>
           rr_applied_count r + rr_unresolved_import_count r + none_count (entries_of ctx) = length (entries_of ctx) \<and>
           (\<forall>e \<in> set (entries_of ctx). \<forall>v. abi_value ctx e = Some v \<longrightarrow> abi_fits (rela_type e) v)
         else gm' = gm \<and> rr_applied_count r = 0))"

lemma plan_of_values: "p \<in> set (plan_of ctx entries) \<Longrightarrow> length (pr_value p) = 8"
  by (auto simp: plan_of_def planned_def EncodeLittleEndian_def split: option.splits)


text \<open>One relative relocation of a mapped word.\<close>

definition sample_relocation :: relocation_context where
  "sample_relocation =
     \<lparr>rc_metadata = \<lparr>em_container = kElf, em_elf_file_offset = 0, em_self_segment_count = 0, em_os_abi = 0,
        em_abi_version = 0, em_type = 3, em_machine = 62, em_version = 1, em_entry_point = 0, em_program_headers = [],
        em_dynamic_entries = [],
        em_dynamic_info = default_dynamic_info\<lparr>di_relocations := [\<lparr>re_offset = 0x10, re_info = 8, re_addend = 5\<rparr>]\<rparr>\<rparr>,
      rc_resolver = None, rc_load_bias = 0x1000, rc_tls_module_id = 0, rc_tls_static_offset = 0\<rparr>"


end
