(* ===== verification/Elf_Parser.thy ===== *)
theory Elf_Parser
  imports Elf_Types "HOL-Library.Product_Lexorder"
begin

text \<open>
  The executable parser (\<open>loader/elf.cpp\<close>, up to \<open>CalculateElfLoadRange\<close>). The image is the list of
  its bytes. An access through \<open>std::span\<close> outside the image is undefined in the source; here every
  read and every \<open>subspan\<close> checks its range and gives \<open>Fault\<close>, so that the absence of faults is the
  memory safety of the parser. A returned error is \<open>Fail\<close>, a result \<open>Ok\<close>.
\<close>

section \<open>Outcomes and reads\<close>

datatype 'a outcome = Fault | Fail elf_error | Ok 'a

fun obind :: "'a outcome \<Rightarrow> ('a \<Rightarrow> 'b outcome) \<Rightarrow> 'b outcome" where
  "obind Fault f = Fault"
| "obind (Fail e) f = Fail e"
| "obind (Ok v) f = f v"

definition ensure :: "bool \<Rightarrow> elf_error \<Rightarrow> unit outcome" where
  "ensure condition e = (if condition then Ok () else Fail e)"

type_synonym file_image = "u8 list"

abbreviation image_size :: "file_image \<Rightarrow> u64" where
  "image_size img \<equiv> of_nat (length img)"

definition Read8 :: "file_image \<Rightarrow> u64 \<Rightarrow> u8 outcome" where
  "Read8 img off = (if unat off < length img then Ok (img ! unat off) else Fault)"

definition Read16 :: "file_image \<Rightarrow> u64 \<Rightarrow> u16 outcome" where
  "Read16 img off =
     obind (Read8 img off) (\<lambda>low.
     obind (Read8 img (off + 1)) (\<lambda>high.
       Ok (ucast low OR push_bit 8 (ucast high))))"

fun read_le :: "file_image \<Rightarrow> u64 \<Rightarrow> nat \<Rightarrow> nat \<Rightarrow> 'a::len word \<Rightarrow> 'a word outcome" where
  "read_le img off index 0 v = Ok v"
| "read_le img off index (Suc n) v =
     obind (Read8 img (off + of_nat index)) (\<lambda>b. read_le img off (Suc index) n (v OR push_bit (index * 8) (ucast b)))"

definition Read32 :: "file_image \<Rightarrow> u64 \<Rightarrow> u32 outcome" where
  "Read32 img off = read_le img off 0 4 0"

definition Read64 :: "file_image \<Rightarrow> u64 \<Rightarrow> u64 outcome" where
  "Read64 img off = read_le img off 0 8 0"

definition subspan :: "file_image \<Rightarrow> u64 \<Rightarrow> u64 \<Rightarrow> file_image outcome" where
  "subspan img off len =
     (if unat off + unat len \<le> length img then Ok (take (unat len) (drop (unat off) img)) else Fault)"

definition RangeWithin :: "u64 \<Rightarrow> u64 \<Rightarrow> u64 \<Rightarrow> bool" where
  "RangeWithin total_size off len \<longleftrightarrow> off \<le> total_size \<and> len \<le> total_size - off"

definition AddWithoutOverflow :: "u64 \<Rightarrow> u64 \<Rightarrow> u64 option" where
  "AddWithoutOverflow left right = (if right > u64_max - left then None else Some (left + right))"

section \<open>Constants\<close>

abbreviation kElfHeaderSize :: u64 where "kElfHeaderSize \<equiv> 64"
abbreviation kProgramHeaderSize :: u16 where "kProgramHeaderSize \<equiv> 56"
abbreviation kSelfHeaderSize :: u64 where "kSelfHeaderSize \<equiv> 32"
abbreviation kSelfSegmentSize :: u64 where "kSelfSegmentSize \<equiv> 32"
abbreviation kProgramTypeLoad :: u32 where "kProgramTypeLoad \<equiv> 1"
abbreviation kProgramTypeDynamic :: u32 where "kProgramTypeDynamic \<equiv> 2"
abbreviation kProgramTypeSceDynlibData :: u32 where "kProgramTypeSceDynlibData \<equiv> 0x61000000"
abbreviation kDynamicTagNeeded :: int where "kDynamicTagNeeded \<equiv> 1"
abbreviation kDynamicTagPltRelocationSize :: int where "kDynamicTagPltRelocationSize \<equiv> 2"
abbreviation kDynamicTagHash :: int where "kDynamicTagHash \<equiv> 4"
abbreviation kDynamicTagStringTable :: int where "kDynamicTagStringTable \<equiv> 5"
abbreviation kDynamicTagSymbolTable :: int where "kDynamicTagSymbolTable \<equiv> 6"
abbreviation kDynamicTagRela :: int where "kDynamicTagRela \<equiv> 7"
abbreviation kDynamicTagRelaSize :: int where "kDynamicTagRelaSize \<equiv> 8"
abbreviation kDynamicTagRelaEntrySize :: int where "kDynamicTagRelaEntrySize \<equiv> 9"
abbreviation kDynamicTagStringTableSize :: int where "kDynamicTagStringTableSize \<equiv> 10"
abbreviation kDynamicTagSymbolEntrySize :: int where "kDynamicTagSymbolEntrySize \<equiv> 11"
abbreviation kDynamicTagInit :: int where "kDynamicTagInit \<equiv> 12"
abbreviation kDynamicTagFini :: int where "kDynamicTagFini \<equiv> 13"
abbreviation kDynamicTagSharedObjectName :: int where "kDynamicTagSharedObjectName \<equiv> 14"
abbreviation kDynamicTagPltRelocationFormat :: int where "kDynamicTagPltRelocationFormat \<equiv> 20"
abbreviation kDynamicTagJumpRelocation :: int where "kDynamicTagJumpRelocation \<equiv> 23"
abbreviation kDynamicTagInitArray :: int where "kDynamicTagInitArray \<equiv> 25"
abbreviation kDynamicTagFiniArray :: int where "kDynamicTagFiniArray \<equiv> 26"
abbreviation kDynamicTagInitArraySize :: int where "kDynamicTagInitArraySize \<equiv> 27"
abbreviation kDynamicTagFiniArraySize :: int where "kDynamicTagFiniArraySize \<equiv> 28"
abbreviation kDynamicTagPreinitArray :: int where "kDynamicTagPreinitArray \<equiv> 32"
abbreviation kDynamicTagPreinitArraySize :: int where "kDynamicTagPreinitArraySize \<equiv> 33"
abbreviation kDynamicTagSceModuleInfo :: int where "kDynamicTagSceModuleInfo \<equiv> 0x6100000D"
abbreviation kDynamicTagSceNeededModule :: int where "kDynamicTagSceNeededModule \<equiv> 0x6100000F"
abbreviation kDynamicTagSceExportLibrary :: int where "kDynamicTagSceExportLibrary \<equiv> 0x61000013"
abbreviation kDynamicTagSceImportLibrary :: int where "kDynamicTagSceImportLibrary \<equiv> 0x61000015"
abbreviation kDynamicTagSceJumpRelocation :: int where "kDynamicTagSceJumpRelocation \<equiv> 0x61000029"
abbreviation kDynamicTagScePltRelocationFormat :: int where "kDynamicTagScePltRelocationFormat \<equiv> 0x6100002B"
abbreviation kDynamicTagScePltRelocationSize :: int where "kDynamicTagScePltRelocationSize \<equiv> 0x6100002D"
abbreviation kDynamicTagSceRela :: int where "kDynamicTagSceRela \<equiv> 0x6100002F"
abbreviation kDynamicTagSceRelaSize :: int where "kDynamicTagSceRelaSize \<equiv> 0x61000031"
abbreviation kDynamicTagSceRelaEntrySize :: int where "kDynamicTagSceRelaEntrySize \<equiv> 0x61000033"
abbreviation kDynamicTagSceStringTable :: int where "kDynamicTagSceStringTable \<equiv> 0x61000035"
abbreviation kDynamicTagSceStringTableSize :: int where "kDynamicTagSceStringTableSize \<equiv> 0x61000037"
abbreviation kDynamicTagSceSymbolTable :: int where "kDynamicTagSceSymbolTable \<equiv> 0x61000039"
abbreviation kDynamicTagSceSymbolEntrySize :: int where "kDynamicTagSceSymbolEntrySize \<equiv> 0x6100003B"
abbreviation kDynamicTagSceSymbolTableSize :: int where "kDynamicTagSceSymbolTableSize \<equiv> 0x6100003F"
abbreviation kDynamicTagSceModuleInfoV2 :: int where "kDynamicTagSceModuleInfoV2 \<equiv> 0x61000043"
abbreviation kDynamicTagSceNeededModuleV2 :: int where "kDynamicTagSceNeededModuleV2 \<equiv> 0x61000045"
abbreviation kDynamicTagSceExportLibraryV2 :: int where "kDynamicTagSceExportLibraryV2 \<equiv> 0x61000047"
abbreviation kDynamicTagSceImportLibraryV2 :: int where "kDynamicTagSceImportLibraryV2 \<equiv> 0x61000049"
abbreviation kMinimumDecodedStringBudget :: nat where "kMinimumDecodedStringBudget \<equiv> 65536"
abbreviation kMaximumDecodedStringBudget :: nat where "kMaximumDecodedStringBudget \<equiv> 67108864"

section \<open>The container\<close>

record self_segment =
  sg_type :: u64
  sg_offset :: u64
  sg_compressed_size :: u64
  sg_decompressed_size :: u64

definition blocked :: "self_segment \<Rightarrow> bool" where
  "blocked segment \<longleftrightarrow> (sg_type segment AND 0x800) \<noteq> 0"

definition encrypted :: "self_segment \<Rightarrow> bool" where
  "encrypted segment \<longleftrightarrow> (sg_type segment AND 0x2) \<noteq> 0"

definition compressed :: "self_segment \<Rightarrow> bool" where
  "compressed segment \<longleftrightarrow> (sg_type segment AND 0x8) \<noteq> 0"

definition program_header_index :: "self_segment \<Rightarrow> nat" where
  "program_header_index segment = unat (drop_bit 20 (sg_type segment) AND 0xFFF)"

record executable_layout =
  el_container :: elf_container_kind
  el_elf_offset :: u64
  el_self_file_size :: u64
  el_self_segments :: "self_segment list"

definition default_layout :: executable_layout where
  "default_layout = \<lparr>el_container = kElf, el_elf_offset = 0, el_self_file_size = 0, el_self_segments = []\<rparr>"

definition IsSelfMagic :: "file_image \<Rightarrow> bool outcome" where
  "IsSelfMagic img =
     (if length img < 4 then Ok False
      else
        obind (Read8 img 0) (\<lambda>b0. obind (Read8 img 1) (\<lambda>b1.
        obind (Read8 img 2) (\<lambda>b2. obind (Read8 img 3) (\<lambda>b3.
          Ok (b0 = 0x4F \<and> b1 = 0x15 \<and> b2 = 0x3D \<and> b3 = 0x1D \<or>
              b0 = 0x54 \<and> b1 = 0x14 \<and> b2 = 0xF5 \<and> b3 = 0xEE))))))"

definition HasKnownSelfLayout :: "file_image \<Rightarrow> bool outcome" where
  "HasKnownSelfLayout img =
     obind (IsSelfMagic img) (\<lambda>magic.
       if \<not> magic then Ok False
       else
         obind (Read8 img 5) (\<lambda>b5. obind (Read8 img 6) (\<lambda>b6. obind (Read8 img 7) (\<lambda>b7.
           Ok (b5 = 0x01 \<and> b6 = 0x01 \<and> b7 = 0x12)))))"

fun self_segment_loop :: "file_image \<Rightarrow> nat list \<Rightarrow> self_segment list outcome" where
  "self_segment_loop img [] = Ok []"
| "self_segment_loop img (index # rest) =
     (let off = kSelfHeaderSize + of_nat index * kSelfSegmentSize in
      obind (Read64 img off) (\<lambda>v0. obind (Read64 img (off + 8)) (\<lambda>v1.
      obind (Read64 img (off + 16)) (\<lambda>v2. obind (Read64 img (off + 24)) (\<lambda>v3.
      obind (self_segment_loop img rest) (\<lambda>segments.
        Ok (\<lparr>sg_type = v0, sg_offset = v1, sg_compressed_size = v2, sg_decompressed_size = v3\<rparr> # segments)))))))"

definition ParseExecutableLayout :: "file_image \<Rightarrow> executable_layout outcome" where
  "ParseExecutableLayout img =
     obind (IsSelfMagic img) (\<lambda>magic.
     if \<not> magic then Ok default_layout
     else if image_size img < kSelfHeaderSize then Fail kSelfHeaderOutOfRange
     else
       obind (HasKnownSelfLayout img) (\<lambda>known.
       if \<not> known then Fail kUnsupportedSelfHeader
       else
         obind (Read64 img 16) (\<lambda>self_file_size.
         obind (Read16 img 24) (\<lambda>segment_count.
         let segment_table_size = ucast segment_count * kSelfSegmentSize in
         case AddWithoutOverflow kSelfHeaderSize segment_table_size of
           None \<Rightarrow> Fail kSelfEmbeddedElfOutOfRange
         | Some elf_offset \<Rightarrow>
             if \<not> RangeWithin (image_size img) elf_offset kElfHeaderSize then Fail kSelfEmbeddedElfOutOfRange
             else
               obind (self_segment_loop img [0..<unat segment_count]) (\<lambda>segments.
                 Ok \<lparr>el_container = kSelf, el_elf_offset = elf_offset, el_self_file_size = self_file_size,
                     el_self_segments = segments\<rparr>)))))"

definition HeaderRangeContains :: "elf_program_header \<Rightarrow> elf_program_header \<Rightarrow> bool" where
  "HeaderRangeContains parent child =
     (if ph_offset child < ph_offset parent then False
      else RangeWithin (ph_file_size parent) (ph_offset child - ph_offset parent) (ph_file_size child))"

record self_resolution =
  sr_resolved_count :: nat
  sr_saw_mapping :: bool
  sr_saw_encrypted :: bool
  sr_saw_compressed :: bool
  sr_file_offset :: u64

fun self_resolve_loop ::
  "u64 \<Rightarrow> elf_program_header list \<Rightarrow> nat \<Rightarrow> bool \<Rightarrow> self_segment list \<Rightarrow> self_resolution \<Rightarrow> self_resolution" where
  "self_resolve_loop total_size headers target_index has_exact_mapping [] r = r"
| "self_resolve_loop total_size headers target_index has_exact_mapping (segment # rest) r =
     (let target = headers ! target_index;
          source_index = program_header_index segment
      in if \<not> blocked segment \<or> source_index \<ge> length headers
         then self_resolve_loop total_size headers target_index has_exact_mapping rest r
         else if (has_exact_mapping \<and> source_index \<noteq> target_index) \<or>
                 (\<not> has_exact_mapping \<and> \<not> HeaderRangeContains (headers ! source_index) target)
         then self_resolve_loop total_size headers target_index has_exact_mapping rest r
         else
           let r1 = r\<lparr>sr_saw_mapping := True, sr_saw_encrypted := (sr_saw_encrypted r \<or> encrypted segment),
                      sr_saw_compressed := (sr_saw_compressed r \<or> compressed segment)\<rparr>;
               relative_offset = ph_offset target - ph_offset (headers ! source_index)
           in if \<not> RangeWithin (sg_decompressed_size segment) relative_offset (ph_file_size target)
              then self_resolve_loop total_size headers target_index has_exact_mapping rest r1
              else case AddWithoutOverflow (sg_offset segment) relative_offset of
                  None \<Rightarrow> self_resolve_loop total_size headers target_index has_exact_mapping rest r1
                | Some candidate \<Rightarrow>
                    if \<not> RangeWithin total_size candidate (ph_file_size target)
                    then self_resolve_loop total_size headers target_index has_exact_mapping rest r1
                    else self_resolve_loop total_size headers target_index has_exact_mapping rest
                           (r1\<lparr>sr_file_offset := candidate, sr_resolved_count := sr_resolved_count r1 + 1\<rparr>))"

definition ResolveSelfFileOffset ::
  "u64 \<Rightarrow> executable_layout \<Rightarrow> elf_program_header list \<Rightarrow> nat \<Rightarrow> u64 outcome" where
  "ResolveSelfFileOffset total_size layout headers target_index =
     (let target = headers ! target_index;
          has_exact_mapping = list_ex (\<lambda>segment. blocked segment \<and> program_header_index segment = target_index)
            (el_self_segments layout);
          r = self_resolve_loop total_size headers target_index has_exact_mapping (el_self_segments layout)
            \<lparr>sr_resolved_count = 0, sr_saw_mapping = False, sr_saw_encrypted = False, sr_saw_compressed = False,
             sr_file_offset = ph_file_offset target\<rparr>
      in if sr_resolved_count r > 1 then Fail kMultipleSelfSegmentMappings
         else if sr_resolved_count r = 1 then Ok (sr_file_offset r)
         else
           let elf_relative_offset = AddWithoutOverflow (el_elf_offset layout) (ph_offset target) in
           if elf_relative_offset \<noteq> None \<and> RangeWithin total_size (the elf_relative_offset) (ph_file_size target)
           then Ok (the elf_relative_offset)
           else if RangeWithin total_size (ph_offset target) (ph_file_size target) then Ok (ph_offset target)
           else if el_self_file_size layout \<le> total_size \<and>
                   total_size - el_self_file_size layout = ph_file_size target
           then Ok (el_self_file_size layout)
           else Fail (if sr_saw_encrypted r then kUnsupportedEncryptedSelfSegment
                      else if sr_saw_compressed r then kUnsupportedCompressedSelfSegment
                      else if sr_saw_mapping r then kSelfSegmentFileRangeOutOfRange
                      else kSelfSegmentMappingNotFound))"

section \<open>Dynamic entries\<close>

definition FindDynamicEntry :: "elf_metadata \<Rightarrow> int \<Rightarrow> elf_dynamic_entry option" where
  "FindDynamicEntry metadata tag = List.find (\<lambda>candidate. de_tag candidate = tag) (em_dynamic_entries metadata)"

definition stored_value :: "elf_metadata \<Rightarrow> int \<Rightarrow> u64 option \<Rightarrow> u64 option" where
  "stored_value metadata tag destination =
     (case FindDynamicEntry metadata tag of None \<Rightarrow> destination | Some entry \<Rightarrow> Some (de_value entry))"

definition ParseDynamicLifecycleMetadata :: "elf_metadata \<Rightarrow> elf_metadata" where
  "ParseDynamicLifecycleMetadata metadata =
     (let info = em_dynamic_info metadata in
      metadata\<lparr>em_dynamic_info := info\<lparr>
        di_init_function := stored_value metadata kDynamicTagInit (di_init_function info),
        di_fini_function := stored_value metadata kDynamicTagFini (di_fini_function info),
        di_preinit_array_address := stored_value metadata kDynamicTagPreinitArray (di_preinit_array_address info),
        di_preinit_array_size := stored_value metadata kDynamicTagPreinitArraySize (di_preinit_array_size info),
        di_init_array_address := stored_value metadata kDynamicTagInitArray (di_init_array_address info),
        di_init_array_size := stored_value metadata kDynamicTagInitArraySize (di_init_array_size info),
        di_fini_array_address := stored_value metadata kDynamicTagFiniArray (di_fini_array_address info),
        di_fini_array_size := stored_value metadata kDynamicTagFiniArraySize (di_fini_array_size info)\<rparr>\<rparr>)"

definition HasDynamicEntry :: "elf_metadata \<Rightarrow> int list \<Rightarrow> bool" where
  "HasDynamicEntry metadata tags = list_ex (\<lambda>entry. List.member tags (de_tag entry)) (em_dynamic_entries metadata)"

type_synonym dynamic_entry_selection = "elf_dynamic_entry option \<times> elf_dynamic_data_source"

definition SceDynamicDataSource :: "elf_metadata \<Rightarrow> elf_dynamic_data_source" where
  "SceDynamicDataSource metadata =
     (if list_ex (\<lambda>header. ph_type header = kProgramTypeSceDynlibData) (em_program_headers metadata)
      then kSceDynlibData else kLoadSegment)"

definition SelectDynamicEntry :: "elf_metadata \<Rightarrow> int \<Rightarrow> int \<Rightarrow> dynamic_entry_selection" where
  "SelectDynamicEntry metadata standard_tag sce_tag =
     (case FindDynamicEntry metadata sce_tag of
        Some entry \<Rightarrow> (Some entry, SceDynamicDataSource metadata)
      | None \<Rightarrow>
          (case FindDynamicEntry metadata standard_tag of
             Some entry \<Rightarrow> (Some entry, kLoadSegment)
           | None \<Rightarrow> (None, kNoSource)))"

definition SelectSceDynamicEntry :: "elf_metadata \<Rightarrow> int \<Rightarrow> dynamic_entry_selection" where
  "SelectSceDynamicEntry metadata tag =
     (case FindDynamicEntry metadata tag of
        None \<Rightarrow> (None, kNoSource)
      | Some entry \<Rightarrow> (Some entry, SceDynamicDataSource metadata))"

fun resolve_address :: "u64 \<Rightarrow> u64 \<Rightarrow> elf_program_header list \<Rightarrow> u64 option" where
  "resolve_address address len [] = None"
| "resolve_address address len (header # rest) =
     (if ph_type header \<noteq> kProgramTypeLoad \<or> address < ph_virtual_address header
      then resolve_address address len rest
      else
        let relative_address = address - ph_virtual_address header in
        if relative_address \<le> ph_file_size header \<and> len \<le> ph_file_size header - relative_address
        then Some (ph_file_offset header + relative_address)
        else resolve_address address len rest)"

definition ResolveFileOffset :: "elf_metadata \<Rightarrow> u64 \<Rightarrow> u64 \<Rightarrow> u64 option" where
  "ResolveFileOffset metadata virtual_address len =
     (let headers = em_program_headers metadata in
      case resolve_address virtual_address len headers of
        Some direct \<Rightarrow> Some direct
      | None \<Rightarrow>
          let image_base = fold (\<lambda>header base. if ph_type header = kProgramTypeLoad
                 then min base (ph_virtual_address header) else base) headers u64_max
          in if image_base \<noteq> u64_max
             then case AddWithoutOverflow image_base virtual_address of
                 Some rebased_address \<Rightarrow> resolve_address rebased_address len headers
               | None \<Rightarrow> None
             else None)"

definition FindProgramHeader :: "elf_metadata \<Rightarrow> u32 \<Rightarrow> elf_program_header option" where
  "FindProgramHeader metadata program_type =
     List.find (\<lambda>candidate. ph_type candidate = program_type) (em_program_headers metadata)"

definition ResolveDynamicFileOffset :: "elf_metadata \<Rightarrow> dynamic_entry_selection \<Rightarrow> u64 \<Rightarrow> u64 option" where
  "ResolveDynamicFileOffset metadata selection len =
     (case selection of
        (None, _) \<Rightarrow> None
      | (Some entry, source) \<Rightarrow>
          if source = kLoadSegment then ResolveFileOffset metadata (de_value entry) len
          else if source \<noteq> kSceDynlibData then None
          else (case FindProgramHeader metadata kProgramTypeSceDynlibData of
              None \<Rightarrow> None
            | Some header \<Rightarrow>
                if \<not> RangeWithin (ph_file_size header) (de_value entry) len then None
                else Some (ph_file_offset header + de_value entry)))"

section \<open>Strings\<close>

datatype dynamic_string_read_status = kStringOk | kUnterminated | kBudgetExceeded

definition CalculateDecodedStringBudget :: "nat \<Rightarrow> nat" where
  "CalculateDecodedStringBudget size_of_image =
     (let scaled = (if size_of_image \<ge> kMaximumDecodedStringBudget div 4 then kMaximumDecodedStringBudget
                    else size_of_image * 4)
      in max kMinimumDecodedStringBudget (min scaled kMaximumDecodedStringBudget))"

fun read_string_loop :: "u8 list \<Rightarrow> nat \<Rightarrow> string \<Rightarrow> dynamic_string_read_status \<times> nat \<times> string" where
  "read_string_loop [] remaining_budget v = (kUnterminated, remaining_budget, v)"
| "read_string_loop (byte # rest) remaining_budget v =
     (if byte = 0 then
        if length v \<ge> remaining_budget then (kBudgetExceeded, remaining_budget, v)
        else (kStringOk, remaining_budget - (length v + 1), v)
      else if remaining_budget = 0 \<or> length v \<ge> remaining_budget - 1 then (kBudgetExceeded, remaining_budget, v)
      else read_string_loop rest remaining_budget (v @ [char_of (unat byte)]))"

definition ReadDynamicString :: "u8 list \<Rightarrow> u64 \<Rightarrow> nat \<Rightarrow> dynamic_string_read_status \<times> nat \<times> string" where
  "ReadDynamicString string_table off remaining_budget =
     (if unat off \<ge> length string_table then (kUnterminated, remaining_budget, [])
      else read_string_loop (drop (unat off) string_table) remaining_budget [])"

text \<open>The checks around each call: the offset in range, the budget, the terminator.\<close>

definition string_at :: "u8 list \<Rightarrow> u64 \<Rightarrow> nat \<Rightarrow> elf_error \<Rightarrow> elf_error \<Rightarrow> (string \<times> nat) outcome" where
  "string_at bytes off budget out_of_range unterminated =
     (if unat off \<ge> length bytes then Fail out_of_range
      else case ReadDynamicString bytes off budget of
          (status, budget', v) \<Rightarrow>
            if status = kBudgetExceeded then Fail kDecodedStringBudgetExceeded
            else if status \<noteq> kStringOk then Fail unterminated
            else Ok (v, budget'))"

fun needed_loop :: "u8 list \<Rightarrow> elf_dynamic_entry list \<Rightarrow> nat \<Rightarrow> string list \<Rightarrow> (string list \<times> nat) outcome" where
  "needed_loop bytes [] budget needed = Ok (needed, budget)"
| "needed_loop bytes (entry # rest) budget needed =
     (if de_tag entry \<noteq> kDynamicTagNeeded then needed_loop bytes rest budget needed
      else
        obind (string_at bytes (de_value entry) budget kDynamicStringOffsetOutOfRange kUnterminatedDynamicString)
          (\<lambda>(v, budget'). needed_loop bytes rest budget' (needed @ [v])))"

definition ParseDynamicStrings :: "file_image \<Rightarrow> elf_metadata \<Rightarrow> nat \<Rightarrow> (elf_metadata \<times> nat) outcome" where
  "ParseDynamicStrings img metadata budget =
     (let string_table = SelectDynamicEntry metadata kDynamicTagStringTable kDynamicTagSceStringTable;
          string_table_size = SelectDynamicEntry metadata kDynamicTagStringTableSize kDynamicTagSceStringTableSize;
          shared_object_name = FindDynamicEntry metadata kDynamicTagSharedObjectName;
          has_needed = (FindDynamicEntry metadata kDynamicTagNeeded \<noteq> None);
          has_sce_identities = HasDynamicEntry metadata
            [kDynamicTagSceNeededModule, kDynamicTagSceNeededModuleV2, kDynamicTagSceModuleInfo,
             kDynamicTagSceModuleInfoV2, kDynamicTagSceImportLibrary, kDynamicTagSceImportLibraryV2,
             kDynamicTagSceExportLibrary, kDynamicTagSceExportLibraryV2]
      in if (fst string_table = None) \<noteq> (fst string_table_size = None) \<or>
            (fst string_table \<noteq> None \<and> snd string_table \<noteq> snd string_table_size) \<or>
            ((has_needed \<or> shared_object_name \<noteq> None) \<and> fst string_table = None) \<or>
            (has_sce_identities \<and> fst string_table = None)
         then Fail kIncompleteDynamicStringTable
         else case fst string_table_size of
             None \<Rightarrow> Ok (metadata, budget)
           | Some size_entry \<Rightarrow>
               (case ResolveDynamicFileOffset metadata string_table (de_value size_entry) of
                  None \<Rightarrow> Fail kDynamicStringTableNotFileBacked
                | Some file_offset \<Rightarrow>
                    obind (subspan img file_offset (de_value size_entry)) (\<lambda>bytes.
                    let info = (em_dynamic_info metadata)\<lparr>di_string_table_source := snd string_table,
                          di_string_table_file_offset := Some file_offset,
                          di_string_table_size := Some (de_value size_entry)\<rparr>
                    in obind (needed_loop bytes (em_dynamic_entries metadata) budget (di_needed_libraries info))
                      (\<lambda>(needed, budget1).
                        let info1 = info\<lparr>di_needed_libraries := needed\<rparr> in
                        case shared_object_name of
                          None \<Rightarrow> Ok (metadata\<lparr>em_dynamic_info := info1\<rparr>, budget1)
                        | Some entry \<Rightarrow>
                            obind (string_at bytes (de_value entry) budget1 kDynamicStringOffsetOutOfRange
                                     kUnterminatedDynamicString)
                              (\<lambda>(v, budget2).
                                Ok (metadata\<lparr>em_dynamic_info := info1\<lparr>di_shared_object_name := Some v\<rparr>\<rparr>, budget2))))))"

definition ReadMetadataString :: "file_image \<Rightarrow> elf_metadata \<Rightarrow> u64 \<Rightarrow> nat \<Rightarrow> (string \<times> nat) outcome" where
  "ReadMetadataString img metadata off budget =
     (case (di_string_table_file_offset (em_dynamic_info metadata), di_string_table_size (em_dynamic_info metadata)) of
        (Some table_offset, Some table_size) \<Rightarrow>
          if \<not> RangeWithin (image_size img) table_offset table_size then Fail kDynamicStringTableNotFileBacked
          else
            obind (subspan img table_offset table_size) (\<lambda>bytes.
              string_at bytes off budget kDynamicStringOffsetOutOfRange kUnterminatedDynamicString)
      | _ \<Rightarrow> Fail kIncompleteDynamicStringTable)"

definition add_identity :: "elf_dynamic_entry \<Rightarrow> string \<Rightarrow> elf_dynamic_info \<Rightarrow> elf_dynamic_info" where
  "add_identity entry name info =
     (let tag = de_tag entry;
          identity = \<lparr>mi_id = ucast (drop_bit 48 (de_value entry)),
            mi_version_major = ucast (drop_bit 40 (de_value entry)),
            mi_version_minor = ucast (drop_bit 32 (de_value entry)), mi_name = name\<rparr>;
          library = \<lparr>li_id = ucast (drop_bit 48 (de_value entry)),
            li_version = ucast (drop_bit 32 (de_value entry)), li_name = name\<rparr>
      in if tag = kDynamicTagSceNeededModule \<or> tag = kDynamicTagSceNeededModuleV2
         then info\<lparr>di_import_modules := di_import_modules info @ [identity]\<rparr>
         else if tag = kDynamicTagSceModuleInfo \<or> tag = kDynamicTagSceModuleInfoV2
         then info\<lparr>di_export_modules := di_export_modules info @ [identity]\<rparr>
         else if tag = kDynamicTagSceImportLibrary \<or> tag = kDynamicTagSceImportLibraryV2
         then info\<lparr>di_import_libraries := di_import_libraries info @ [library]\<rparr>
         else info\<lparr>di_export_libraries := di_export_libraries info @ [library]\<rparr>)"

fun identities_loop :: "file_image \<Rightarrow> elf_dynamic_entry list \<Rightarrow> elf_metadata \<Rightarrow> nat \<Rightarrow> (elf_metadata \<times> nat) outcome" where
  "identities_loop img [] metadata budget = Ok (metadata, budget)"
| "identities_loop img (entry # rest) metadata budget =
     (if \<not> List.member [kDynamicTagSceNeededModule, kDynamicTagSceNeededModuleV2, kDynamicTagSceModuleInfo,
             kDynamicTagSceModuleInfoV2, kDynamicTagSceImportLibrary, kDynamicTagSceImportLibraryV2,
             kDynamicTagSceExportLibrary, kDynamicTagSceExportLibraryV2] (de_tag entry)
      then identities_loop img rest metadata budget
      else
        obind (ReadMetadataString img metadata (ucast (ucast (de_value entry) :: u32)) budget) (\<lambda>(name, budget').
          identities_loop img rest
            (metadata\<lparr>em_dynamic_info := add_identity entry name (em_dynamic_info metadata)\<rparr>) budget'))"

definition ParseSceIdentities :: "file_image \<Rightarrow> elf_metadata \<Rightarrow> nat \<Rightarrow> (elf_metadata \<times> nat) outcome" where
  "ParseSceIdentities img metadata budget = identities_loop img (em_dynamic_entries metadata) metadata budget"

section \<open>Relocations and symbols\<close>

definition IsGuestRangeMapped :: "elf_metadata \<Rightarrow> u64 \<Rightarrow> u64 \<Rightarrow> bool" where
  "IsGuestRangeMapped metadata address len =
     list_ex (\<lambda>header. ph_type header = kProgramTypeLoad \<and> \<not> address < ph_virtual_address header \<and>
         address - ph_virtual_address header \<le> ph_memory_size header \<and>
         len \<le> ph_memory_size header - (address - ph_virtual_address header))
       (em_program_headers metadata)"

fun rela_loop ::
  "file_image \<Rightarrow> elf_metadata \<Rightarrow> u64 \<Rightarrow> u64 list \<Rightarrow> elf_rela_entry list \<Rightarrow> elf_rela_entry list outcome" where
  "rela_loop img metadata file_offset [] entries = Ok entries"
| "rela_loop img metadata file_offset (relative_offset # rest) entries =
     (let entry_offset = file_offset + relative_offset in
      obind (Read64 img entry_offset) (\<lambda>off.
      obind (Read64 img (entry_offset + 8)) (\<lambda>info.
      obind (Read64 img (entry_offset + 16)) (\<lambda>addend.
      let entry = \<lparr>re_offset = off, re_info = info, re_addend = sint addend\<rparr> in
      if rela_type entry \<noteq> 0 \<and> \<not> IsGuestRangeMapped metadata off 1 then Fail kRelocationTargetOutOfRange
      else rela_loop img metadata file_offset rest (entries @ [entry])))))"

definition ParseRelaTable ::
  "file_image \<Rightarrow> elf_metadata \<Rightarrow> dynamic_entry_selection \<Rightarrow> u64 \<Rightarrow> elf_rela_entry list \<Rightarrow> elf_rela_entry list outcome" where
  "ParseRelaTable img metadata table len entries =
     (if len mod 24 \<noteq> 0 then Fail kInvalidRelaEntrySize
      else case ResolveDynamicFileOffset metadata table len of
          None \<Rightarrow> Fail kRelaTableNotFileBacked
        | Some file_offset \<Rightarrow>
            rela_loop img metadata file_offset (map (\<lambda>i. of_nat i * 24) [0..<unat len div 24]) entries)"

text \<open>
  The selection of a relocation table, its size entry and its format entry: the vendor tags if any of
  them is present, otherwise all or none of the standard tags.
\<close>

definition select_table ::
  "elf_metadata \<Rightarrow> int \<times> int \<times> int \<Rightarrow> int \<times> int \<times> int \<Rightarrow>
   (dynamic_entry_selection \<times> elf_dynamic_entry option \<times> elf_dynamic_entry option) outcome" where
  "select_table metadata sce standard =
     (let (sce_table, sce_size, sce_format) = sce;
          (table, table_size, table_format) = standard
      in if HasDynamicEntry metadata [sce_table, sce_size, sce_format]
         then
           let selection = SelectSceDynamicEntry metadata sce_table;
               size_entry = FindDynamicEntry metadata sce_size
           in if fst selection = None \<or> size_entry = None then Fail kIncompleteRelaMetadata
              else Ok (selection, size_entry, FindDynamicEntry metadata sce_format)
         else
           let entry = FindDynamicEntry metadata table;
               size_entry = FindDynamicEntry metadata table_size;
               format_entry = FindDynamicEntry metadata table_format;
               fields = of_bool (entry \<noteq> None) + of_bool (size_entry \<noteq> None) + of_bool (format_entry \<noteq> None)
           in if fields \<noteq> (0::nat) \<and> fields \<noteq> 3 then Fail kIncompleteRelaMetadata
              else Ok ((entry, kLoadSegment), size_entry, format_entry))"

definition parse_selected ::
  "file_image \<Rightarrow> elf_metadata \<Rightarrow> dynamic_entry_selection \<times> elf_dynamic_entry option \<times> elf_dynamic_entry option \<Rightarrow>
   u64 \<Rightarrow> elf_error \<Rightarrow> elf_rela_entry list \<Rightarrow> elf_rela_entry list outcome" where
  "parse_selected img metadata selection expected wrong_format entries =
     (case selection of (table, size_entry, format_entry) \<Rightarrow>
        if fst table = None then Ok entries
        else if (case format_entry of None \<Rightarrow> False | Some e \<Rightarrow> de_value e \<noteq> expected) then Fail wrong_format
        else ParseRelaTable img metadata table (de_value (the size_entry)) entries)"

definition ParseDynamicRelocations :: "file_image \<Rightarrow> elf_metadata \<Rightarrow> elf_metadata outcome" where
  "ParseDynamicRelocations img metadata =
     obind (select_table metadata (kDynamicTagSceRela, kDynamicTagSceRelaSize, kDynamicTagSceRelaEntrySize)
              (kDynamicTagRela, kDynamicTagRelaSize, kDynamicTagRelaEntrySize)) (\<lambda>rela.
     obind (parse_selected img metadata rela 24 kInvalidRelaEntrySize (di_relocations (em_dynamic_info metadata)))
       (\<lambda>relocations.
     let metadata1 = metadata\<lparr>em_dynamic_info := (em_dynamic_info metadata)\<lparr>di_relocations := relocations\<rparr>\<rparr> in
     obind (select_table metadata1
              (kDynamicTagSceJumpRelocation, kDynamicTagScePltRelocationSize, kDynamicTagScePltRelocationFormat)
              (kDynamicTagJumpRelocation, kDynamicTagPltRelocationSize, kDynamicTagPltRelocationFormat)) (\<lambda>plt.
     obind (parse_selected img metadata1 plt 7 kUnsupportedPltRelocationFormat
              (di_plt_relocations (em_dynamic_info metadata1))) (\<lambda>plt_relocations.
       Ok (metadata1\<lparr>em_dynamic_info := (em_dynamic_info metadata1)\<lparr>di_plt_relocations := plt_relocations\<rparr>\<rparr>)))))"

fun symbol_loop ::
  "file_image \<Rightarrow> u8 list \<Rightarrow> u64 \<Rightarrow> nat list \<Rightarrow> elf_symbol list \<Rightarrow> nat \<Rightarrow> (elf_symbol list \<times> nat) outcome" where
  "symbol_loop img strings symbol_file_offset [] symbols budget = Ok (symbols, budget)"
| "symbol_loop img strings symbol_file_offset (index # rest) symbols budget =
     (let off = symbol_file_offset + of_nat index * 24 in
      obind (Read32 img off) (\<lambda>name_offset.
      obind (Read8 img (off + 4)) (\<lambda>info.
      obind (Read8 img (off + 5)) (\<lambda>other.
      obind (Read16 img (off + 6)) (\<lambda>section_index.
      obind (Read64 img (off + 8)) (\<lambda>v.
      obind (Read64 img (off + 16)) (\<lambda>symbol_size.
      obind (string_at strings (ucast name_offset) budget kSymbolNameOffsetOutOfRange kUnterminatedSymbolName)
        (\<lambda>(name, budget').
          symbol_loop img strings symbol_file_offset rest
            (symbols @ [\<lparr>sy_name_offset = name_offset, sy_info = info, sy_other = other,
               sy_section_index = section_index, sy_value = v, sy_size = symbol_size, sy_name = name\<rparr>]) budget'))))))))"

definition ParseSymbolRecords ::
  "file_image \<Rightarrow> elf_metadata \<Rightarrow> u64 \<Rightarrow> u64 \<Rightarrow> nat \<Rightarrow> (elf_metadata \<times> nat) outcome" where
  "ParseSymbolRecords img metadata symbol_file_offset symbol_count budget =
     (case (di_string_table_file_offset (em_dynamic_info metadata), di_string_table_size (em_dynamic_info metadata)) of
        (Some string_file_offset, Some string_table_size) \<Rightarrow>
          if \<not> RangeWithin (image_size img) string_file_offset string_table_size
          then Fail kDynamicStringTableNotFileBacked
          else
            obind (subspan img string_file_offset string_table_size) (\<lambda>strings.
            obind (symbol_loop img strings symbol_file_offset [0..<unat symbol_count]
                     (di_symbols (em_dynamic_info metadata)) budget) (\<lambda>(symbols, budget').
              Ok (metadata\<lparr>em_dynamic_info := (em_dynamic_info metadata)\<lparr>di_symbols := symbols\<rparr>\<rparr>, budget')))
      | _ \<Rightarrow> Fail kIncompleteDynamicSymbolMetadata)"

definition maximum_symbol :: "elf_dynamic_info \<Rightarrow> u32" where
  "maximum_symbol info = fold (\<lambda>relocation v. max v (rela_symbol relocation)) (di_relocations info @ di_plt_relocations info) 0"

definition ParseSceSymbols :: "file_image \<Rightarrow> elf_metadata \<Rightarrow> nat \<Rightarrow> (elf_metadata \<times> nat) outcome" where
  "ParseSceSymbols img metadata budget =
     (let symbol_table = SelectDynamicEntry metadata kDynamicTagSymbolTable kDynamicTagSceSymbolTable;
          symbol_table_size = FindDynamicEntry metadata kDynamicTagSceSymbolTableSize;
          symbol_entry_size =
            (case FindDynamicEntry metadata kDynamicTagSceSymbolEntrySize of
               None \<Rightarrow> FindDynamicEntry metadata kDynamicTagSymbolEntrySize | Some e \<Rightarrow> Some e);
          parse = (\<lambda>symbol_table_bytes.
            if symbol_table_bytes mod 24 \<noteq> 0 then Fail kInvalidSymbolTableSize
            else case ResolveDynamicFileOffset metadata symbol_table symbol_table_bytes of
                None \<Rightarrow> Fail kSymbolTableNotFileBacked
              | Some symbol_file_offset \<Rightarrow>
                  ParseSymbolRecords img metadata symbol_file_offset (symbol_table_bytes div 24) budget)
      in if fst symbol_table = None \<or> di_string_table_source (em_dynamic_info metadata) = kNoSource
         then Fail kIncompleteDynamicSymbolMetadata
         else if (case symbol_entry_size of None \<Rightarrow> False | Some e \<Rightarrow> de_value e \<noteq> 24) then Fail kInvalidSymbolEntrySize
         else case symbol_table_size of
             Some e \<Rightarrow> parse (de_value e)
           | None \<Rightarrow>
               let m = maximum_symbol (em_dynamic_info metadata) in
               if m = 0 then Ok (metadata, budget) else parse ((ucast m + 1) * 24))"

definition ParseDynamicSymbols :: "file_image \<Rightarrow> elf_metadata \<Rightarrow> nat \<Rightarrow> (elf_metadata \<times> nat) outcome" where
  "ParseDynamicSymbols img metadata budget =
     (if HasDynamicEntry metadata [kDynamicTagSceSymbolTable, kDynamicTagSceSymbolTableSize, kDynamicTagSceSymbolEntrySize]
      then ParseSceSymbols img metadata budget
      else case FindDynamicEntry metadata kDynamicTagHash of
          None \<Rightarrow> Ok (metadata, budget)
        | Some hash \<Rightarrow>
            (case (FindDynamicEntry metadata kDynamicTagSymbolTable, FindDynamicEntry metadata kDynamicTagSymbolEntrySize,
                   di_string_table_file_offset (em_dynamic_info metadata), di_string_table_size (em_dynamic_info metadata)) of
               (Some symbol_table, Some symbol_entry_size, Some _, Some _) \<Rightarrow>
                 if de_value symbol_entry_size \<noteq> 24 then Fail kInvalidSymbolEntrySize
                 else (case ResolveFileOffset metadata (de_value hash) 8 of
                     None \<Rightarrow> Fail kHashTableNotFileBacked
                   | Some hash_header_offset \<Rightarrow>
                       obind (Read32 img hash_header_offset) (\<lambda>bucket_count.
                       obind (Read32 img (hash_header_offset + 4)) (\<lambda>symbol_count.
                       let hash_size = 8 + 4 * (ucast bucket_count + ucast symbol_count) in
                       if ResolveFileOffset metadata (de_value hash) hash_size = None then Fail kHashTableNotFileBacked
                       else
                         let symbol_table_size = ucast symbol_count * 24 in
                         case ResolveFileOffset metadata (de_value symbol_table) symbol_table_size of
                           None \<Rightarrow> Fail kSymbolTableNotFileBacked
                         | Some symbol_file_offset \<Rightarrow>
                             ParseSymbolRecords img metadata symbol_file_offset (ucast symbol_count) budget)))
             | _ \<Rightarrow> Fail kIncompleteDynamicSymbolMetadata))"

section \<open>The image\<close>

definition IsSupportedAbi :: "u8 \<Rightarrow> u8 \<Rightarrow> bool" where
  "IsSupportedAbi os_abi abi_version =
     (if os_abi = 0 then abi_version = 0
      else if os_abi = 9 then abi_version = 0 \<or> abi_version = 2
      else False)"

definition IsSupportedType :: "u16 \<Rightarrow> bool" where
  "IsSupportedType t \<longleftrightarrow> t = 2 \<or> t = 3 \<or> t = 0xFE10 \<or> t = 0xFE18"

definition check_load_header :: "elf_program_header \<Rightarrow> unit outcome" where
  "check_load_header header =
     (if ph_type header = kProgramTypeLoad then
        if ph_file_size header > ph_memory_size header then Fail kSegmentFileSizeExceedsMemorySize
        else if ph_memory_size header > u64_max - ph_virtual_address header then Fail kSegmentAddressRangeOverflow
        else if ph_alignment header > 1 \<and>
          (\<not> is_power_of_two (ph_alignment header) \<or>
           ph_virtual_address header mod ph_alignment header \<noteq> ph_offset header mod ph_alignment header)
        then Fail kInvalidSegmentAlignment
        else Ok ()
      else Ok ())"

fun program_header_loop :: "file_image \<Rightarrow> u64 \<Rightarrow> nat list \<Rightarrow> elf_program_header list \<Rightarrow> elf_program_header list outcome" where
  "program_header_loop img file_offset [] headers = Ok headers"
| "program_header_loop img file_offset (index # rest) headers =
     (let entry_offset = file_offset + of_nat index * ucast kProgramHeaderSize in
      obind (Read32 img entry_offset) (\<lambda>program_type.
      obind (Read32 img (entry_offset + 4)) (\<lambda>flags.
      obind (Read64 img (entry_offset + 8)) (\<lambda>off.
      obind (Read64 img (entry_offset + 16)) (\<lambda>virtual_address.
      obind (Read64 img (entry_offset + 24)) (\<lambda>physical_address.
      obind (Read64 img (entry_offset + 32)) (\<lambda>file_size.
      obind (Read64 img (entry_offset + 40)) (\<lambda>memory_size.
      obind (Read64 img (entry_offset + 48)) (\<lambda>alignment.
      let header = \<lparr>ph_type = program_type, ph_flags = flags, ph_offset = off, ph_file_offset = off,
            ph_virtual_address = virtual_address, ph_physical_address = physical_address, ph_file_size = file_size,
            ph_memory_size = memory_size, ph_alignment = alignment\<rparr>
      in obind (check_load_header header) (\<lambda>_. program_header_loop img file_offset rest (headers @ [header])))))))))))"

fun resolve_headers_loop ::
  "file_image \<Rightarrow> executable_layout \<Rightarrow> nat list \<Rightarrow> elf_program_header list \<Rightarrow> elf_program_header list outcome" where
  "resolve_headers_loop img layout [] headers = Ok headers"
| "resolve_headers_loop img layout (index # rest) headers =
     (let header = headers ! index;
          needs_file_data = (ph_file_size header \<noteq> 0 \<and>
            (ph_type header = kProgramTypeLoad \<or> ph_type header = kProgramTypeDynamic \<or>
             ph_type header = kProgramTypeSceDynlibData))
      in obind (if needs_file_data \<and> el_container layout = kSelf
                then obind (ResolveSelfFileOffset (image_size img) layout headers index)
                       (\<lambda>file_offset. Ok (header\<lparr>ph_file_offset := file_offset\<rparr>))
                else Ok header) (\<lambda>header1.
         if ph_type header1 = kProgramTypeLoad \<and>
            \<not> RangeWithin (image_size img) (ph_file_offset header1) (ph_file_size header1)
         then Fail kSegmentFileRangeOutOfRange
         else resolve_headers_loop img layout rest (headers[index := header1])))"

definition load_ranges :: "elf_program_header list \<Rightarrow> (u64 \<times> u64) list" where
  "load_ranges headers =
     map (\<lambda>header. (ph_virtual_address header, ph_virtual_address header + ph_memory_size header))
       (filter (\<lambda>header. ph_type header = kProgramTypeLoad \<and> ph_memory_size header \<noteq> 0) headers)"

definition ranges_overlap :: "(u64 \<times> u64) list \<Rightarrow> bool" where
  "ranges_overlap ranges =
     (let sorted_ranges = sort ranges in
      list_ex (\<lambda>index. fst (sorted_ranges ! index) < snd (sorted_ranges ! (index - 1))) [1..<length sorted_ranges])"

fun dynlib_loop :: "file_image \<Rightarrow> elf_program_header list \<Rightarrow> bool \<Rightarrow> unit outcome" where
  "dynlib_loop img [] found = Ok ()"
| "dynlib_loop img (header # rest) found =
     (if ph_type header \<noteq> kProgramTypeSceDynlibData then dynlib_loop img rest found
      else if found then Fail kMultipleSceDynlibDataSegments
      else if \<not> RangeWithin (image_size img) (ph_file_offset header) (ph_file_size header)
      then Fail kSceDynlibDataSegmentFileRangeOutOfRange
      else dynlib_loop img rest True)"

fun dynamic_header_loop :: "elf_program_header list \<Rightarrow> elf_program_header option \<Rightarrow> elf_program_header option outcome" where
  "dynamic_header_loop [] found = Ok found"
| "dynamic_header_loop (header # rest) found =
     (if ph_type header \<noteq> kProgramTypeDynamic then dynamic_header_loop rest found
      else if found \<noteq> None then Fail kMultipleDynamicSegments
      else dynamic_header_loop rest (Some header))"

fun dynamic_entry_loop :: "file_image \<Rightarrow> u64 \<Rightarrow> u64 list \<Rightarrow> elf_dynamic_entry list \<Rightarrow> elf_dynamic_entry list outcome" where
  "dynamic_entry_loop img file_offset [] entries = Fail kUnterminatedDynamicTable"
| "dynamic_entry_loop img file_offset (relative_offset # rest) entries =
     (let entry_offset = file_offset + relative_offset in
      obind (Read64 img entry_offset) (\<lambda>tag.
      if sint tag = 0 then Ok entries
      else
        obind (Read64 img (entry_offset + 8)) (\<lambda>v.
          dynamic_entry_loop img file_offset rest (entries @ [\<lparr>de_tag = sint tag, de_value = v\<rparr>]))))"

definition ParseDynamicSegment :: "file_image \<Rightarrow> elf_program_header \<Rightarrow> elf_metadata \<Rightarrow> elf_metadata outcome" where
  "ParseDynamicSegment img dynamic_header metadata =
     (if ph_file_size dynamic_header mod 16 \<noteq> 0 then Fail kInvalidDynamicSegmentSize
      else if \<not> RangeWithin (image_size img) (ph_file_offset dynamic_header) (ph_file_size dynamic_header)
      then Fail kDynamicSegmentFileRangeOutOfRange
      else
        obind (dynamic_entry_loop img (ph_file_offset dynamic_header)
                 (map (\<lambda>i. of_nat i * 16) [0..<unat (ph_file_size dynamic_header) div 16]) []) (\<lambda>entries.
        let metadata1 = ParseDynamicLifecycleMetadata (metadata\<lparr>em_dynamic_entries := entries\<rparr>);
            budget = CalculateDecodedStringBudget (length img)
        in obind (ParseDynamicStrings img metadata1 budget) (\<lambda>(metadata2, budget2).
           obind (ParseSceIdentities img metadata2 budget2) (\<lambda>(metadata3, budget3).
           obind (ParseDynamicRelocations img metadata3) (\<lambda>metadata4.
           obind (ParseDynamicSymbols img metadata4 budget3) (\<lambda>(metadata5, _).
             Ok metadata5))))))"

definition ParseElf64WithLayout :: "file_image \<Rightarrow> executable_layout \<Rightarrow> elf_metadata outcome" where
  "ParseElf64WithLayout img layout =
     (if \<not> RangeWithin (image_size img) (el_elf_offset layout) kElfHeaderSize then Fail kImageTooSmall
      else
        let base = el_elf_offset layout in
        obind (Read8 img base) (\<lambda>m0. obind (Read8 img (base + 1)) (\<lambda>m1.
        obind (Read8 img (base + 2)) (\<lambda>m2. obind (Read8 img (base + 3)) (\<lambda>m3.
        obind (ensure (m0 = 0x7F \<and> m1 = 0x45 \<and> m2 = 0x4C \<and> m3 = 0x46) kInvalidMagic) (\<lambda>_.
        obind (Read8 img (base + 4)) (\<lambda>elf_class. obind (ensure (elf_class = 2) kUnsupportedClass) (\<lambda>_.
        obind (Read8 img (base + 5)) (\<lambda>data. obind (ensure (data = 1) kUnsupportedEndianness) (\<lambda>_.
        obind (Read8 img (base + 6)) (\<lambda>ident. obind (ensure (ident = 1) kUnsupportedIdentVersion) (\<lambda>_.
        obind (Read8 img (base + 7)) (\<lambda>os_abi. obind (Read8 img (base + 8)) (\<lambda>abi_version.
        obind (Read16 img (base + 16)) (\<lambda>file_type. obind (Read16 img (base + 18)) (\<lambda>machine.
        obind (Read32 img (base + 20)) (\<lambda>version. obind (Read64 img (base + 24)) (\<lambda>entry_point.
        obind (Read64 img (base + 32)) (\<lambda>program_header_offset. obind (Read16 img (base + 52)) (\<lambda>header_size.
        obind (Read16 img (base + 54)) (\<lambda>program_header_size. obind (Read16 img (base + 56)) (\<lambda>program_header_count.
        obind (ensure (IsSupportedAbi os_abi abi_version) kUnsupportedAbi) (\<lambda>_.
        obind (ensure (IsSupportedType file_type) kUnsupportedFileType) (\<lambda>_.
        obind (ensure (machine = 62) kUnsupportedMachine) (\<lambda>_.
        obind (ensure (version = 1) kUnsupportedVersion) (\<lambda>_.
        obind (ensure (header_size = 64) kInvalidHeaderSize) (\<lambda>_.
        obind (ensure (program_header_size = kProgramHeaderSize) kInvalidProgramHeaderSize) (\<lambda>_.
        let table_size = ucast program_header_count * ucast program_header_size in
        case AddWithoutOverflow base program_header_offset of
          None \<Rightarrow> Fail kProgramHeaderTableOutOfRange
        | Some program_header_file_offset \<Rightarrow>
            obind (ensure (RangeWithin (image_size img) program_header_file_offset table_size) kProgramHeaderTableOutOfRange) (\<lambda>_.
            obind (program_header_loop img program_header_file_offset [0..<unat program_header_count] []) (\<lambda>headers0.
            obind (resolve_headers_loop img layout [0..<length headers0] headers0) (\<lambda>headers.
            obind (ensure (\<not> ranges_overlap (load_ranges headers)) kOverlappingLoadSegments) (\<lambda>_.
            obind (dynlib_loop img headers False) (\<lambda>_.
            obind (dynamic_header_loop headers None) (\<lambda>dynamic_header.
            let metadata = \<lparr>em_container = el_container layout, em_elf_file_offset = base,
                  em_self_segment_count = of_nat (length (el_self_segments layout)), em_os_abi = os_abi,
                  em_abi_version = abi_version, em_type = file_type, em_machine = machine, em_version = version,
                  em_entry_point = entry_point, em_program_headers = headers, em_dynamic_entries = [],
                  em_dynamic_info = default_dynamic_info\<rparr>
            in case dynamic_header of
                 None \<Rightarrow> Ok metadata
               | Some header \<Rightarrow> ParseDynamicSegment img header metadata))))))))))))))))))))))))))))))))))"

definition ParseElf64 :: "file_image \<Rightarrow> elf_metadata outcome" where
  "ParseElf64 img = ParseElf64WithLayout img default_layout"

definition ParseExecutable64 :: "file_image \<Rightarrow> elf_metadata outcome" where
  "ParseExecutable64 img = obind (ParseExecutableLayout img) (ParseElf64WithLayout img)"

text \<open>The loop gives the segment count on an overflow, the range and the count otherwise.\<close>

fun load_range_loop :: "elf_program_header list \<Rightarrow> u64 \<times> u64 \<times> u64 \<Rightarrow> u64 + u64 \<times> u64 \<times> u64" where
  "load_range_loop [] state = Inr state"
| "load_range_loop (header # rest) (minimum_address, maximum_address, count) =
     (if ph_type header \<noteq> kProgramTypeLoad \<or> ph_memory_size header = 0
      then load_range_loop rest (minimum_address, maximum_address, count)
      else if ph_memory_size header > u64_max - ph_virtual_address header then Inl count
      else
        let end_address = ph_virtual_address header + ph_memory_size header in
        load_range_loop rest (min minimum_address (ph_virtual_address header), max maximum_address end_address, count + 1))"

definition CalculateElfLoadRange :: "elf_metadata \<Rightarrow> elf_load_range_result" where
  "CalculateElfLoadRange metadata =
     (case load_range_loop (em_program_headers metadata) (u64_max, 0, 0) of
        Inl count \<Rightarrow>
          \<lparr>lr_error = kSegmentAddressRangeOverflow, lr_base_address = 0, lr_size = 0, lr_load_segment_count = count\<rparr>
      | Inr (minimum_address, maximum_address, count) \<Rightarrow>
          if count = 0 then \<lparr>lr_error = kNoError, lr_base_address = 0, lr_size = 0, lr_load_segment_count = 0\<rparr>
          else \<lparr>lr_error = kNoError, lr_base_address = minimum_address, lr_size = maximum_address - minimum_address,
                lr_load_segment_count = count\<rparr>)"

end
