(* ===== verification/Elf_Safety.thy ===== *)
theory Elf_Safety
  imports Elf_Parser "HOL-Library.Multiset"
begin

text \<open>
  Memory safety of the parser: whatever the bytes of the image, no read and no \<open>subspan\<close> leaves it,
  and the program headers of a parsed image describe file ranges inside it and disjoint address
  ranges. \<open>safe\<close> is the condition that an outcome is not a fault and that its result, if it has one,
  has a property; it distributes over \<open>obind\<close>, so the proofs follow the code.
\<close>

section \<open>Safe outcomes\<close>

fun safe :: "'a outcome \<Rightarrow> ('a \<Rightarrow> bool) \<Rightarrow> bool" where
  "safe Fault Q = False"
| "safe (Fail e) Q = True"
| "safe (Ok v) Q = Q v"

lemma safe_obind [simp]: "safe (obind x f) Q \<longleftrightarrow> safe x (\<lambda>v. safe (f v) Q)"
  by (cases x) auto

lemma safe_mono: "safe x P \<Longrightarrow> (\<And>v. P v \<Longrightarrow> Q v) \<Longrightarrow> safe x Q"
  by (cases x) auto

lemma safe_iff: "safe x Q \<longleftrightarrow> x \<noteq> Fault \<and> (\<forall>v. x = Ok v \<longrightarrow> Q v)"
  by (cases x) auto

lemma safe_ensure [simp]: "safe (ensure c e) Q \<longleftrightarrow> (c \<longrightarrow> Q ())"
  by (simp add: ensure_def)

lemma safe_if: "safe (if c then x else y) Q \<longleftrightarrow> (c \<longrightarrow> safe x Q) \<and> (\<not> c \<longrightarrow> safe y Q)"
  by simp

text \<open>An image that fits the address space, and a range inside it.\<close>

definition addressable :: "file_image \<Rightarrow> bool" where
  "addressable img \<longleftrightarrow> length img < 18446744073709551616"

definition inside_image :: "file_image \<Rightarrow> u64 \<Rightarrow> nat \<Rightarrow> bool" where
  "inside_image img off n \<longleftrightarrow> unat off + n \<le> length img"

lemma inside_sub:
  assumes "addressable img" "inside_image img off n" "unat k + j \<le> n"
  shows "inside_image img (off + k) j"
proof -
  have "unat (off + k) = unat off + unat k"
    using assms by (intro unat_add_exact) (simp add: addressable_def inside_image_def)
  then show ?thesis using assms by (simp add: inside_image_def)
qed

lemma inside_less: "inside_image img off n \<Longrightarrow> k \<le> n \<Longrightarrow> inside_image img off k"
  by (simp add: inside_image_def)

lemma RangeWithin_inside:
  assumes "addressable img"
  shows "RangeWithin (image_size img) off len \<longleftrightarrow> inside_image img off (unat len)"
proof -
  have u: "unat (image_size img :: u64) = length img" using assms by (simp add: addressable_def unat_of_nat)
  show ?thesis
  proof (cases "off \<le> image_size img")
    case True
    then have "unat off \<le> unat (image_size img :: u64)" by (simp add: word_le_nat_alt)
    then have "unat (image_size img - off) = unat (image_size img :: u64) - unat off" by (rule unat_sub_exact)
    then show ?thesis using True u unfolding RangeWithin_def inside_image_def word_le_nat_alt by linarith
  next
    case False
    then show ?thesis using u unfolding RangeWithin_def inside_image_def word_le_nat_alt by linarith
  qed
qed

lemma safe_Read8: "inside_image img off 1 \<Longrightarrow> (\<And>v. Q v) \<Longrightarrow> safe (Read8 img off) Q"
  by (simp add: Read8_def inside_image_def)

lemma safe_Read16: "addressable img \<Longrightarrow> inside_image img off 2 \<Longrightarrow> (\<And>v. Q v) \<Longrightarrow> safe (Read16 img off) Q"
proof -
  assume h: "addressable img" "inside_image img off 2" and Q: "\<And>v. Q v"
  have "inside_image img off 1" "inside_image img (off + 1) 1"
    using h inside_sub [OF h, of 1 1] by (auto intro: inside_less)
  then show ?thesis unfolding Read16_def by (auto intro!: safe_Read8 Q)
qed

lemma safe_read_le:
  "addressable img \<Longrightarrow> inside_image img off (i + n) \<Longrightarrow> (\<And>v. Q v) \<Longrightarrow> safe (read_le img off i n w) Q"
proof (induction n arbitrary: i w)
  case (Suc n)
  have "i < 18446744073709551616" using Suc.prems(1,2) by (simp add: addressable_def inside_image_def)
  then have "unat (of_nat i :: u64) = i" by (simp add: unat_of_nat)
  then have "inside_image img (off + of_nat i) 1" using Suc.prems by (intro inside_sub [where n = "i + Suc n"]) auto
  moreover have "safe (read_le img off (Suc i) n w') Q" for w' using Suc.prems by (intro Suc.IH) auto
  ultimately show ?case by (auto intro!: safe_Read8)
qed simp

lemma safe_Read32: "addressable img \<Longrightarrow> inside_image img off 4 \<Longrightarrow> (\<And>v. Q v) \<Longrightarrow> safe (Read32 img off) Q"
  unfolding Read32_def by (rule safe_read_le) auto

lemma safe_Read64: "addressable img \<Longrightarrow> inside_image img off 8 \<Longrightarrow> (\<And>v. Q v) \<Longrightarrow> safe (Read64 img off) Q"
  unfolding Read64_def by (rule safe_read_le) auto

lemma safe_subspan: "inside_image img off (unat len) \<Longrightarrow> (\<And>v. Q v) \<Longrightarrow> safe (subspan img off len) Q"
  by (simp add: subspan_def inside_image_def)

lemmas safe_reads = safe_Read8 safe_Read16 safe_Read32 safe_Read64

section \<open>Resolution of file offsets\<close>

definition headers_ok :: "file_image \<Rightarrow> elf_program_header list \<Rightarrow> bool" where
  "headers_ok img headers \<longleftrightarrow> (\<forall>h \<in> set headers. ph_type h = kProgramTypeLoad \<or> ph_type h = kProgramTypeSceDynlibData \<longrightarrow>
     inside_image img (ph_file_offset h) (unat (ph_file_size h)))"

lemma sub_file_range:
  fixes size' :: u64
  assumes "addressable img" "inside_image img off (unat size')" "rel \<le> size'" "len \<le> size' - rel"
  shows "inside_image img (off + rel) (unat len)"
proof -
  have "unat (size' - rel) = unat size' - unat rel" using assms(3) by (intro unat_sub_exact) (simp add: word_le_nat_alt)
  then have "unat rel + unat len \<le> unat size'" using assms(3,4) unfolding word_le_nat_alt by linarith
  then show ?thesis by (rule inside_sub [OF assms(1,2)])
qed

lemma resolve_address_inside:
  assumes "addressable img" "headers_ok img headers" "resolve_address address len headers = Some off"
  shows "inside_image img off (unat len)"
  using assms
proof (induction address len headers rule: resolve_address.induct)
  case (2 address len h rest)
  have ok: "headers_ok img rest" using 2(4) by (simp add: headers_ok_def)
  show ?case
  proof (cases "ph_type h \<noteq> kProgramTypeLoad \<or> address < ph_virtual_address h")
    case True
    then show ?thesis using 2(1) [OF True 2(3) ok] 2(5) by simp
  next
    case F: False
    let ?rel = "address - ph_virtual_address h"
    show ?thesis
    proof (cases "?rel \<le> ph_file_size h \<and> len \<le> ph_file_size h - ?rel")
      case True
      then have "off = ph_file_offset h + ?rel" using 2(5) F by (auto simp: Let_def)
      then show ?thesis using sub_file_range [OF 2(3), of "ph_file_offset h" "ph_file_size h" ?rel len] 2(4) F True
        by (auto simp: headers_ok_def)
    next
      case False
      then show ?thesis using 2(2) [OF F refl False 2(3) ok] 2(5) F by (auto simp: Let_def)
    qed
  qed
qed simp

lemma ResolveFileOffset_inside:
  assumes "addressable img" "headers_ok img (em_program_headers md)" "ResolveFileOffset md address len = Some off"
  shows "inside_image img off (unat len)"
  using assms(3) resolve_address_inside [OF assms(1,2)]
  by (auto simp: ResolveFileOffset_def Let_def split: option.splits if_splits)

lemma ResolveDynamicFileOffset_inside:
  assumes "addressable img" "headers_ok img (em_program_headers md)" "ResolveDynamicFileOffset md sel len = Some off"
  shows "inside_image img off (unat len)"
proof -
  obtain e s where sel: "sel = (Some e, s)" using assms(3) by (cases sel; cases "fst sel") (auto simp: ResolveDynamicFileOffset_def)
  show ?thesis
  proof (cases "s = kLoadSegment")
    case True
    then show ?thesis using assms sel ResolveFileOffset_inside [OF assms(1,2)] by (simp add: ResolveDynamicFileOffset_def)
  next
    case False
    then obtain h where h: "FindProgramHeader md kProgramTypeSceDynlibData = Some h"
      "RangeWithin (ph_file_size h) (de_value e) len" "off = ph_file_offset h + de_value e"
      using assms(3) sel by (auto simp: ResolveDynamicFileOffset_def split: if_splits option.splits)
    then have "h \<in> set (em_program_headers md)" "ph_type h = kProgramTypeSceDynlibData"
      by (auto simp: FindProgramHeader_def find_Some_iff)
    then have "inside_image img (ph_file_offset h) (unat (ph_file_size h))" using assms(2) by (simp add: headers_ok_def)
    then show ?thesis using h sub_file_range [OF assms(1)] by (simp add: RangeWithin_def)
  qed
qed

section \<open>The dynamic segment\<close>

lemma safe_string_at: "(\<And>v. Q v) \<Longrightarrow> safe (string_at bytes off budget e1 e2) Q"
  by (auto simp: string_at_def split: prod.splits)

lemma safe_needed_loop: "(\<And>v. Q v) \<Longrightarrow> safe (needed_loop bytes entries budget needed) Q"
  by (induction entries arbitrary: budget needed) (auto intro!: safe_string_at)

text \<open>Every step of the dynamic segment keeps the program headers.\<close>

definition same_headers :: "elf_metadata \<Rightarrow> elf_metadata \<Rightarrow> bool" where
  "same_headers md md' \<longleftrightarrow> em_program_headers md' = em_program_headers md"

lemma same_headers_refl [simp]: "same_headers md md"
  by (simp add: same_headers_def)

lemma same_headers_info [simp]: "same_headers md (md\<lparr>em_dynamic_info := info\<rparr>)"
  by (simp add: same_headers_def)

lemma same_headers_trans: "same_headers a b \<Longrightarrow> same_headers b c \<Longrightarrow> same_headers a c"
  by (simp add: same_headers_def)

lemma safe_ParseDynamicStrings:
  assumes "addressable img" "headers_ok img (em_program_headers md)"
  shows "safe (ParseDynamicStrings img md budget) (\<lambda>(md', b). same_headers md md')"
  unfolding ParseDynamicStrings_def Let_def
  by (auto split: option.splits intro!: safe_subspan safe_needed_loop safe_string_at
      dest: ResolveDynamicFileOffset_inside [OF assms])

lemma safe_ReadMetadataString:
  "addressable img \<Longrightarrow> (\<And>v. Q v) \<Longrightarrow> safe (ReadMetadataString img md off budget) Q"
  unfolding ReadMetadataString_def
  by (auto split: option.splits simp: RangeWithin_inside intro!: safe_subspan safe_string_at)

lemma safe_identities_loop:
  "addressable img \<Longrightarrow> safe (identities_loop img entries md budget) (\<lambda>(md', b). same_headers md md')"
proof (induction entries arbitrary: md budget)
  case (Cons e entries)
  have "safe (identities_loop img entries (md\<lparr>em_dynamic_info := info\<rparr>) b) (\<lambda>(md', b). same_headers md md')" for info b
    using Cons.IH [OF Cons.prems, of "md\<lparr>em_dynamic_info := info\<rparr>" b]
    by (rule safe_mono) (auto simp: same_headers_def)
  then show ?case using Cons by (auto intro!: safe_ReadMetadataString)
qed simp

lemma record_offset:
  assumes "addressable img" "inside_image img off (n * k)" "i < n"
  shows "inside_image img (off + of_nat i * of_nat k) k"
proof -
  have "Suc i * k \<le> n * k" using assms(3) by (intro mult_le_mono1) simp
  then have b: "i * k + k \<le> n * k" by simp
  have "i * k < 18446744073709551616" using b assms(1,2) unfolding addressable_def inside_image_def by linarith
  then have "unat (of_nat (i * k) :: u64) = i * k" by (simp add: unat_of_nat del: of_nat_mult)
  then show ?thesis using inside_sub [OF assms(1,2), of "of_nat (i * k)" k] b by simp
qed

lemma table_offset:
  fixes off len :: u64
  assumes "addressable img" "inside_image img off (unat len)" "i < unat len div k"
  shows "inside_image img (off + of_nat i * of_nat k) k"
  by (rule record_offset [OF assms(1) inside_less [OF assms(2)] assms(3)]) simp

lemma safe_rela_loop:
  assumes "addressable img" "\<forall>rel \<in> set rels. inside_image img (off + rel) 24"
  shows "safe (rela_loop img md off rels entries) (\<lambda>_. True)"
  using assms(2)
proof (induction rels arbitrary: entries)
  case (Cons rel rels)
  have base: "inside_image img (off + rel) 24" using Cons.prems by simp
  have "inside_image img (off + rel) 8" "inside_image img (off + rel + 8) 8" "inside_image img (off + rel + 16) 8"
    using inside_sub [OF assms(1) base, of 8 8] inside_sub [OF assms(1) base, of 16 8] base by (auto intro: inside_less)
  then show ?case using Cons by (auto simp: Let_def intro!: safe_Read64 assms(1))
qed simp

lemma safe_ParseRelaTable:
  assumes "addressable img" "headers_ok img (em_program_headers md)"
  shows "safe (ParseRelaTable img md table len entries) (\<lambda>_. True)"
proof -
  have "safe (rela_loop img md off (map (\<lambda>i. of_nat i * 24) [0..<unat len div 24]) entries) (\<lambda>_. True)"
    if "ResolveDynamicFileOffset md table len = Some off" for off
    using table_offset [OF assms(1) ResolveDynamicFileOffset_inside [OF assms that], of _ 24]
    by (intro safe_rela_loop [OF assms(1)]) auto
  then show ?thesis by (auto simp: ParseRelaTable_def split: option.splits)
qed

lemma safe_select_table: "(\<And>v. Q v) \<Longrightarrow> safe (select_table md sce standard) Q"
  by (cases sce; cases standard) (simp add: select_table_def Let_def)

lemma safe_parse_selected:
  assumes "addressable img" "headers_ok img (em_program_headers md)" "\<And>v. Q v"
  shows "safe (parse_selected img md selection expected wrong entries) Q"
proof (cases selection)
  case (fields table len pltrel)
  have "safe (ParseRelaTable img md table' len' entries) Q" for table' len'
    by (rule safe_mono [OF safe_ParseRelaTable [OF assms(1,2)]]) (rule assms(3))
  then show ?thesis using assms(3) by (auto simp: parse_selected_def fields split: option.splits)
qed

lemma safe_ParseDynamicRelocations:
  assumes "addressable img" "headers_ok img (em_program_headers md)"
  shows "safe (ParseDynamicRelocations img md) (same_headers md)"
  unfolding ParseDynamicRelocations_def Let_def using assms
  by (auto intro!: safe_select_table safe_parse_selected simp: same_headers_def)

lemma safe_symbol_loop:
  assumes "addressable img" "\<forall>i \<in> set indices. inside_image img (off + of_nat i * 24) 24"
  shows "safe (symbol_loop img strings off indices symbols budget) (\<lambda>_. True)"
  using assms(2)
proof (induction indices arbitrary: symbols budget)
  case (Cons i indices)
  let ?o = "off + of_nat i * 24"
  have base: "inside_image img ?o 24" using Cons.prems by simp
  have "inside_image img ?o 4" "inside_image img (?o + 4) 1" "inside_image img (?o + 5) 1" "inside_image img (?o + 6) 2"
    "inside_image img (?o + 8) 8" "inside_image img (?o + 16) 8"
    using inside_less [OF base, of 4] inside_sub [OF assms(1) base, of 4 1] inside_sub [OF assms(1) base, of 5 1]
      inside_sub [OF assms(1) base, of 6 2] inside_sub [OF assms(1) base, of 8 8] inside_sub [OF assms(1) base, of 16 8]
    by simp_all
  then show ?case using Cons by (auto simp: Let_def intro!: safe_reads safe_string_at assms(1))
qed simp

lemma safe_ParseSymbolRecords:
  assumes "addressable img" "inside_image img off (unat symbol_count * 24)"
  shows "safe (ParseSymbolRecords img md off symbol_count budget) (\<lambda>(md', b). same_headers md md')"
proof -
  have "safe (symbol_loop img strings off [0..<unat symbol_count] symbols budget) (\<lambda>_. True)" for strings symbols
    using record_offset [OF assms] by (intro safe_symbol_loop [OF assms(1)]) auto
  then have "safe (symbol_loop img strings off [0..<unat symbol_count] symbols budget) Q" if "\<And>v. Q v" for strings symbols Q
    using that by (rule safe_mono)
  then show ?thesis unfolding ParseSymbolRecords_def
    by (auto split: option.splits simp: RangeWithin_inside [OF assms(1)] same_headers_def intro!: safe_subspan)
qed

lemma safe_ParseSceSymbols:
  assumes "addressable img" "headers_ok img (em_program_headers md)"
  shows "safe (ParseSceSymbols img md budget) (\<lambda>(md', b). same_headers md md')"
proof -
  have "safe (ParseSymbolRecords img md off (bytes div 24) budget) (\<lambda>(md', b). same_headers md md')"
    if "ResolveDynamicFileOffset md table bytes = Some off" for table bytes off
    using ResolveDynamicFileOffset_inside [OF assms that]
    by (intro safe_ParseSymbolRecords [OF assms(1)]) (auto simp: unat_div intro: inside_less)
  then show ?thesis unfolding ParseSceSymbols_def by (auto simp: Let_def split: option.splits)
qed

lemma unat_ucast_u32: "unat (ucast (symbol_count :: u32) :: u64) = unat symbol_count"
  by (simp add: unsigned_ucast_eq take_bit_nat_eq_self_iff)
    (use unsigned_less [of symbol_count, where 'a = nat] in simp)

lemma symbol_table_bytes: "unat (ucast (symbol_count :: u32) * 24 :: u64) = unat symbol_count * 24"
proof -
  have "unat symbol_count < 4294967296" using unsigned_less [of symbol_count, where 'a = nat] by simp
  then show ?thesis using unat_ucast_u32 [of symbol_count] by (simp add: unat_word_ariths)
qed

lemma safe_ParseDynamicSymbols:
  assumes "addressable img" "headers_ok img (em_program_headers md)"
  shows "safe (ParseDynamicSymbols img md budget) (\<lambda>(md', b). same_headers md md')"
proof -
  have records: "safe (ParseSymbolRecords img md off (ucast symbol_count) budget) (\<lambda>(md', b). same_headers md md')"
    if "ResolveFileOffset md address (ucast (symbol_count :: u32) * 24) = Some off" for address symbol_count off
    using ResolveFileOffset_inside [OF assms that] unfolding symbol_table_bytes
    by (intro safe_ParseSymbolRecords [OF assms(1)]) (simp add: unat_ucast_u32)
  have hash: "inside_image img off 4" "inside_image img (off + 4) 4"
    if "ResolveFileOffset md address 8 = Some off" for address off
    using ResolveFileOffset_inside [OF assms that] inside_sub [OF assms(1), of off 8 4 4] by (auto intro: inside_less)
  show ?thesis unfolding ParseDynamicSymbols_def
    by (auto simp: Let_def split: option.splits intro!: safe_ParseSceSymbols [OF assms] safe_Read32 assms(1)
        intro: records dest: hash)
qed

lemma safe_dynamic_entry_loop:
  assumes "addressable img" "\<forall>rel \<in> set rels. inside_image img (off + rel) 16"
  shows "safe (dynamic_entry_loop img off rels entries) (\<lambda>_. True)"
  using assms(2)
proof (induction rels arbitrary: entries)
  case (Cons rel rels)
  have base: "inside_image img (off + rel) 16" using Cons.prems by simp
  have "inside_image img (off + rel) 8" "inside_image img (off + rel + 8) 8"
    using inside_less [OF base, of 8] inside_sub [OF assms(1) base, of 8 8] by simp_all
  then show ?case using Cons by (auto simp: Let_def intro!: safe_Read64 assms(1))
qed simp

lemma same_headers_ok: "same_headers md md' \<Longrightarrow> headers_ok img (em_program_headers md) \<Longrightarrow> headers_ok img (em_program_headers md')"
  by (simp add: same_headers_def)

lemma safe_dynamic_tables:
  assumes "addressable img" "headers_ok img (em_program_headers md)"
  shows "safe (obind (ParseDynamicStrings img md budget) (\<lambda>(md2, budget2).
      obind (ParseSceIdentities img md2 budget2) (\<lambda>(md3, budget3).
      obind (ParseDynamicRelocations img md3) (\<lambda>md4.
      obind (ParseDynamicSymbols img md4 budget3) (\<lambda>(md5, _). Ok md5))))) (same_headers md)"
proof -
  have symbols: "safe (obind (ParseDynamicSymbols img md4 b) (\<lambda>(md5, _). Ok md5)) (same_headers md)"
    if "same_headers md md4" for md4 b
    unfolding safe_obind
    by (rule safe_mono [OF safe_ParseDynamicSymbols [OF assms(1) same_headers_ok [OF that assms(2)]]])
      (use that in \<open>auto intro: same_headers_trans\<close>)
  have relocations: "safe (obind (ParseDynamicRelocations img md3) (\<lambda>md4.
      obind (ParseDynamicSymbols img md4 b) (\<lambda>(md5, _). Ok md5))) (same_headers md)"
    if "same_headers md md3" for md3 b
    unfolding safe_obind [of "ParseDynamicRelocations img md3"]
    by (rule safe_mono [OF safe_ParseDynamicRelocations [OF assms(1) same_headers_ok [OF that assms(2)]]])
      (use that symbols in \<open>blast intro: same_headers_trans\<close>)
  have identities: "safe (obind (ParseSceIdentities img md2 b) (\<lambda>(md3, budget3). obind (ParseDynamicRelocations img md3) (\<lambda>md4.
      obind (ParseDynamicSymbols img md4 budget3) (\<lambda>(md5, _). Ok md5)))) (same_headers md)"
    if "same_headers md md2" for md2 b
    unfolding ParseSceIdentities_def safe_obind [of "identities_loop img (em_dynamic_entries md2) md2 b"]
    by (rule safe_mono [OF safe_identities_loop [OF assms(1)]])
      (use that relocations in \<open>auto simp del: safe_obind intro: same_headers_trans split: prod.splits\<close>)
  show ?thesis
    unfolding safe_obind [of "ParseDynamicStrings img md budget"]
    by (rule safe_mono [OF safe_ParseDynamicStrings [OF assms]])
      (use identities in \<open>auto simp del: safe_obind split: prod.splits\<close>)
qed

lemma safe_ParseDynamicSegment:
  assumes "addressable img" "headers_ok img (em_program_headers md)"
  shows "safe (ParseDynamicSegment img h md) (same_headers md)"
proof -
  have tables: "safe (let md1 = ParseDynamicLifecycleMetadata (md\<lparr>em_dynamic_entries := entries\<rparr>);
            budget = CalculateDecodedStringBudget (length img)
        in obind (ParseDynamicStrings img md1 budget) (\<lambda>(metadata2, budget2).
           obind (ParseSceIdentities img metadata2 budget2) (\<lambda>(metadata3, budget3).
           obind (ParseDynamicRelocations img metadata3) (\<lambda>metadata4.
           obind (ParseDynamicSymbols img metadata4 budget3) (\<lambda>(metadata5, _). Ok metadata5)))))
      (same_headers md)" for entries
  proof -
    let ?md = "ParseDynamicLifecycleMetadata (md\<lparr>em_dynamic_entries := entries\<rparr>)"
    have same: "same_headers md ?md" by (simp add: same_headers_def ParseDynamicLifecycleMetadata_def Let_def)
    show ?thesis unfolding Let_def
      by (rule safe_mono [OF safe_dynamic_tables [OF assms(1) same_headers_ok [OF same assms(2)]]])
        (rule same_headers_trans [OF same])
  qed
  have loop: "safe (obind (dynamic_entry_loop img (ph_file_offset h)
      (map (\<lambda>i. of_nat i * 16) [0..<unat (ph_file_size h) div 16]) []) f) (same_headers md)"
    if "RangeWithin (image_size img) (ph_file_offset h) (ph_file_size h)" "\<And>entries. safe (f entries) (same_headers md)" for f
    unfolding safe_obind
  proof (rule safe_mono [OF safe_dynamic_entry_loop [OF assms(1)]])
    show "\<forall>rel \<in> set (map (\<lambda>i. of_nat i * 16) [0..<unat (ph_file_size h) div 16]). inside_image img (ph_file_offset h + rel) 16"
      using table_offset [OF assms(1), of "ph_file_offset h" "ph_file_size h" _ 16] that(1)
      by (auto simp: RangeWithin_inside [OF assms(1)])
  qed (rule that)
  show ?thesis unfolding ParseDynamicSegment_def safe_if safe.simps
    by (intro conjI impI TrueI loop tables) simp_all
qed

section \<open>The program headers\<close>

text \<open>What the header loop has checked of a loadable segment before its file range is known.\<close>

definition header_checked :: "elf_program_header \<Rightarrow> bool" where
  "header_checked h \<longleftrightarrow> (ph_type h = kProgramTypeLoad \<longrightarrow>
     ph_file_size h \<le> ph_memory_size h \<and> unat (ph_virtual_address h) + unat (ph_memory_size h) < 18446744073709551616)"

lemma safe_check_load_header: "safe (check_load_header h) (\<lambda>_. header_checked h)"
  by (auto simp: check_load_header_def header_checked_def u64_overflow_test not_less not_le)

lemma safe_program_header_loop:
  assumes "addressable img" "\<forall>i \<in> set indices. inside_image img (off + of_nat i * 56) 56" "\<forall>h \<in> set headers. header_checked h"
  shows "safe (program_header_loop img off indices headers) (\<lambda>hs. \<forall>h \<in> set hs. header_checked h)"
  using assms(2,3)
proof (induction indices arbitrary: headers)
  case (Cons i indices)
  let ?o = "off + of_nat i * 56"
  have base: "inside_image img ?o 56" using Cons.prems by simp
  have reads: "inside_image img ?o 4" "inside_image img (?o + 4) 4" "inside_image img (?o + 8) 8" "inside_image img (?o + 16) 8"
    "inside_image img (?o + 24) 8" "inside_image img (?o + 32) 8" "inside_image img (?o + 40) 8" "inside_image img (?o + 48) 8"
    using inside_less [OF base, of 4] inside_sub [OF assms(1) base, of 4 4] inside_sub [OF assms(1) base, of 8 8]
      inside_sub [OF assms(1) base, of 16 8] inside_sub [OF assms(1) base, of 24 8] inside_sub [OF assms(1) base, of 32 8]
      inside_sub [OF assms(1) base, of 40 8] inside_sub [OF assms(1) base, of 48 8]
    by simp_all
  have step: "safe (check_load_header h) (\<lambda>_. safe (program_header_loop img off indices (headers @ [h])) (\<lambda>hs. \<forall>h \<in> set hs. header_checked h))" for h
    by (rule safe_mono [OF safe_check_load_header]) (rule Cons.IH; use Cons.prems in simp)
  show ?case using reads by (auto simp: Let_def intro!: safe_Read32 safe_Read64 assms(1) step)
qed simp

text \<open>
  The resolution loop changes the file offsets only, and leaves each loadable segment with a file
  range inside the image.
\<close>

definition same_but_offset :: "elf_program_header \<Rightarrow> elf_program_header \<Rightarrow> bool" where
  "same_but_offset h h' \<longleftrightarrow> h' = h\<lparr>ph_file_offset := ph_file_offset h'\<rparr>"

lemma same_but_offset_refl [simp]: "same_but_offset h h"
  by (simp add: same_but_offset_def)

lemma same_but_offset_update [simp]: "same_but_offset h (h\<lparr>ph_file_offset := v\<rparr>)"
  by (simp add: same_but_offset_def)

lemma same_but_offset_fields:
  assumes "same_but_offset h h'"
  shows "ph_type h' = ph_type h" "ph_virtual_address h' = ph_virtual_address h" "ph_file_size h' = ph_file_size h"
    "ph_memory_size h' = ph_memory_size h"
  using assms by (cases h; cases h'; simp add: same_but_offset_def)+

definition load_inside :: "file_image \<Rightarrow> elf_program_header \<Rightarrow> bool" where
  "load_inside img h \<longleftrightarrow> (ph_type h = kProgramTypeLoad \<longrightarrow> inside_image img (ph_file_offset h) (unat (ph_file_size h)))"

lemma safe_ResolveSelfFileOffset: "(\<And>v. Q v) \<Longrightarrow> safe (ResolveSelfFileOffset n layout headers index) Q"
  by (simp add: ResolveSelfFileOffset_def Let_def)

lemma safe_resolve_headers_loop:
  assumes "addressable img" "distinct indices" "set indices \<subseteq> {..<length headers}"
  shows "safe (resolve_headers_loop img layout indices headers) (\<lambda>hs. length hs = length headers \<and>
    (\<forall>i < length headers. same_but_offset (headers ! i) (hs ! i) \<and> (i \<in> set indices \<longrightarrow> load_inside img (hs ! i)) \<and>
       (i \<notin> set indices \<longrightarrow> hs ! i = headers ! i)))"
  using assms(2,3)
proof (induction indices arbitrary: headers)
  case (Cons index indices)
  let ?Q = "\<lambda>hs. length hs = length headers \<and> (\<forall>i < length headers. same_but_offset (headers ! i) (hs ! i) \<and>
    (i \<in> set (index # indices) \<longrightarrow> load_inside img (hs ! i)) \<and> (i \<notin> set (index # indices) \<longrightarrow> hs ! i = headers ! i))"
  have i: "index < length headers" "index \<notin> set indices" using Cons.prems by auto
  have step: "safe (resolve_headers_loop img layout indices (headers[index := h])) ?Q"
    if "same_but_offset (headers ! index) h" "load_inside img h" for h
    by (rule safe_mono [OF Cons.IH]) (use Cons.prems i that in \<open>auto simp: nth_list_update split: if_splits\<close>)
  have rest: "safe (if ph_type h = kProgramTypeLoad \<and> \<not> RangeWithin (image_size img) (ph_file_offset h) (ph_file_size h)
      then Fail kSegmentFileRangeOutOfRange else resolve_headers_loop img layout indices (headers[index := h])) ?Q"
    if "same_but_offset (headers ! index) h" for h
    using step [OF that] by (auto simp: load_inside_def RangeWithin_inside [OF assms(1)])
  have first: "safe (if c then obind (ResolveSelfFileOffset (image_size img) layout headers index)
      (\<lambda>v. Ok ((headers ! index)\<lparr>ph_file_offset := v\<rparr>)) else Ok (headers ! index)) (same_but_offset (headers ! index))" for c
    by (auto intro: safe_ResolveSelfFileOffset)
  show ?case unfolding resolve_headers_loop.simps Let_def safe_obind
    by (rule safe_mono [OF first rest])
qed simp

lemma safe_dynlib_loop:
  assumes "addressable img"
  shows "safe (dynlib_loop img headers found) (\<lambda>_. \<forall>h \<in> set headers. ph_type h = kProgramTypeSceDynlibData \<longrightarrow>
    inside_image img (ph_file_offset h) (unat (ph_file_size h)))"
proof (induction headers arbitrary: found)
  case (Cons h headers)
  show ?case using safe_mono [OF Cons.IH [of found]] safe_mono [OF Cons.IH [of True]]
    by (auto simp: RangeWithin_inside [OF assms])
qed simp

lemma safe_dynamic_header_loop: "(\<And>v. Q v) \<Longrightarrow> safe (dynamic_header_loop headers found) Q"
  by (induction headers arbitrary: found) auto

section \<open>Disjoint segments\<close>

definition apart :: "u64 \<times> u64 \<Rightarrow> u64 \<times> u64 \<Rightarrow> bool" where
  "apart a b \<longleftrightarrow> snd a \<le> fst b \<or> snd b \<le> fst a"

lemma apart_sym: "apart a b \<longleftrightarrow> apart b a"
  by (auto simp: apart_def)

lemma sorted_wrt_apart_perm:
  "mset xs = mset ys \<Longrightarrow> sorted_wrt apart xs \<Longrightarrow> sorted_wrt apart ys"
proof (induction xs arbitrary: ys)
  case (Cons x xs)
  then have "x \<in> set ys" by (metis list.set_intros(1) set_mset_mset)
  then obtain a b where ys: "ys = a @ x # b" by (auto simp: in_set_conv_decomp)
  then have m: "mset xs = mset (a @ b)" using Cons.prems(1) by simp
  then have w: "sorted_wrt apart (a @ b)" using Cons by simp
  have "set xs = set (a @ b)" using m by (metis set_mset_mset)
  then have "\<forall>y \<in> set (a @ b). apart x y" using Cons.prems(2) by auto
  then show ?case using w ys apart_sym by (auto simp: sorted_wrt_append)
qed simp

lemma ranges_overlap_apart:
  assumes "\<not> ranges_overlap ranges"
  shows "sorted_wrt apart ranges"
proof -
  let ?s = "sort ranges"
  have adjacent: "snd (?s ! (i - 1)) \<le> fst (?s ! i)" if "1 \<le> i" "i < length ?s" for i
    using assms that unfolding ranges_overlap_def Let_def list_ex_iff by (metis atLeastLessThan_iff set_upt not_less)
  have sorted: "fst (?s ! i) \<le> fst (?s ! j)" if "i \<le> j" "j < length ?s" for i j
    using sorted_nth_mono [OF sorted_sort that] by (auto simp: less_eq_prod_def)
  have "apart (?s ! i) (?s ! j)" if "i < j" "j < length ?s" for i j
    using adjacent [of "i + 1"] sorted [of "i + 1" j] that by (auto simp: apart_def)
  then have "sorted_wrt apart ?s" by (simp add: sorted_wrt_iff_nth_less)
  then show ?thesis by (rule sorted_wrt_apart_perm [rotated]) simp
qed

section \<open>The whole parser\<close>

text \<open>What the parser promises of the program headers it returns.\<close>

definition segments_ok :: "file_image \<Rightarrow> elf_metadata \<Rightarrow> bool" where
  "segments_ok img md \<longleftrightarrow>
     (\<forall>h \<in> set (em_program_headers md). ph_type h = kProgramTypeLoad \<longrightarrow>
        unat (ph_file_offset h) + unat (ph_file_size h) \<le> length img \<and> ph_file_size h \<le> ph_memory_size h \<and>
        unat (ph_virtual_address h) + unat (ph_memory_size h) < 18446744073709551616) \<and>
     sorted_wrt apart (load_ranges (em_program_headers md))"

lemma segments_okI:
  assumes "\<forall>h \<in> set headers. header_checked h" "\<forall>h \<in> set headers. load_inside img h" "\<not> ranges_overlap (load_ranges headers)"
    "em_program_headers md = headers"
  shows "segments_ok img md"
  using assms ranges_overlap_apart [OF assms(3)]
  by (auto simp: segments_ok_def header_checked_def load_inside_def inside_image_def)

lemma headers_checked_resolved:
  assumes "length hs = length headers" "\<forall>i < length headers. same_but_offset (headers ! i) (hs ! i) \<and> load_inside img (hs ! i)"
    "\<forall>h \<in> set headers. header_checked h"
  shows "\<forall>h \<in> set hs. header_checked h" "\<forall>h \<in> set hs. load_inside img h"
proof -
  have "header_checked (hs ! i)" if "i < length hs" for i
  proof -
    have "same_but_offset (headers ! i) (hs ! i)" "header_checked (headers ! i)" using assms that by auto
    then show ?thesis using same_but_offset_fields [of "headers ! i" "hs ! i"] by (simp add: header_checked_def)
  qed
  then show "\<forall>h \<in> set hs. header_checked h" by (auto simp: in_set_conv_nth)
  show "\<forall>h \<in> set hs. load_inside img h" using assms(1,2) by (auto simp: in_set_conv_nth)
qed

lemma safe_header_table:
  assumes "addressable img" "inside_image img off (n * 56)"
  shows "safe (obind (program_header_loop img off [0..<n] []) (\<lambda>headers0. resolve_headers_loop img layout [0..<length headers0] headers0))
    (\<lambda>hs. (\<forall>h \<in> set hs. header_checked h) \<and> (\<forall>h \<in> set hs. load_inside img h))"
  unfolding safe_obind
proof (rule safe_mono [OF safe_program_header_loop [OF assms(1)]])
  show "\<forall>i \<in> set [0..<n]. inside_image img (off + of_nat i * 56) 56" using record_offset [OF assms] by auto
  fix headers :: "elf_program_header list"
  assume checked: "\<forall>h \<in> set headers. header_checked h"
  show "safe (resolve_headers_loop img layout [0..<length headers] headers)
      (\<lambda>hs. (\<forall>h \<in> set hs. header_checked h) \<and> (\<forall>h \<in> set hs. load_inside img h))"
  proof (rule safe_mono [OF safe_resolve_headers_loop [OF assms(1)]])
    fix hs
    assume "length hs = length headers \<and> (\<forall>i < length headers. same_but_offset (headers ! i) (hs ! i) \<and>
      (i \<in> set [0..<length headers] \<longrightarrow> load_inside img (hs ! i)) \<and> (i \<notin> set [0..<length headers] \<longrightarrow> hs ! i = headers ! i))"
    then have "length hs = length headers" "\<forall>i < length headers. same_but_offset (headers ! i) (hs ! i) \<and> load_inside img (hs ! i)"
      by simp_all
    from headers_checked_resolved [OF this checked]
    show "(\<forall>h \<in> set hs. header_checked h) \<and> (\<forall>h \<in> set hs. load_inside img h)" by blast
  qed (simp_all add: subset_iff)
qed simp

text \<open>The part of the parser that follows the header table.\<close>

lemma safe_segments:
  assumes "addressable img" "\<forall>h \<in> set headers. header_checked h" "\<forall>h \<in> set headers. load_inside img h"
    "em_program_headers md = headers"
  shows "safe (obind (ensure (\<not> ranges_overlap (load_ranges headers)) kOverlappingLoadSegments) (\<lambda>_.
    obind (dynlib_loop img headers False) (\<lambda>_.
    obind (dynamic_header_loop headers None) (\<lambda>dynamic_header.
    case dynamic_header of None \<Rightarrow> Ok md | Some header \<Rightarrow> ParseDynamicSegment img header md)))) (segments_ok img)"
proof (cases "ranges_overlap (load_ranges headers)")
  case False
  have ok: "segments_ok img md'" if "same_headers md md'" for md'
    using that assms(4) by (intro segments_okI [OF assms(2,3) False]) (simp add: same_headers_def)
  have "safe (case d of None \<Rightarrow> Ok md | Some header \<Rightarrow> ParseDynamicSegment img header md) (segments_ok img)"
    if "\<forall>h \<in> set headers. ph_type h = kProgramTypeSceDynlibData \<longrightarrow> inside_image img (ph_file_offset h) (unat (ph_file_size h))" for d
  proof -
    have "headers_ok img (em_program_headers md)" using that assms(3,4) by (auto simp: headers_ok_def load_inside_def)
    from safe_mono [OF safe_ParseDynamicSegment [OF assms(1) this] ok]
    show ?thesis using ok [OF same_headers_refl] by (cases d) auto
  qed
  then show ?thesis using False
    by (simp add: safe_obind) (rule safe_mono [OF safe_dynlib_loop [OF assms(1)]], rule safe_dynamic_header_loop, blast)
qed (simp add: ensure_def)

lemma AddWithoutOverflow_Some: "AddWithoutOverflow a b = Some c \<Longrightarrow> unat c = unat a + unat b"
  by (auto simp: AddWithoutOverflow_def u64_overflow_test not_le intro!: unat_add_exact split: if_splits)

lemma unat_ucast_u16: "unat (ucast (symbol_count :: u16) :: u64) = unat symbol_count"
  by (simp add: unsigned_ucast_eq take_bit_nat_eq_self_iff)
    (use unsigned_less [of symbol_count, where 'a = nat] in simp)

lemma u16_table_bytes:
  assumes "unat (k :: u64) < 65536"
  shows "unat (ucast (n :: u16) * k) = unat n * unat k"
proof -
  have "unat n \<le> 65536" using unsigned_less [of n, where 'a = nat] by simp
  then have "unat n * unat k \<le> 65536 * 65536" using assms by (intro mult_le_mono) auto
  then show ?thesis by (simp add: unat_word_ariths unat_ucast_u16)
qed

text \<open>One step of a parser: a read inside the image, or a check.\<close>

lemma safe_obind_Read8: "inside_image img off 1 \<Longrightarrow> (\<And>v. safe (f v) Q) \<Longrightarrow> safe (obind (Read8 img off) f) Q"
  by (simp add: safe_Read8)

lemma safe_obind_Read16:
  "addressable img \<Longrightarrow> inside_image img off 2 \<Longrightarrow> (\<And>v. safe (f v) Q) \<Longrightarrow> safe (obind (Read16 img off) f) Q"
  by (simp add: safe_Read16)

lemma safe_obind_Read32:
  "addressable img \<Longrightarrow> inside_image img off 4 \<Longrightarrow> (\<And>v. safe (f v) Q) \<Longrightarrow> safe (obind (Read32 img off) f) Q"
  by (simp add: safe_Read32)

lemma safe_obind_Read64:
  "addressable img \<Longrightarrow> inside_image img off 8 \<Longrightarrow> (\<And>v. safe (f v) Q) \<Longrightarrow> safe (obind (Read64 img off) f) Q"
  by (simp add: safe_Read64)

lemma safe_obind_ensure: "(c \<Longrightarrow> safe (f ()) Q) \<Longrightarrow> safe (obind (ensure c e) f) Q"
  by simp

lemma safe_case_option:
  "safe x Q \<Longrightarrow> (\<And>v. opt = Some v \<Longrightarrow> safe (f v) Q) \<Longrightarrow> safe (case opt of None \<Rightarrow> x | Some v \<Rightarrow> f v) Q"
  by (cases opt) auto

lemma safe_Fail: "safe (Fail e) Q"
  by simp

lemmas safe_steps = safe_obind_Read8 safe_obind_Read16 safe_obind_Read32 safe_obind_Read64 safe_obind_ensure
  safe_case_option safe_Fail

lemma safe_ParseElf64WithLayout:
  assumes "addressable img"
  shows "safe (ParseElf64WithLayout img layout) (segments_ok img)"
proof (cases "inside_image img (el_elf_offset layout) 64")
  case True
  let ?b = "el_elf_offset layout"
  note field = inside_sub [OF assms True]
  have reads: "inside_image img ?b 1" "inside_image img (?b + 1) 1" "inside_image img (?b + 2) 1" "inside_image img (?b + 3) 1"
    "inside_image img (?b + 4) 1" "inside_image img (?b + 5) 1" "inside_image img (?b + 6) 1" "inside_image img (?b + 7) 1"
    "inside_image img (?b + 8) 1" "inside_image img (?b + 16) 2" "inside_image img (?b + 18) 2" "inside_image img (?b + 20) 4"
    "inside_image img (?b + 24) 8" "inside_image img (?b + 32) 8" "inside_image img (?b + 52) 2" "inside_image img (?b + 54) 2"
    "inside_image img (?b + 56) 2"
    using field [of 0 1] field [of 1 1] field [of 2 1] field [of 3 1] field [of 4 1] field [of 5 1] field [of 6 1] field [of 7 1]
      field [of 8 1] field [of 16 2] field [of 18 2] field [of 20 4] field [of 24 8] field [of 32 8] field [of 52 2]
      field [of 54 2] field [of 56 2] by simp_all
  have table: "safe (obind (program_header_loop img off [0..<unat (n :: u16)] []) (\<lambda>headers0.
      obind (resolve_headers_loop img layout [0..<length headers0] headers0) f)) (segments_ok img)"
    if r: "RangeWithin (image_size img) off (ucast n * ucast s)" and s: "s = kProgramHeaderSize"
      and f: "\<And>hs. \<forall>h \<in> set hs. header_checked h \<Longrightarrow> \<forall>h \<in> set hs. load_inside img h \<Longrightarrow> safe (f hs) (segments_ok img)"
    for off n s f
  proof -
    have "inside_image img off (unat n * 56)" using r s u16_table_bytes [of 56 n] by (simp add: RangeWithin_inside [OF assms])
    from safe_header_table [OF assms this, of layout]
    show ?thesis unfolding safe_obind by (auto elim!: safe_mono intro: f)
  qed
  have "RangeWithin (image_size img) ?b kElfHeaderSize" using True by (simp add: RangeWithin_inside [OF assms])
  then show ?thesis unfolding ParseElf64WithLayout_def Let_def
    by (simp only: not_True_eq_False if_False)
      (intro safe_steps reads assms table safe_segments; simp)
qed (simp add: ParseElf64WithLayout_def RangeWithin_inside [OF assms])

lemma image_size_less:
  assumes "addressable img" "k < 18446744073709551616"
  shows "(image_size img :: u64) < of_nat k \<longleftrightarrow> length img < k"
  using assms by (simp add: addressable_def word_less_nat_alt unat_of_nat)

lemma safe_IsSelfMagic:
  assumes "addressable img"
  shows "safe (IsSelfMagic img) (\<lambda>magic. magic \<longrightarrow> 4 \<le> length img)"
  unfolding IsSelfMagic_def
  by (cases "length img < 4") (auto intro!: safe_Read8 simp: inside_image_def)

lemma safe_HasKnownSelfLayout:
  assumes "addressable img" "32 \<le> length img" "\<And>v. Q v"
  shows "safe (HasKnownSelfLayout img) Q"
  unfolding HasKnownSelfLayout_def safe_obind
  by (rule safe_mono [OF safe_IsSelfMagic [OF assms(1)]]) (use assms(2,3) in \<open>auto intro!: safe_Read8 simp: inside_image_def\<close>)

lemma safe_self_segment_loop:
  assumes "addressable img" "\<forall>i \<in> set indices. inside_image img (32 + of_nat i * 32) 32"
  shows "safe (self_segment_loop img indices) (\<lambda>_. True)"
  using assms(2)
proof (induction indices)
  case (Cons i indices)
  let ?o = "32 + of_nat i * 32 :: u64"
  have base: "inside_image img ?o 32" using Cons.prems by simp
  have "inside_image img ?o 8" "inside_image img (?o + 8) 8" "inside_image img (?o + 16) 8" "inside_image img (?o + 24) 8"
    using inside_less [OF base, of 8] inside_sub [OF assms(1) base, of 8 8] inside_sub [OF assms(1) base, of 16 8]
      inside_sub [OF assms(1) base, of 24 8] by simp_all
  then show ?case using Cons unfolding self_segment_loop.simps Let_def
    by (intro safe_steps assms(1)) auto
qed simp

lemma safe_ParseExecutableLayout:
  assumes "addressable img"
  shows "safe (ParseExecutableLayout img) (\<lambda>_. True)"
proof -
  have segments: "safe (obind (self_segment_loop img [0..<unat (n :: u16)]) (\<lambda>segments. Ok (f segments))) (\<lambda>_. True)"
    if "AddWithoutOverflow 32 (ucast n * 32) = Some off" "RangeWithin (image_size img) off 64" for n off and f :: "self_segment list \<Rightarrow> executable_layout"
  proof -
    have "unat off = 32 + unat n * 32" using AddWithoutOverflow_Some [OF that(1)] u16_table_bytes [of 32 n] by simp
    then have "inside_image img 32 (unat n * 32)" using that(2) by (simp add: RangeWithin_inside [OF assms] inside_image_def)
    from record_offset [OF assms this]
    show ?thesis unfolding safe_obind by (intro safe_mono [OF safe_self_segment_loop [OF assms]]) auto
  qed
  have fields: "inside_image img 16 8" "inside_image img 24 2" if "\<not> image_size img < (32 :: u64)"
    using that image_size_less [OF assms, of 32] by (simp_all add: inside_image_def)
  show ?thesis unfolding ParseExecutableLayout_def safe_obind [of "IsSelfMagic img"]
  proof (rule safe_mono [OF safe_IsSelfMagic [OF assms]])
    fix magic
    show "safe (if \<not> magic then Ok default_layout
       else if image_size img < kSelfHeaderSize then Fail kSelfHeaderOutOfRange
       else obind (HasKnownSelfLayout img) (\<lambda>known.
         if \<not> known then Fail kUnsupportedSelfHeader
         else obind (Read64 img 16) (\<lambda>self_file_size. obind (Read16 img 24) (\<lambda>segment_count.
           let segment_table_size = ucast segment_count * kSelfSegmentSize in
           case AddWithoutOverflow kSelfHeaderSize segment_table_size of
             None \<Rightarrow> Fail kSelfEmbeddedElfOutOfRange
           | Some elf_offset \<Rightarrow>
               if \<not> RangeWithin (image_size img) elf_offset kElfHeaderSize then Fail kSelfEmbeddedElfOutOfRange
               else obind (self_segment_loop img [0..<unat segment_count]) (\<lambda>segments.
                 Ok \<lparr>el_container = kSelf, el_elf_offset = elf_offset, el_self_file_size = self_file_size,
                     el_self_segments = segments\<rparr>))))) (\<lambda>_. True)"
      unfolding Let_def safe_if
      by (intro conjI impI safe_steps safe_Fail)
        (use segments in \<open>auto simp del: safe_obind simp: safe_obind [of "HasKnownSelfLayout img"]
            image_size_less [OF assms, of 32, simplified]
            intro!: safe_HasKnownSelfLayout [OF assms] safe_steps fields assms\<close>)
  qed
qed

lemma safe_ParseExecutable64: "addressable img \<Longrightarrow> safe (ParseExecutable64 img) (segments_ok img)"
  unfolding ParseExecutable64_def safe_obind
  by (rule safe_mono [OF safe_ParseExecutableLayout]) (assumption, rule safe_ParseElf64WithLayout)

section \<open>Memory safety\<close>

text \<open>
  C35: the executable parser is memory safe on every input: for any bytes of an image that fits the
  address space it returns an error or a result and never reads outside the image; and when it
  returns a result, every loadable segment has its file range inside the image, no more bytes in the
  file than in memory, an address range that does not wrap around, and the non-empty address ranges
  of the loadable segments are pairwise disjoint.
\<close>

theorem parser_is_memory_safe:
  assumes "addressable img"
  shows "case ParseExecutable64 img of Fault \<Rightarrow> False | Fail e \<Rightarrow> True | Ok md \<Rightarrow> segments_ok img md"
  using safe_ParseExecutable64 [OF assms] by (auto simp: safe_iff split: outcome.split)

text \<open>An image of an ELF header and two loadable segments.\<close>

definition sample_load :: "u8 \<Rightarrow> u8 list" where
  "sample_load low =
     [1, 0, 0, 0, 5, 0, 0, 0] @ replicate 8 0 @ [low, 16, 0, 0, 0, 0, 0, 0] @ replicate 8 0 @
     [16, 0, 0, 0, 0, 0, 0, 0] @ [32, 0, 0, 0, 0, 0, 0, 0] @ [1, 0, 0, 0, 0, 0, 0, 0]"

definition sample_image :: file_image where
  "sample_image =
     [0x7F, 0x45, 0x4C, 0x46, 2, 1, 1, 0, 0, 0, 0, 0, 0, 0, 0, 0] @
     [3, 0, 62, 0, 1, 0, 0, 0] @ replicate 8 0 @ [64, 0, 0, 0, 0, 0, 0, 0] @ replicate 12 0 @
     [64, 0, 56, 0, 2, 0, 0, 0, 0, 0, 0, 0] @ sample_load 0 @ sample_load 32"

lemma sample_image_parses:
  "case ParseExecutable64 sample_image of Ok md \<Rightarrow> length (load_ranges (em_program_headers md)) = 2 | _ \<Rightarrow> False"
  by code_simp

theorem parser_is_memory_safe_witness:
  "\<exists>md. ParseExecutable64 sample_image = Ok md \<and> length (load_ranges (em_program_headers md)) = 2 \<and>
     segments_ok sample_image md"
proof -
  have "addressable sample_image" by (simp add: addressable_def sample_image_def sample_load_def)
  from parser_is_memory_safe [OF this] sample_image_parses show ?thesis by (auto split: outcome.splits)
qed

end
