(* ===== verification/Elf_Loader.thy ===== *)
theory Elf_Loader
  imports Elf_Safety Guest_Initialize
begin

text \<open>
  Loading a parsed executable into guest memory (\<open>loader/elf.cpp\<close>, \<open>LoadParsedElf64\<close>): the loadable
  segments are planned, the page ranges they share are merged into mappings, the mappings are made and
  the contents stored; a failure undoes the mappings. The fault and the answers of the host for the k-th
  memory operation are \<open>fault k\<close> and \<open>host k\<close>. The value \<open>None\<close> is an access outside the image or
  an operation that does not end; that it never happens is proved.
\<close>

section \<open>Definitions\<close>

definition ProtectionFromFlags :: "u32 \<Rightarrow> u8" where
  "ProtectionFromFlags flags =
     (if flags AND 4 \<noteq> 0 then kRead else kNone) OR (if flags AND 2 \<noteq> 0 then kWrite else kNone) OR
     (if flags AND 1 \<noteq> 0 then kExecute else kNone)"

definition HasProtection :: "u8 \<Rightarrow> u8 \<Rightarrow> bool" where
  "HasProtection v flag \<longleftrightarrow> v AND flag \<noteq> 0"

record planned_load_range =
  pl_header_index :: nat
  pl_address :: u64
  pl_mapping_address :: u64
  pl_mapping_size :: u64
  pl_protection :: u8

record planned_mapping_range =
  pm_address :: u64
  pm_size :: u64
  pm_protection :: u8

record elf_load_result =
  ld_error :: elf_error
  ld_metadata :: elf_metadata
  ld_loaded_segment_count :: u64
  ld_loaded_file_bytes :: u64
  ld_zero_filled_bytes :: u64

definition default_metadata :: elf_metadata where
  "default_metadata = \<lparr>em_container = kElf, em_elf_file_offset = 0, em_self_segment_count = 0, em_os_abi = 0,
     em_abi_version = 0, em_type = 0, em_machine = 0, em_version = 0, em_entry_point = 0, em_program_headers = [],
     em_dynamic_entries = [], em_dynamic_info = default_dynamic_info\<rparr>"

record load_plan =
  lp_ranges :: "planned_load_range list"
  lp_boundaries :: "u64 list"
  lp_file_bytes :: u64
  lp_zero_bytes :: u64
  lp_count :: u64

definition plan_segment ::
  "guest_memory \<Rightarrow> u64 \<Rightarrow> nat \<Rightarrow> elf_program_header \<Rightarrow> load_plan \<Rightarrow> elf_error \<times> load_plan" where
  "plan_segment gm load_bias header_index header plan =
     (let granularity = gm_mapping_granularity gm in
      if ph_type header \<noteq> kProgramTypeLoad \<or> ph_memory_size header = 0 then (kNoError, plan)
      else if ph_virtual_address header > u64_max - load_bias then (kSegmentAddressRangeOverflow, plan)
      else
        let load_address = load_bias + ph_virtual_address header in
        if ph_memory_size header > u64_max - load_address then (kSegmentAddressRangeOverflow, plan)
        else
          let load_end = load_address + ph_memory_size header;
              mapping_address = (load_address AND NOT (granularity - 1))
          in if load_end > u64_max - (granularity - 1) then (kSegmentAddressRangeOverflow, plan)
             else
               let mapping_end = ((load_end + granularity - 1) AND NOT (granularity - 1));
                   mapping_size = mapping_end - mapping_address
               in if \<not> Contains mapping_address mapping_size gm then (kGuestRangeOutOfRange, plan)
                  else
                    let plan1 = plan\<lparr>lp_ranges := lp_ranges plan @
                            [\<lparr>pl_header_index = header_index, pl_address = load_address,
                              pl_mapping_address = mapping_address, pl_mapping_size = mapping_size,
                              pl_protection = ProtectionFromFlags (ph_flags header)\<rparr>],
                          lp_boundaries := lp_boundaries plan @ [mapping_address, mapping_end]\<rparr>;
                        zero_size = ph_memory_size header - ph_file_size header
                    in if lp_file_bytes plan1 > u64_max - ph_file_size header \<or> lp_zero_bytes plan1 > u64_max - zero_size
                       then (kLoadSizeOverflow, plan1)
                       else (kNoError, plan1\<lparr>lp_file_bytes := lp_file_bytes plan1 + ph_file_size header,
                              lp_zero_bytes := lp_zero_bytes plan1 + zero_size, lp_count := lp_count plan1 + 1\<rparr>))"

fun plan_segments ::
  "guest_memory \<Rightarrow> u64 \<Rightarrow> nat \<Rightarrow> elf_program_header list \<Rightarrow> load_plan \<Rightarrow> elf_error \<times> load_plan" where
  "plan_segments gm load_bias header_index [] plan = (kNoError, plan)"
| "plan_segments gm load_bias header_index (header # headers) plan =
     (case plan_segment gm load_bias header_index header plan of
        (e, plan') \<Rightarrow> if e \<noteq> kNoError then (e, plan') else plan_segments gm load_bias (Suc header_index) headers plan')"

text \<open>The ranges whose mapping contains a piece between two neighbouring boundaries.\<close>

definition covering :: "planned_load_range list \<Rightarrow> u64 \<Rightarrow> u64 \<Rightarrow> planned_load_range list" where
  "covering ranges address end_address =
     filter (\<lambda>r. \<not> (pl_mapping_address r > address \<or> pl_mapping_address r + pl_mapping_size r < end_address)) ranges"

definition piece_protection :: "planned_load_range list \<Rightarrow> u64 \<Rightarrow> u64 \<Rightarrow> u8" where
  "piece_protection ranges address end_address =
     fold (\<lambda>r protection. protection OR pl_protection r) (covering ranges address end_address) kNone"

definition declared_write_execute :: "planned_load_range list \<Rightarrow> u64 \<Rightarrow> u64 \<Rightarrow> bool" where
  "declared_write_execute ranges address end_address =
     list_ex (\<lambda>r. HasProtection (pl_protection r) kWrite \<and> HasProtection (pl_protection r) kExecute)
       (covering ranges address end_address)"

definition add_mapping :: "u64 \<Rightarrow> u64 \<Rightarrow> u8 \<Rightarrow> planned_mapping_range list \<Rightarrow> planned_mapping_range list" where
  "add_mapping address len protection mappings =
     (if mappings \<noteq> [] \<and> pm_address (last mappings) + pm_size (last mappings) = address \<and>
         pm_protection (last mappings) = protection
      then butlast mappings @ [(last mappings)\<lparr>pm_size := pm_size (last mappings) + len\<rparr>]
      else mappings @ [\<lparr>pm_address = address, pm_size = len, pm_protection = protection\<rparr>])"

fun plan_mappings ::
  "guest_memory \<Rightarrow> planned_load_range list \<Rightarrow> u64 list \<Rightarrow> planned_mapping_range list \<Rightarrow> planned_mapping_range list option" where
  "plan_mappings gm ranges (address # end_address # rest) mappings =
     (if covering ranges address end_address = [] then plan_mappings gm ranges (end_address # rest) mappings
      else
        let protection = piece_protection ranges address end_address in
        if HasProtection protection kWrite \<and> HasProtection protection kExecute \<and>
           \<not> declared_write_execute ranges address end_address
        then None
        else if \<not> CanMap address (end_address - address) gm then None
        else plan_mappings gm ranges (end_address # rest) (add_mapping address (end_address - address) protection mappings))"
| "plan_mappings gm ranges boundaries mappings = Some mappings"

fun unmap_all :: "(nat \<Rightarrow> nat \<Rightarrow> bool) \<Rightarrow> nat \<Rightarrow> planned_mapping_range list \<Rightarrow> guest_memory \<Rightarrow> guest_memory" where
  "unmap_all host op [] gm = gm"
| "unmap_all host op (m # ms) gm = unmap_all host (Suc op) ms (snd (Unmap (host op) (pm_address m) (pm_size m) gm))"

text \<open>\<open>mapped\<close> are the mappings made so far, the last one first.\<close>

fun map_all ::
  "(nat \<Rightarrow> nat \<Rightarrow> bool) \<Rightarrow> nat \<Rightarrow> planned_mapping_range list \<Rightarrow> planned_mapping_range list \<Rightarrow> guest_memory \<Rightarrow>
   bool \<times> nat \<times> guest_memory" where
  "map_all host op mapped [] gm = (True, op, gm)"
| "map_all host op mapped (m # ms) gm =
     (case Map (host op) (pm_address m) (pm_size m) (pm_protection m) gm of
        (True, gm') \<Rightarrow> map_all host (Suc op) (m # mapped) ms gm'
      | (False, gm') \<Rightarrow> (False, Suc op, unmap_all host (Suc op) mapped gm'))"

definition initialize_segment ::
  "(nat \<Rightarrow> bool) \<Rightarrow> (nat \<Rightarrow> nat \<Rightarrow> bool) \<Rightarrow> nat \<Rightarrow> file_image \<Rightarrow> elf_program_header \<Rightarrow> u64 \<Rightarrow> guest_memory \<Rightarrow>
   (bool \<times> guest_memory) option" where
  "initialize_segment fault host op img header address gm =
     (case (if ph_file_size header \<noteq> 0
            then case subspan img (ph_file_offset header) (ph_file_size header) of
                Ok file_data \<Rightarrow> Initialize (fault op) (host op) address file_data gm
              | _ \<Rightarrow> None
            else Some (True, gm)) of
        None \<Rightarrow> None
      | Some (ok, gm1) \<Rightarrow>
          let zero_size = ph_memory_size header - ph_file_size header in
          if ok \<and> zero_size \<noteq> 0
          then InitializeFill (fault (Suc op)) (host (Suc op)) (address + ph_file_size header) zero_size 0 gm1
          else Some (ok, gm1))"

fun initialize_all ::
  "(nat \<Rightarrow> bool) \<Rightarrow> (nat \<Rightarrow> nat \<Rightarrow> bool) \<Rightarrow> nat \<Rightarrow> file_image \<Rightarrow> elf_program_header list \<Rightarrow> planned_mapping_range list \<Rightarrow>
   planned_load_range list \<Rightarrow> guest_memory \<Rightarrow> (bool \<times> guest_memory) option" where
  "initialize_all fault host op img headers mappings [] gm = Some (True, gm)"
| "initialize_all fault host op img headers mappings (r # ranges) gm =
     (case initialize_segment fault host op img (headers ! pl_header_index r) (pl_address r) gm of
        None \<Rightarrow> None
      | Some (False, gm') \<Rightarrow> Some (False, unmap_all host (op + 2) (rev mappings) gm')
      | Some (True, gm') \<Rightarrow> initialize_all fault host (op + 2) img headers mappings ranges gm')"

definition load_result :: "elf_error \<Rightarrow> elf_metadata \<Rightarrow> load_plan \<Rightarrow> elf_load_result" where
  "load_result e metadata plan =
     \<lparr>ld_error = e, ld_metadata = metadata, ld_loaded_segment_count = lp_count plan,
      ld_loaded_file_bytes = lp_file_bytes plan, ld_zero_filled_bytes = lp_zero_bytes plan\<rparr>"

definition new_load_plan :: load_plan where
  "new_load_plan = \<lparr>lp_ranges = [], lp_boundaries = [], lp_file_bytes = 0, lp_zero_bytes = 0, lp_count = 0\<rparr>"

definition LoadSegments ::
  "(nat \<Rightarrow> bool) \<Rightarrow> (nat \<Rightarrow> nat \<Rightarrow> bool) \<Rightarrow> file_image \<Rightarrow> elf_metadata \<Rightarrow> u64 \<Rightarrow> guest_memory \<Rightarrow>
   (elf_load_result \<times> guest_memory) option" where
  "LoadSegments fault host img metadata load_bias gm =
     (let granularity = gm_mapping_granularity gm; headers = em_program_headers metadata in
      if granularity = 0 \<or> granularity AND (granularity - 1) \<noteq> 0
      then Some (load_result kGuestMappingConflict metadata new_load_plan, gm)
      else case plan_segments gm load_bias 0 headers new_load_plan of
          (e, plan) \<Rightarrow>
            if e \<noteq> kNoError then Some (load_result e metadata plan, gm)
            else case plan_mappings gm (lp_ranges plan) (remdups_adj (sort (lp_boundaries plan))) [] of
                None \<Rightarrow> Some (load_result kGuestMappingConflict metadata plan, gm)
              | Some mappings \<Rightarrow>
                  (case map_all host 0 [] mappings gm of
                     (False, _, gm1) \<Rightarrow> Some (load_result kGuestMappingConflict metadata plan, gm1)
                   | (True, op, gm1) \<Rightarrow>
                       map_option (\<lambda>(ok, gm2). (load_result (if ok then kNoError else kGuestRangeOutOfRange) metadata plan, gm2))
                         (initialize_all fault host op img headers mappings (lp_ranges plan) gm1)))"

definition LoadParsedElf64 ::
  "(nat \<Rightarrow> bool) \<Rightarrow> (nat \<Rightarrow> nat \<Rightarrow> bool) \<Rightarrow> file_image \<Rightarrow> elf_metadata outcome \<Rightarrow> u64 \<Rightarrow> guest_memory \<Rightarrow>
   (elf_load_result \<times> guest_memory) option" where
  "LoadParsedElf64 fault host img parsed load_bias gm =
     (case parsed of
        Fault \<Rightarrow> None
      | Fail e \<Rightarrow> Some (load_result e default_metadata new_load_plan, gm)
      | Ok metadata \<Rightarrow> LoadSegments fault host img metadata load_bias gm)"

definition LoadElf64 ::
  "(nat \<Rightarrow> bool) \<Rightarrow> (nat \<Rightarrow> nat \<Rightarrow> bool) \<Rightarrow> file_image \<Rightarrow> u64 \<Rightarrow> guest_memory \<Rightarrow> (elf_load_result \<times> guest_memory) option" where
  "LoadElf64 fault host img load_bias gm = LoadParsedElf64 fault host img (ParseElf64 img) load_bias gm"

definition LoadExecutable64 ::
  "(nat \<Rightarrow> bool) \<Rightarrow> (nat \<Rightarrow> nat \<Rightarrow> bool) \<Rightarrow> file_image \<Rightarrow> u64 \<Rightarrow> guest_memory \<Rightarrow> (elf_load_result \<times> guest_memory) option" where
  "LoadExecutable64 fault host img load_bias gm = LoadParsedElf64 fault host img (ParseExecutable64 img) load_bias gm"

section \<open>Existing mappings\<close>

text \<open>
  A later state of the memory that has the addresses mapped in an earlier one with the same protections,
  the same locations and the same bytes. Loading and its undoing keep what was mapped before in this sense.
\<close>

definition keeps :: "guest_memory \<Rightarrow> guest_memory \<Rightarrow> bool" where
  "keeps gm gm' \<longleftrightarrow> gm_ok gm' \<and> place_at gm' = place_at gm \<and> (\<forall>a n. inside a n gm' = inside a n gm) \<and>
     (\<forall>a n. host_length a n gm' = host_length a n gm) \<and>
     (\<forall>x. prot_at gm x \<noteq> None \<longrightarrow> prot_at gm' x = prot_at gm x \<and> byte_at gm' x = byte_at gm x)"

lemma keeps_refl: "gm_ok gm \<Longrightarrow> keeps gm gm"
  by (simp add: keeps_def)

lemma keeps_trans: "keeps gm gm1 \<Longrightarrow> keeps gm1 gm2 \<Longrightarrow> keeps gm gm2"
  by (auto simp: keeps_def)

lemma byte_at_cong:
  assumes "place_at gm' = place_at gm" "gm_heap gm' = gm_heap gm" "\<And>n. inside x n gm' = inside x n gm" "raw_byte gm' x = raw_byte gm x"
  shows "byte_at gm' x = byte_at gm x"
  using assms by (auto simp: byte_at_def loc_def mem_def split: option.splits)

lemma geometry_cong:
  assumes "gm_host_mapped gm' = gm_host_mapped gm" "gm_mapping_granularity gm' = gm_mapping_granularity gm"
    "gm_base_address gm' = gm_base_address gm" "gm_storage_size gm' = gm_storage_size gm"
  shows "host_length a n gm' = host_length a n gm" "inside a n gm' = inside a n gm"
  using assms by (simp_all only: host_length_def inside_def gm_limit_def)

lemma insert_mapping_fields:
  "place_at (insert_mapping a l p g (gm\<lparr>gm_next_mapping_generation := g\<rparr>)) = place_at gm"
  "gm_heap (insert_mapping a l p g (gm\<lparr>gm_next_mapping_generation := g\<rparr>)) = gm_heap gm"
  "inside b n (insert_mapping a l p g (gm\<lparr>gm_next_mapping_generation := g\<rparr>)) = inside b n gm"
  "raw_byte (insert_mapping a l p g (gm\<lparr>gm_next_mapping_generation := g\<rparr>)) = raw_byte gm"
  "host_length b n (insert_mapping a l p g (gm\<lparr>gm_next_mapping_generation := g\<rparr>)) = host_length b n gm"
  by (simp_all add: insert_mapping_def place_at_def inside_def gm_limit_def raw_byte_def OffsetOf_def host_length_def fun_eq_iff)

text \<open>A mapping is made on unmapped addresses only; a failure changes no address.\<close>

lemma Map_keeps:
  assumes ok: "gm_ok gm" and m: "Map host a len p gm = (r, gm')"
  shows "keeps gm gm'"
    "\<not> r \<Longrightarrow> prot_at gm' = prot_at gm"
    "r \<Longrightarrow> \<exists>l. host_length a len gm = Some l \<and> inside a l gm \<and> l \<noteq> 0 \<and> len \<noteq> 0 \<and> unat len \<le> unat l \<and>
       (\<forall>x. in_range a l x \<longrightarrow> prot_at gm x = None) \<and> prot_at gm' = (\<lambda>x. if in_range a l x then Some p else prot_at gm x)"
proof -
  have m': "MapLocked host a len p gm = (r, gm')" using m by (simp add: Map_def)
  show fail: "prot_at gm' = prot_at gm" if "\<not> r" using MapLocked_fails [OF ok] m' that by simp
  show succ: "\<exists>l. host_length a len gm = Some l \<and> inside a l gm \<and> l \<noteq> 0 \<and> len \<noteq> 0 \<and> unat len \<le> unat l \<and>
       (\<forall>x. in_range a l x \<longrightarrow> prot_at gm x = None) \<and> prot_at gm' = (\<lambda>x. if in_range a l x then Some p else prot_at gm x)" if r
  proof -
    have "MapLocked host a len p gm = (True, gm')" using m' that by simp
    from ok this obtain l g where l: "host_length a len gm = Some l" "inside a l gm" "free_range (gm_regions gm) a l" "len \<noteq> 0" "l \<noteq> 0"
      and p: "\<And>x. prot_at gm' x = (if in_range a l x then Some p else prot_at gm x)"
      by (rule MapLocked_succeeds) (rule that)
    have "unat len \<le> unat l" using host_length_props(1) [OF ok l(4,1)] .
    moreover have "\<forall>x. in_range a l x \<longrightarrow> prot_at gm x = None" using l(3) by (simp add: free_range_def prot_at_def)
    ultimately show ?thesis using l p by blast
  qed
  show "keeps gm gm'"
  proof (cases r)
    case True
    with m' have "MapLocked host a len p gm = (True, gm')" by simp
    from ok this obtain l g where "gm_ok gm'" and e: "gm' = insert_mapping a l p g (gm\<lparr>gm_next_mapping_generation := g\<rparr>)"
      by (rule MapLocked_succeeds)
    moreover have "byte_at gm' x = byte_at gm x" for x
      unfolding e by (rule byte_at_cong) (simp_all add: insert_mapping_fields)
    ultimately show ?thesis using succ [OF True] by (auto simp: keeps_def insert_mapping_fields)
  next
    case False
    with m' have f: "MapLocked host a len p gm = (False, gm')" by simp
    have "gm' = gm \<or> gm' = gm\<lparr>gm_mapping_generation_exhausted := True\<rparr> \<or>
        (\<exists>g > gm_next_mapping_generation gm. gm' = gm\<lparr>gm_next_mapping_generation := g\<rparr>)"
      using f by (cases rule: MapLocked_cases [OF ok, of host a len p]) auto
    then have s: "place_at gm' = place_at gm" "gm_heap gm' = gm_heap gm" "inside b n gm' = inside b n gm" "raw_byte gm' = raw_byte gm"
      "host_length b n gm' = host_length b n gm" for b n
      by (auto intro!: geometry_cong(1) simp: inside_def gm_limit_def place_at_def raw_byte_def OffsetOf_def fun_eq_iff)
    have "byte_at gm' x = byte_at gm x" for x by (rule byte_at_cong) (simp_all add: s)
    then show ?thesis using MapLocked_fails(1,2) [OF ok f] s by (simp add: keeps_def)
  qed
qed

lemma Unmap_fields:
  "gm_base_address (snd (Unmap host a len gm)) = gm_base_address gm" "gm_storage_size (snd (Unmap host a len gm)) = gm_storage_size gm"
  "gm_mapping_granularity (snd (Unmap host a len gm)) = gm_mapping_granularity gm"
  "gm_host_mapped (snd (Unmap host a len gm)) = gm_host_mapped gm"
  by (simp_all add: Unmap_def Let_def split: option.split)

lemma Unmap_granted:
  assumes ok: "gm_ok gm" and h: "host_length a len gm = Some l" "len \<noteq> 0" "\<forall>k. host k"
    and i: "inside a l gm" and m: "\<And>x. in_range a l x \<Longrightarrow> prot_at gm x \<noteq> None"
  shows "fst (Unmap host a len gm)"
proof -
  have "l \<noteq> 0" using host_length_props(2) [OF ok h(2,1)] .
  then have "max 1 l = l" by (rule max_1_nonzero)
  then have "IsMappedLocked a l gm" using i m by (simp add: IsMappedLocked_iff [OF ok] prot_at_def)
  then show ?thesis using h by (simp add: Unmap_def Let_def)
qed

lemma unmapped_place: "gm_ok gm \<Longrightarrow> prot_at gm x = None \<Longrightarrow> place_at gm x = None"
  unfolding prot_at_def place_at_def using gm_okD(10) [of gm x] seg_at_None_val_at [of adv_place "gm_shared gm" x] by blast

text \<open>Undoing a mapping of addresses that were unmapped in an earlier state.\<close>

lemma Unmap_undoes:
  assumes k: "keeps gm0 gm" and u: "Unmap host a len gm = (True, gm')" and h: "host_length a len gm = Some l"
    and free: "\<And>x. in_range a l x \<Longrightarrow> prot_at gm0 x = None" and ok0: "gm_ok gm0"
  shows "keeps gm0 gm'" "prot_at gm' x = (if in_range a l x then None else prot_at gm x)"
proof -
  have ok: "gm_ok gm" using k by (simp add: keeps_def)
  from ok u obtain l' where l': "host_length a len gm = Some l'" "gm_ok gm'" "gm_heap gm' = gm_heap gm"
    and p: "\<And>x. prot_at gm' x = (if in_range a l' x then None else prot_at gm x)"
    and q: "\<And>x. place_at gm' x = (if in_range a l' x then None else place_at gm x)"
    and b: "\<And>x. inside x 1 gm \<Longrightarrow> raw_byte gm' x = (if in_range a l' x then 0 else raw_byte gm x)"
    by (rule Unmap_succeeds) (rule that)
  have l: "l' = l" using h l'(1) by simp
  show "prot_at gm' x = (if in_range a l x then None else prot_at gm x)" using p l by simp
  have s: "place_at gm0 x = None" if "in_range a l x" for x by (rule unmapped_place [OF ok0 free [OF that]])
  have place: "place_at gm' = place_at gm"
  proof
    fix x
    have "place_at gm x = place_at gm0 x" using k by (simp add: keeps_def)
    then show "place_at gm' x = place_at gm x" using q [of x] l s [of x] by simp
  qed
  have ins: "inside c n gm' = inside c n gm" for c n
    using Unmap_fields [of host a len gm] u by (intro geometry_cong(2)) simp_all
  have hl: "host_length c n gm' = host_length c n gm" for c n
    using Unmap_fields [of host a len gm] u by (intro geometry_cong(1)) simp_all
  have byte: "byte_at gm' x = byte_at gm x" if "prot_at gm0 x \<noteq> None" for x
  proof -
    have "\<not> in_range a l x" using free [of x] that by auto
    then have "inside x 1 gm \<Longrightarrow> raw_byte gm' x = raw_byte gm x" using b [of x] l by simp
    then have "mem gm' (loc gm x) = mem gm (loc gm x)"
      unfolding mem_def loc_def using ins [of x 1] l'(3) by (simp split: option.split)
    then show ?thesis using place by (simp add: byte_at_def loc_def)
  qed
  have prot: "prot_at gm' x = prot_at gm x" if "prot_at gm0 x \<noteq> None" for x
    using p [of x] l free [of x] that by auto
  show "keeps gm0 gm'" unfolding keeps_def
  proof (intro conjI allI impI)
    show "place_at gm' = place_at gm0" using place k by (simp add: keeps_def)
    show "inside c n gm' = inside c n gm0" for c n using ins k by (simp add: keeps_def)
    show "host_length c n gm' = host_length c n gm0" for c n using hl k by (simp add: keeps_def)
    show "prot_at gm' x = prot_at gm0 x" "byte_at gm' x = byte_at gm0 x" if "prot_at gm0 x \<noteq> None" for x
      using prot [OF that] byte [OF that] k that by (simp_all add: keeps_def)
  qed (rule l'(2))
qed

section \<open>Mapping and undoing\<close>

text \<open>The protections after a stack of mappings, the last one first, each on unmapped addresses.\<close>

fun stacked ::
  "guest_memory \<Rightarrow> planned_mapping_range list \<Rightarrow> (u64 \<Rightarrow> u8 option) \<Rightarrow> bool" where
  "stacked gm [] f \<longleftrightarrow> f = prot_at gm"
| "stacked gm (m # ms) f \<longleftrightarrow>
     (\<exists>g l. stacked gm ms g \<and> host_length (pm_address m) (pm_size m) gm = Some l \<and> inside (pm_address m) l gm \<and>
        pm_size m \<noteq> 0 \<and> unat (pm_size m) \<le> unat l \<and> (\<forall>x. in_range (pm_address m) l x \<longrightarrow> g x = None) \<and>
        f = (\<lambda>x. if in_range (pm_address m) l x then Some (pm_protection m) else g x))"

lemma stacked_old: "stacked gm ms f \<Longrightarrow> prot_at gm x \<noteq> None \<Longrightarrow> f x = prot_at gm x"
proof (induction ms arbitrary: f)
  case (Cons m ms)
  then obtain g l where "stacked gm ms g" "\<forall>x. in_range (pm_address m) l x \<longrightarrow> g x = None"
    "f = (\<lambda>x. if in_range (pm_address m) l x then Some (pm_protection m) else g x)" by auto
  moreover from Cons this(1) have "g x = prot_at gm x" by blast
  ultimately show ?case using Cons.prems(2) by auto
qed simp

lemma stacked_mapped: "stacked gm ms f \<Longrightarrow> m \<in> set ms \<Longrightarrow> in_range (pm_address m) (pm_size m) x \<Longrightarrow> f x = Some (pm_protection m)"
proof (induction ms arbitrary: f)
  case (Cons n ms)
  then obtain g l where g: "stacked gm ms g" "unat (pm_size n) \<le> unat l" "\<forall>x. in_range (pm_address n) l x \<longrightarrow> g x = None"
    "f = (\<lambda>x. if in_range (pm_address n) l x then Some (pm_protection n) else g x)" by auto
  show ?case
  proof (cases "m = n")
    case True
    then show ?thesis using g Cons.prems(3) by (auto simp: in_range_def)
  next
    case False
    then have "g x = Some (pm_protection m)" using Cons g(1) by auto
    then show ?thesis using g(3,4) by auto
  qed
qed simp

lemma stacked_new: "stacked gm ms f \<Longrightarrow> f x = Some p \<Longrightarrow> prot_at gm x = None \<Longrightarrow> \<exists>m \<in> set ms. p = pm_protection m"
  by (induction ms arbitrary: f) (auto split: if_splits, blast)

lemma unmap_all_undoes:
  assumes "gm_ok gm0" "\<forall>k j. host k j" "keeps gm0 gm" "stacked gm0 ms (prot_at gm)"
  shows "keeps gm0 (unmap_all host op ms gm) \<and> prot_at (unmap_all host op ms gm) = prot_at gm0"
  using assms(3,4)
proof (induction ms arbitrary: op gm)
  case (Cons m ms)
  let ?a = "pm_address m"
  obtain g l where g: "stacked gm0 ms g" "host_length ?a (pm_size m) gm0 = Some l" "inside ?a l gm0" "pm_size m \<noteq> 0"
    "\<forall>x. in_range ?a l x \<longrightarrow> g x = None" "prot_at gm = (\<lambda>x. if in_range ?a l x then Some (pm_protection m) else g x)"
    using Cons.prems(2) by auto
  have k: "gm_ok gm" "host_length ?a (pm_size m) gm = Some l" "inside ?a l gm" using Cons.prems(1) g by (auto simp: keeps_def)
  have "fst (Unmap (host op) ?a (pm_size m) gm)" using assms(2) g(6) by (intro Unmap_granted [OF k(1,2) g(4) _ k(3)]) auto
  then obtain gm' where u: "Unmap (host op) ?a (pm_size m) gm = (True, gm')" by (cases "Unmap (host op) ?a (pm_size m) gm") auto
  have free: "prot_at gm0 x = None" if "in_range ?a l x" for x using stacked_old [OF g(1)] g(5) that by (metis option.distinct(1))
  note U = Unmap_undoes [OF Cons.prems(1) u k(2) free assms(1)]
  have "prot_at gm' = g" using U(2) g(5,6) by (auto simp: fun_eq_iff)
  then show ?case using Cons.IH [OF U(1)] g(1) u by simp
qed simp

lemma map_all_spec:
  assumes "gm_ok gm0" "\<forall>k j. host k j" "keeps gm0 gm" "stacked gm0 mapped (prot_at gm)"
    "map_all host op mapped ms gm = (r, op', gm')"
  shows "keeps gm0 gm' \<and> (if r then stacked gm0 (rev ms @ mapped) (prot_at gm') else prot_at gm' = prot_at gm0)"
  using assms(3-5)
proof (induction ms arbitrary: op mapped gm)
  case (Cons m ms)
  let ?a = "pm_address m"
  have ok: "gm_ok gm" and h: "host_length ?a (pm_size m) gm = host_length ?a (pm_size m) gm0"
    and i: "inside ?a l gm = inside ?a l gm0" for l
    using Cons.prems(1) by (simp_all add: keeps_def)
  obtain b gm1 where b: "Map (host op) ?a (pm_size m) (pm_protection m) gm = (b, gm1)" by fastforce
  note M = Map_keeps [OF ok b]
  have k: "keeps gm0 gm1" using keeps_trans [OF Cons.prems(1) M(1)] .
  show ?case
  proof (cases b)
    case True
    then have st: "stacked gm0 (m # mapped) (prot_at gm1)"
      using M(3) [OF True] Cons.prems(2) h i unfolding stacked.simps by (intro exI [of _ "prot_at gm"]) auto
    have "map_all host (Suc op) (m # mapped) ms gm1 = (r, op', gm')" using Cons.prems(3) b True by simp
    from Cons.IH [OF k st this] show ?thesis unfolding rev.simps append_assoc append.simps .
  next
    case False
    then have "stacked gm0 mapped (prot_at gm1)" using M(2) Cons.prems(2) by simp
    from unmap_all_undoes [OF assms(1,2) k this] show ?thesis using Cons.prems(3) b False by auto
  qed
qed simp

section \<open>The planned segments\<close>

definition is_load :: "elf_program_header \<Rightarrow> bool" where
  "is_load h \<longleftrightarrow> ph_type h = kProgramTypeLoad \<and> ph_memory_size h \<noteq> 0"

text \<open>A planned range: the segment at its biased address inside a page range whose ends are boundaries.\<close>

definition range_planned :: "guest_memory \<Rightarrow> u64 \<Rightarrow> elf_program_header list \<Rightarrow> u64 list \<Rightarrow> planned_load_range \<Rightarrow> bool" where
  "range_planned gm bias headers boundaries r \<longleftrightarrow>
     (let h = headers ! pl_header_index r in
      unat (pl_address r) = unat bias + unat (ph_virtual_address h) \<and>
      unat (pl_address r) + unat (ph_memory_size h) < 18446744073709551616 \<and>
      unat (pl_mapping_address r) \<le> unat (pl_address r) \<and>
      unat (pl_address r) + unat (ph_memory_size h) \<le> unat (pl_mapping_address r + pl_mapping_size r) \<and>
      inside (pl_mapping_address r) (pl_mapping_size r) gm \<and>
      pl_protection r = ProtectionFromFlags (ph_flags h) \<and>
      pl_mapping_address r \<in> set boundaries \<and> pl_mapping_address r + pl_mapping_size r \<in> set boundaries)"

lemma range_planned_mono:
  "range_planned gm bias headers bs r \<Longrightarrow> set bs \<subseteq> set bs' \<Longrightarrow> range_planned gm bias headers bs' r"
  by (auto simp: range_planned_def Let_def)

lemma plan_segment_spec:
  assumes g: "is_power_of_two (gm_mapping_granularity gm)" and i: "headers ! i = h"
    and p: "plan_segment gm bias i h plan = (kNoError, plan')"
    and old: "\<forall>r \<in> set (lp_ranges plan). range_planned gm bias headers (lp_boundaries plan) r"
  shows "(\<forall>r \<in> set (lp_ranges plan'). range_planned gm bias headers (lp_boundaries plan') r) \<and>
    map pl_header_index (lp_ranges plan') = map pl_header_index (lp_ranges plan) @ (if is_load h then [i] else [])"
proof (cases "is_load h")
  case False
  then show ?thesis using p old by (auto simp: plan_segment_def is_load_def)
next
  case True
  let ?g = "gm_mapping_granularity gm"
  let ?la = "bias + ph_virtual_address h"
  let ?le = "?la + ph_memory_size h"
  let ?ma = "?la AND NOT (?g - 1)"
  let ?me = "(?le + ?g - 1) AND NOT (?g - 1)"
  let ?r = "\<lparr>pl_header_index = i, pl_address = ?la, pl_mapping_address = ?ma, pl_mapping_size = ?me - ?ma,
    pl_protection = ProtectionFromFlags (ph_flags h)\<rparr>"
  have c: "\<not> ph_virtual_address h > u64_max - bias" "\<not> ph_memory_size h > u64_max - ?la" "\<not> ?le > u64_max - (?g - 1)"
    "Contains ?ma (?me - ?ma) gm"
    and plan': "lp_ranges plan' = lp_ranges plan @ [?r]" "lp_boundaries plan' = lp_boundaries plan @ [?ma, ?me]"
    using p True by (auto simp: plan_segment_def is_load_def Let_def split: if_splits)
  have la: "unat ?la = unat bias + unat (ph_virtual_address h)"
    using c(1) u64_overflow_test [of bias "ph_virtual_address h"] by (intro unat_add_exact) simp
  have le: "unat ?le = unat ?la + unat (ph_memory_size h)"
    using c(2) u64_overflow_test [of ?la "ph_memory_size h"] by (intro unat_add_exact) simp
  obtain k where k: "k < 64" "?g = 2 ^ k" "unat ?g = 2 ^ k" using g by (rule is_power_of_two_cases)
  have ma: "unat ?ma = unat ?la div 2 ^ k * 2 ^ k" using mask_below_power [OF k(2,1), of ?la] k(3) by simp
  have m1: "unat (?g - 1) = 2 ^ k - 1" using k(3) by (subst unat_sub_exact) simp_all
  have "unat (?le + (?g - 1)) = unat ?le + (2 ^ k - 1)"
    using c(3) u64_overflow_test [of "?g - 1" ?le] m1 by (subst unat_add_exact) (simp_all add: add.commute)
  then have me: "unat ?me = (unat ?le + (2 ^ k - 1)) div 2 ^ k * 2 ^ k"
    using mask_below_power [OF k(2,1), of "?le + (?g - 1)"] k(3) by (simp add: add_diff_eq)
  have "unat ?le \<le> unat ?me" unfolding me by (rule nat_round_up(1)) simp
  moreover have "unat ?ma \<le> unat ?la" unfolding ma by simp
  moreover have "unat ?la < 18446744073709551616" "unat ?le < 18446744073709551616" using unat_u64_less by blast+
  ultimately have "range_planned gm bias headers (lp_boundaries plan') ?r"
    using la le c(4) i by (simp add: range_planned_def Contains_iff plan'(2))
  then show ?thesis using old True plan' range_planned_mono [of gm bias headers "lp_boundaries plan" _ "lp_boundaries plan'"]
    by auto
qed

lemma plan_segments_spec:
  assumes g: "is_power_of_two (gm_mapping_granularity gm)"
    and p: "plan_segments gm bias n hs plan = (kNoError, plan')" and n: "n + length hs = length headers" "hs = drop n headers"
    and old: "\<forall>r \<in> set (lp_ranges plan). range_planned gm bias headers (lp_boundaries plan) r"
  shows "(\<forall>r \<in> set (lp_ranges plan'). range_planned gm bias headers (lp_boundaries plan') r) \<and>
    map (\<lambda>r. headers ! pl_header_index r) (lp_ranges plan') =
      map (\<lambda>r. headers ! pl_header_index r) (lp_ranges plan) @ filter is_load hs"
  using p n old
proof (induction hs arbitrary: n plan)
  case (Cons h hs)
  obtain plan1 where s: "plan_segment gm bias n h plan = (kNoError, plan1)" "plan_segments gm bias (Suc n) hs plan1 = (kNoError, plan')"
    using Cons.prems(1) by (auto split: prod.splits if_splits)
  have h: "headers ! n = h" using Cons.prems(2,3) by (metis hd_drop_conv_nth list.sel(1) length_Cons less_add_Suc1 add_Suc_right)
  note P = plan_segment_spec [OF g h s(1) Cons.prems(4)]
  have d: "hs = drop (Suc n) headers" using Cons.prems(3) by (metis drop_Suc tl_drop list.sel(3))
  have "Suc n + length hs = length headers" using Cons.prems(2) by simp
  note IH = Cons.IH [OF s(2) this d conjunct1 [OF P]]
  have "map (\<lambda>r. headers ! pl_header_index r) (lp_ranges plan1) = map (\<lambda>i. headers ! i) (map pl_header_index (lp_ranges plan1))"
    by simp
  also have "\<dots> = map (\<lambda>r. headers ! pl_header_index r) (lp_ranges plan) @ (if is_load h then [h] else [])"
    using P h by simp
  finally show ?case using IH by simp
qed simp

section \<open>The planned mappings\<close>

text \<open>Neighbouring boundaries around an address between two boundaries.\<close>

lemma neighbours:
  fixes bs :: "u64 list"
  assumes "sorted bs" "lo \<in> set bs" "hi \<in> set bs" "lo \<le> x" "x < hi"
  obtains i where "Suc i < length bs" "bs ! i \<le> x" "x < bs ! Suc i" "lo \<le> bs ! i" "bs ! Suc i \<le> hi"
proof -
  define I where "I = {i. i < length bs \<and> bs ! i \<le> x}"
  have fin: "finite I" by (simp add: I_def)
  obtain j where j: "j < length bs" "bs ! j = lo" using assms(2) by (auto simp: in_set_conv_nth)
  obtain k where k: "k < length bs" "bs ! k = hi" using assms(3) by (auto simp: in_set_conv_nth)
  have "j \<in> I" using j assms(4) by (simp add: I_def)
  define i where "i = Max I"
  have i: "i \<in> I" "j \<le> i" using fin \<open>j \<in> I\<close> by (auto simp: i_def intro: Max_in Max_ge)
  have "\<not> k \<le> i" using sorted_nth_mono [OF assms(1), of k i] i(1) k assms(5) by (auto simp: I_def)
  then have s: "Suc i \<le> k" "Suc i < length bs" using k(1) by auto
  have "Suc i \<notin> I" using Max_ge [OF fin, of "Suc i"] by (auto simp: i_def)
  then have "x < bs ! Suc i" using s by (auto simp: I_def)
  moreover have "lo \<le> bs ! i" using sorted_nth_mono [OF assms(1) i(2)] i(1) j by (simp add: I_def)
  moreover have "bs ! Suc i \<le> hi" using sorted_nth_mono [OF assms(1) s(1)] k by simp
  ultimately show thesis using that s(2) i(1) by (simp add: I_def)
qed

text \<open>What the planner promises for two neighbouring boundaries and for the mappings it had.\<close>

definition writes_and_executes :: "u8 \<Rightarrow> bool" where
  "writes_and_executes p \<longleftrightarrow> HasProtection p kWrite \<and> HasProtection p kExecute"

definition mapping_ok :: "planned_load_range list \<Rightarrow> planned_mapping_range \<Rightarrow> bool" where
  "mapping_ok ranges m \<longleftrightarrow> unat (pm_address m) + unat (pm_size m) < 18446744073709551616 \<and>
     (writes_and_executes (pm_protection m) \<longrightarrow> (\<exists>r \<in> set ranges. writes_and_executes (pl_protection r)))"

definition covers :: "planned_mapping_range \<Rightarrow> u64 \<Rightarrow> u64 \<Rightarrow> u8 \<Rightarrow> bool" where
  "covers m a e p \<longleftrightarrow> pm_protection m = p \<and> unat (pm_address m) \<le> unat a \<and> unat e \<le> unat (pm_address m) + unat (pm_size m)"

lemma add_mapping_spec:
  assumes "\<forall>m \<in> set ms. mapping_ok ranges m" "a \<le> e"
    "writes_and_executes p \<longrightarrow> (\<exists>r \<in> set ranges. writes_and_executes (pl_protection r))"
  shows "\<forall>m \<in> set (add_mapping a (e - a) p ms). mapping_ok ranges m"
    "\<exists>m \<in> set (add_mapping a (e - a) p ms). covers m a e p"
    "m0 \<in> set ms \<Longrightarrow> covers m0 b f q \<Longrightarrow> \<exists>m \<in> set (add_mapping a (e - a) p ms). covers m b f q"
proof -
  have d: "unat (e - a) = unat e - unat a" "unat a \<le> unat e" using assms(2) by (simp_all add: unat_sub_exact word_le_nat_alt)
  have e: "unat e < 18446744073709551616" by (rule unat_u64_less)
  have "(\<forall>m \<in> set (add_mapping a (e - a) p ms). mapping_ok ranges m) \<and> (\<exists>m \<in> set (add_mapping a (e - a) p ms). covers m a e p) \<and>
    (\<forall>m0 \<in> set ms. \<forall>b f q. covers m0 b f q \<longrightarrow> (\<exists>m \<in> set (add_mapping a (e - a) p ms). covers m b f q))"
  proof (cases "ms \<noteq> [] \<and> pm_address (last ms) + pm_size (last ms) = a \<and> pm_protection (last ms) = p")
    case True
    let ?l = "last ms" and ?n = "(last ms)\<lparr>pm_size := pm_size (last ms) + (e - a)\<rparr>"
    have l: "mapping_ok ranges ?l" using assms(1) True by simp
    then have s: "unat (pm_address ?l) + unat (pm_size ?l) = unat a"
      using True unat_add_exact [of "pm_address ?l" "pm_size ?l"] by (simp add: mapping_ok_def)
    have z: "unat (pm_size ?l + (e - a)) = unat (pm_size ?l) + (unat e - unat a)"
      using d s e by (subst unat_add_exact) simp_all
    have r: "add_mapping a (e - a) p ms = butlast ms @ [?n]" using True by (simp add: add_mapping_def)
    have split: "set ms = set (butlast ms) \<union> {?l}" using True by (metis append_butlast_last_id set_append list.set(1,2) )
    have "mapping_ok ranges ?n" using l z s d e by (simp add: mapping_ok_def)
    moreover have "covers ?n a e p" using True z s d by (simp add: covers_def)
    moreover have "covers ?n b f q" if "covers ?l b f q" for b f q using that z by (auto simp: covers_def)
    ultimately show ?thesis unfolding r split using assms(1) split by auto
  next
    case False
    let ?n = "\<lparr>pm_address = a, pm_size = e - a, pm_protection = p\<rparr>"
    have r: "add_mapping a (e - a) p ms = ms @ [?n]" using False by (auto simp: add_mapping_def)
    have "mapping_ok ranges ?n" "covers ?n a e p" using assms(3) d e by (simp_all add: mapping_ok_def covers_def)
    then show ?thesis unfolding r using assms(1) by auto
  qed
  then show "\<forall>m \<in> set (add_mapping a (e - a) p ms). mapping_ok ranges m"
    "\<exists>m \<in> set (add_mapping a (e - a) p ms). covers m a e p"
    "m0 \<in> set ms \<Longrightarrow> covers m0 b f q \<Longrightarrow> \<exists>m \<in> set (add_mapping a (e - a) p ms). covers m b f q" by blast+
qed

lemma plan_mappings_spec:
  assumes "plan_mappings gm ranges bs ms = Some ms'" "sorted bs" "\<forall>m \<in> set ms. mapping_ok ranges m"
  shows "(\<forall>m \<in> set ms'. mapping_ok ranges m) \<and>
    (\<forall>m0 \<in> set ms. \<forall>b f q. covers m0 b f q \<longrightarrow> (\<exists>m \<in> set ms'. covers m b f q)) \<and>
    (\<forall>i. Suc i < length bs \<and> covering ranges (bs ! i) (bs ! Suc i) \<noteq> [] \<longrightarrow>
      (\<exists>m \<in> set ms'. covers m (bs ! i) (bs ! Suc i) (piece_protection ranges (bs ! i) (bs ! Suc i))))"
  using assms
proof (induction gm ranges bs ms rule: plan_mappings.induct)
  case (1 gm ranges a e rest ms)
  let ?p = "piece_protection ranges a e"
  have sorted: "sorted (e # rest)" "a \<le> e" using "1.prems"(2) by auto
  show ?case
  proof (cases "covering ranges a e = []")
    case True
    have r: "plan_mappings gm ranges (e # rest) ms = Some ms'" using "1.prems"(1) True by simp
    note IH = "1.IH"(1) [OF True r sorted(1) "1.prems"(3)]
    have "\<exists>m \<in> set ms'. covers m ((a # e # rest) ! i) ((a # e # rest) ! Suc i) (piece_protection ranges ((a # e # rest) ! i) ((a # e # rest) ! Suc i))"
      if "Suc i < length (a # e # rest)" "covering ranges ((a # e # rest) ! i) ((a # e # rest) ! Suc i) \<noteq> []" for i
      using that True IH by (cases i) auto
    then show ?thesis using IH by blast
  next
    case False
    have w: "\<not> (HasProtection ?p kWrite \<and> HasProtection ?p kExecute \<and> \<not> declared_write_execute ranges a e)"
      and c: "CanMap a (e - a) gm"
      and r: "plan_mappings gm ranges (e # rest) (add_mapping a (e - a) ?p ms) = Some ms'"
      using "1.prems"(1) False by (auto simp: Let_def split: if_splits)
    have "writes_and_executes ?p \<longrightarrow> (\<exists>r \<in> set ranges. writes_and_executes (pl_protection r))"
      using w by (auto simp: writes_and_executes_def declared_write_execute_def covering_def list_ex_iff)
    note A = add_mapping_spec [OF "1.prems"(3) sorted(2) this]
    note IH = "1.IH"(2) [OF False refl w _ r sorted(1) A(1)]
    have IH: "(\<forall>m \<in> set ms'. mapping_ok ranges m) \<and>
      (\<forall>m0 \<in> set (add_mapping a (e - a) ?p ms). \<forall>b f q. covers m0 b f q \<longrightarrow> (\<exists>m \<in> set ms'. covers m b f q)) \<and>
      (\<forall>i. Suc i < length (e # rest) \<and> covering ranges ((e # rest) ! i) ((e # rest) ! Suc i) \<noteq> [] \<longrightarrow>
        (\<exists>m \<in> set ms'. covers m ((e # rest) ! i) ((e # rest) ! Suc i) (piece_protection ranges ((e # rest) ! i) ((e # rest) ! Suc i))))"
      using IH c by blast
    have "\<exists>m \<in> set ms'. covers m a e ?p" using A(2) IH by blast
    then have "\<exists>m \<in> set ms'. covers m ((a # e # rest) ! i) ((a # e # rest) ! Suc i) (piece_protection ranges ((a # e # rest) ! i) ((a # e # rest) ! Suc i))"
      if "Suc i < length (a # e # rest)" "covering ranges ((a # e # rest) ! i) ((a # e # rest) ! Suc i) \<noteq> []" for i
      using that IH by (cases i) auto
    moreover have "\<exists>m \<in> set ms'. covers m b f q" if "m0 \<in> set ms" "covers m0 b f q" for m0 b f q
      using A(3) [OF that] IH by blast
    ultimately show ?thesis using IH by blast
  qed
qed auto

lemma fold_or_keeps: "fold (\<lambda>r v. v OR f r) ps (v :: u8) AND v = v"
proof (induction ps arbitrary: v)
  case (Cons q ps)
  have "fold (\<lambda>r v. v OR f r) ps (v OR f q) AND (v OR f q) = v OR f q" by (rule Cons.IH)
  then show ?case by (auto simp: bit_eq_iff bit_simps)
qed simp

lemma fold_or_includes: "p \<in> set ps \<Longrightarrow> fold (\<lambda>r v. v OR f r) ps (v :: u8) AND f p = f p"
proof (induction ps arbitrary: v)
  case (Cons q ps)
  show ?case
  proof (cases "p = q")
    case True
    have "fold (\<lambda>r v. v OR f r) ps (v OR f q) AND (v OR f q) = v OR f q" by (rule fold_or_keeps)
    then show ?thesis unfolding True by (auto simp: bit_eq_iff bit_simps)
  next
    case False
    then show ?thesis using Cons by simp
  qed
qed simp

text \<open>Every address of a planned segment lies in a planned mapping that grants the segment's protection.\<close>

lemma segment_covered:
  assumes "\<forall>r \<in> set (lp_ranges plan). range_planned gm bias headers (lp_boundaries plan) r"
    "plan_mappings gm (lp_ranges plan) (remdups_adj (sort (lp_boundaries plan))) [] = Some ms"
    "r \<in> set (lp_ranges plan)" "in_range (pl_address r) (ph_memory_size (headers ! pl_header_index r)) x"
  shows "\<exists>m \<in> set ms. in_range (pm_address m) (pm_size m) x \<and> pm_protection m AND pl_protection r = pl_protection r"
proof -
  let ?bs = "remdups_adj (sort (lp_boundaries plan))"
  let ?lo = "pl_mapping_address r" and ?hi = "pl_mapping_address r + pl_mapping_size r"
  have r: "range_planned gm bias headers (lp_boundaries plan) r" using assms(1,3) by blast
  have s: "sorted ?bs" by (simp add: sorted_remdups_adj)
  have b: "?lo \<in> set ?bs" "?hi \<in> set ?bs" using r by (simp_all add: range_planned_def Let_def)
  have x: "?lo \<le> x" "x < ?hi" using r assms(4) unfolding word_le_nat_alt word_less_nat_alt
    by (simp_all add: range_planned_def Let_def in_range_def)
  obtain i where i: "Suc i < length ?bs" "?bs ! i \<le> x" "x < ?bs ! Suc i" "?lo \<le> ?bs ! i" "?bs ! Suc i \<le> ?hi"
    using neighbours [OF s b x] .
  have c: "r \<in> set (covering (lp_ranges plan) (?bs ! i) (?bs ! Suc i))" using assms(3) i(4,5) by (simp add: covering_def not_less)
  then obtain m where m: "m \<in> set ms" "covers m (?bs ! i) (?bs ! Suc i) (piece_protection (lp_ranges plan) (?bs ! i) (?bs ! Suc i))"
    using plan_mappings_spec [OF assms(2) s] i(1) by fastforce
  have "piece_protection (lp_ranges plan) (?bs ! i) (?bs ! Suc i) AND pl_protection r = pl_protection r"
    unfolding piece_protection_def by (rule fold_or_includes [OF c])
  then show ?thesis using m i(2,3) by (intro bexI [of _ m]) (simp_all add: covers_def in_range_def word_le_nat_alt word_less_nat_alt)
qed

section \<open>The contents\<close>

lemma stored_own:
  assumes s: "stored val a fin gm gm'" and own: "\<And>x. in_range a fin x \<Longrightarrow> loc gm x = Inl x"
    and room: "unat a + unat fin < 18446744073709551616"
  shows "byte_at gm' x = (if in_range a fin x then val (unat x - unat a) else byte_at gm x)"
proof -
  have idx: "unat (a + of_nat k) = unat a + k" "in_range a fin (a + of_nat k)" if "k < unat fin" for k
  proof -
    have "unat (of_nat k :: u64) = k" using that room by (simp add: unat_of_nat)
    then show "unat (a + of_nat k) = unat a + k" using that room by (subst unat_add_exact) simp_all
    then show "in_range a fin (a + of_nat k)" using that by (simp add: in_range_def)
  qed
  have l: "loc gm (a + of_nat k) = Inl (a + of_nat k)" if "k < unat fin" for k using own idx that by blast
  have inj: "inj_on (\<lambda>k. loc gm (a + of_nat k)) {0..<unat fin}"
  proof (rule inj_onI)
    fix i j assume ij: "i \<in> {0..<unat fin}" "j \<in> {0..<unat fin}" "loc gm (a + of_nat i) = loc gm (a + of_nat j)"
    then have "a + of_nat i = a + (of_nat j :: u64)" using l [of i] l [of j] by simp
    then have "unat (a + of_nat i) = unat (a + (of_nat j :: u64))" by simp
    then show "i = j" using idx(1) [of i] idx(1) [of j] ij(1,2) by simp
  qed
  have b: "byte_at gm' x = stores gm a val 0 (unat fin) (mem gm) (loc gm x)" using s by (simp add: stored_def byte_at_def)
  show ?thesis
  proof (cases "in_range a fin x")
    case True
    let ?k = "unat x - unat a"
    have k: "?k < unat fin" using True unfolding in_range_def by linarith
    have "unat (a + of_nat ?k) = unat x" using idx(1) [OF k] True by (simp add: in_range_def)
    then have "a + of_nat ?k = x" by (simp add: unat_eq_iff)
    then show ?thesis using stores_at [OF _ k inj, of val "mem gm"] True b by simp
  next
    case False
    have "loc gm (a + of_nat k) \<noteq> loc gm x" if "k < unat fin" for k
      using l [OF that] idx(2) [OF that] False by (auto simp: loc_def split: option.splits)
    then have "stores gm a val 0 (unat fin) (mem gm) (loc gm x) = mem gm (loc gm x)" by (intro stores_other) auto
    then show ?thesis using False b by (simp add: byte_at_def)
  qed
qed

text \<open>The bytes of a segment: those of the file, then zeroes.\<close>

definition segment_byte :: "file_image \<Rightarrow> elf_program_header \<Rightarrow> nat \<Rightarrow> u8" where
  "segment_byte img h i = (if i < unat (ph_file_size h) then img ! (unat (ph_file_offset h) + i) else 0)"

lemma IsMapped_part:
  assumes ok: "gm_ok gm" and m: "\<And>x. in_range a n x \<Longrightarrow> prot_at gm x \<noteq> None" and i: "inside a n gm"
    and s: "unat a \<le> unat b" "unat b + unat k \<le> unat a + unat n" "k \<noteq> 0"
  shows "IsMapped b k gm"
proof -
  have k: "0 < unat k" using s(3) by (simp add: unat_gt_0)
  then have "inside b k gm" using i s by (simp add: inside_def)
  moreover have "prot_at gm x \<noteq> None" if "in_range b (max 1 k) x" for x
    using that s m unfolding max_1_nonzero [OF s(3)] by (intro m) (simp add: in_range_def)
  ultimately show ?thesis by (simp add: IsMapped_def IsMappedLocked_iff [OF ok] prot_at_def)
qed

text \<open>One segment on mapped addresses of the memory's own storage.\<close>

definition segment_ready :: "file_image \<Rightarrow> guest_memory \<Rightarrow> elf_program_header \<Rightarrow> u64 \<Rightarrow> bool" where
  "segment_ready img gm h a \<longleftrightarrow> inside a (ph_memory_size h) gm \<and>
     (\<forall>x. in_range a (ph_memory_size h) x \<longrightarrow> prot_at gm x \<noteq> None \<and> loc gm x = Inl x) \<and>
     unat (ph_file_offset h) + unat (ph_file_size h) \<le> length img \<and> ph_file_size h \<le> ph_memory_size h"

definition segment_loaded :: "file_image \<Rightarrow> elf_program_header \<Rightarrow> u64 \<Rightarrow> guest_memory \<Rightarrow> guest_memory \<Rightarrow> bool" where
  "segment_loaded img h a gm gm' \<longleftrightarrow> gm_ok gm' \<and> prot_at gm' = prot_at gm \<and> loc gm' = loc gm \<and>
     (\<forall>b n. inside b n gm' = inside b n gm) \<and>
     (\<forall>x. byte_at gm' x = (if in_range a (ph_memory_size h) x then segment_byte img h (unat x - unat a) else byte_at gm x))"

lemma segment_readyD:
  assumes "gm_ok gm" "segment_ready img gm h a"
  shows "inside a (ph_memory_size h) gm" "in_range a (ph_memory_size h) x \<Longrightarrow> prot_at gm x \<noteq> None"
    "in_range a (ph_memory_size h) x \<Longrightarrow> loc gm x = Inl x"
    "unat (ph_file_offset h) + unat (ph_file_size h) \<le> length img" "unat (ph_file_size h) \<le> unat (ph_memory_size h)"
    "unat a + unat (ph_memory_size h) < 18446744073709551616"
  using assms gm_okD(1) [OF assms(1)] by (auto simp: segment_ready_def inside_def word_le_nat_alt)

text \<open>The file part: the data of the segment, if it has any.\<close>

definition file_part ::
  "(nat \<Rightarrow> bool) \<Rightarrow> (nat \<Rightarrow> nat \<Rightarrow> bool) \<Rightarrow> nat \<Rightarrow> file_image \<Rightarrow> elf_program_header \<Rightarrow> u64 \<Rightarrow> guest_memory \<Rightarrow>
   (bool \<times> guest_memory) option" where
  "file_part fault host op img h a gm =
     (if ph_file_size h \<noteq> 0
      then case subspan img (ph_file_offset h) (ph_file_size h) of
          Ok file_data \<Rightarrow> Initialize (fault op) (host op) a file_data gm
        | _ \<Rightarrow> None
      else Some (True, gm))"

lemma file_part_spec:
  assumes ok: "gm_ok gm" and g: "\<forall>k. \<not> fault k" "\<forall>k j. host k j" and r: "segment_ready img gm h a"
  shows "\<exists>gm1. file_part fault host op img h a gm = Some (True, gm1) \<and>
    gm_ok gm1 \<and> prot_at gm1 = prot_at gm \<and> loc gm1 = loc gm \<and> (\<forall>b n. inside b n gm1 = inside b n gm) \<and>
    (\<forall>x. byte_at gm1 x = (if in_range a (ph_file_size h) x then img ! (unat (ph_file_offset h) + (unat x - unat a)) else byte_at gm x))"
proof (cases "ph_file_size h = 0")
  case True
  then show ?thesis using ok by (auto simp: file_part_def in_range_def)
next
  case False
  let ?f = "ph_file_size h" and ?m = "ph_memory_size h"
  let ?data = "take (unat ?f) (drop (unat (ph_file_offset h)) img)"
  note R = segment_readyD [OF ok r]
  have sub: "subspan img (ph_file_offset h) ?f = Ok ?data" using R(4) by (simp add: subspan_def)
  have "length ?data = unat ?f" using R(4) by simp
  then have n: "of_nat (length ?data) = ?f" "length ?data < 18446744073709551616" using unat_u64_less [of ?f] by simp_all
  have "IsMapped a ?f gm" using R(1,2,5) False by (intro IsMapped_part [OF ok, of a ?m]) auto
  then obtain gm1 where gm1: "Initialize (fault op) (host op) a ?data gm = Some (True, gm1)" "stored (\<lambda>i. ?data ! i) a ?f gm gm1"
    using Initialize_spec [OF ok n(2), of "fault op" "host op" a] g unfolding initializes_def n(1) by auto
  have own: "loc gm x = Inl x" if "in_range a ?f x" for x using R(3) [of x] R(5) that by (simp add: in_range_def)
  have "byte_at gm1 x = (if in_range a ?f x then img ! (unat (ph_file_offset h) + (unat x - unat a)) else byte_at gm x)" for x
  proof -
    have "byte_at gm1 x = (if in_range a ?f x then ?data ! (unat x - unat a) else byte_at gm x)"
      using R(5,6) by (intro stored_own [OF gm1(2) own]) simp_all
    moreover have "?data ! (unat x - unat a) = img ! (unat (ph_file_offset h) + (unat x - unat a))" if "in_range a ?f x"
      using that R(4) unfolding in_range_def by (subst nth_take) auto
    ultimately show ?thesis by simp
  qed
  then show ?thesis using False sub gm1 by (simp add: file_part_def stored_def)
qed

lemma initialize_segment_spec:
  assumes ok: "gm_ok gm" and g: "\<forall>k. \<not> fault k" "\<forall>k j. host k j" and r: "segment_ready img gm h a"
  shows "\<exists>gm'. initialize_segment fault host op img h a gm = Some (True, gm') \<and> segment_loaded img h a gm gm'"
proof -
  let ?f = "ph_file_size h" and ?m = "ph_memory_size h"
  note R = segment_readyD [OF ok r]
  obtain gm1 where gm1: "file_part fault host op img h a gm = Some (True, gm1)"
    and ok1: "gm_ok gm1" "prot_at gm1 = prot_at gm" "loc gm1 = loc gm" "\<forall>b n. inside b n gm1 = inside b n gm"
    and b1: "\<And>x. byte_at gm1 x = (if in_range a ?f x then img ! (unat (ph_file_offset h) + (unat x - unat a)) else byte_at gm x)"
    using file_part_spec [OF assms] by blast
  have start: "initialize_segment fault host op img h a gm =
      (if ?m - ?f \<noteq> 0 then InitializeFill (fault (Suc op)) (host (Suc op)) (a + ?f) (?m - ?f) 0 gm1 else Some (True, gm1))"
    using gm1 by (simp add: initialize_segment_def file_part_def [symmetric] Let_def)
  show ?thesis
  proof (cases "?m - ?f = 0")
    case True
    then have "?m = ?f" by simp
    then show ?thesis using start ok1 b1 by (auto simp: segment_loaded_def segment_byte_def in_range_def)
  next
    case False
    have af: "unat (a + ?f) = unat a + unat ?f" using R(5,6) by (intro unat_add_exact) simp
    have zs: "unat (?m - ?f) = unat ?m - unat ?f" using R(5) by (rule unat_sub_exact)
    have rng: "in_range (a + ?f) (?m - ?f) x \<longleftrightarrow> unat a + unat ?f \<le> unat x \<and> unat x < unat a + unat ?m" for x
      using af zs R(5) by (auto simp: in_range_def)
    have "IsMapped (a + ?f) (?m - ?f) gm1" using R(1,2,5) af zs ok1(2,4) False by (intro IsMapped_part [OF ok1(1), of a ?m]) simp_all
    then obtain gm2 where gm2: "InitializeFill (fault (Suc op)) (host (Suc op)) (a + ?f) (?m - ?f) 0 gm1 = Some (True, gm2)"
      "stored (\<lambda>_. 0) (a + ?f) (?m - ?f) gm1 gm2"
      using InitializeFill_spec [OF ok1(1), of 0 "fault (Suc op)" "host (Suc op)" "a + ?f" "?m - ?f"] g unfolding initializes_def by auto
    have own: "loc gm1 x = Inl x" if "in_range (a + ?f) (?m - ?f) x" for x
      using R(3) [of x] that ok1(3) unfolding rng by (simp add: in_range_def)
    have "byte_at gm2 x = (if in_range (a + ?f) (?m - ?f) x then 0 else byte_at gm1 x)" for x
      using R(5,6) af zs by (intro stored_own [OF gm2(2) own]) simp_all
    then have "byte_at gm2 x = (if in_range a ?m x then segment_byte img h (unat x - unat a) else byte_at gm x)" for x
      unfolding rng b1 using R(5) by (auto simp: in_range_def segment_byte_def)
    then show ?thesis using start gm2 ok1 False by (simp add: segment_loaded_def stored_def)
  qed
qed

text \<open>All segments, on pairwise disjoint addresses.\<close>

abbreviation segment_of :: "elf_program_header list \<Rightarrow> planned_load_range \<Rightarrow> elf_program_header" where
  "segment_of headers r \<equiv> headers ! pl_header_index r"

definition in_segment :: "elf_program_header list \<Rightarrow> planned_load_range \<Rightarrow> u64 \<Rightarrow> bool" where
  "in_segment headers r x \<longleftrightarrow> in_range (pl_address r) (ph_memory_size (segment_of headers r)) x"

definition apart_segments :: "elf_program_header list \<Rightarrow> planned_load_range \<Rightarrow> planned_load_range \<Rightarrow> bool" where
  "apart_segments headers r s \<longleftrightarrow> (\<forall>x. \<not> (in_segment headers r x \<and> in_segment headers s x))"

lemma initialize_all_spec:
  assumes g: "\<forall>k. \<not> fault k" "\<forall>k j. host k j"
  shows "gm_ok gm \<Longrightarrow> \<forall>r \<in> set rs. segment_ready img gm (segment_of headers r) (pl_address r) \<Longrightarrow>
    sorted_wrt (apart_segments headers) rs \<Longrightarrow>
    \<exists>gm'. initialize_all fault host op img headers ms rs gm = Some (True, gm') \<and> gm_ok gm' \<and> prot_at gm' = prot_at gm \<and>
      (\<forall>x. (\<forall>r \<in> set rs. \<not> in_segment headers r x) \<longrightarrow> byte_at gm' x = byte_at gm x) \<and>
      (\<forall>r \<in> set rs. \<forall>x. in_segment headers r x \<longrightarrow>
        byte_at gm' x = segment_byte img (segment_of headers r) (unat x - unat (pl_address r)))"
proof (induction rs arbitrary: gm op)
  case (Cons r rs)
  let ?h = "segment_of headers r" and ?a = "pl_address r"
  obtain gm1 where gm1: "initialize_segment fault host op img ?h ?a gm = Some (True, gm1)" "segment_loaded img ?h ?a gm gm1"
    using initialize_segment_spec [OF Cons.prems(1) g, of img ?h ?a op] Cons.prems(2) by auto
  have l: "gm_ok gm1" "prot_at gm1 = prot_at gm" "loc gm1 = loc gm" "\<And>b n. inside b n gm1 = inside b n gm"
    and b: "\<And>x. byte_at gm1 x = (if in_segment headers r x then segment_byte img ?h (unat x - unat ?a) else byte_at gm x)"
    using gm1(2) by (simp_all add: segment_loaded_def in_segment_def)
  have ready: "\<forall>s \<in> set rs. segment_ready img gm1 (segment_of headers s) (pl_address s)"
    using Cons.prems(2) l by (simp add: segment_ready_def)
  have apart: "\<forall>s \<in> set rs. apart_segments headers r s" and sorted: "sorted_wrt (apart_segments headers) rs"
    using Cons.prems(3) by simp_all
  obtain gm' where gm': "initialize_all fault host (op + 2) img headers ms rs gm1 = Some (True, gm')" "gm_ok gm'" "prot_at gm' = prot_at gm1"
    and o: "\<And>x. \<forall>r \<in> set rs. \<not> in_segment headers r x \<Longrightarrow> byte_at gm' x = byte_at gm1 x"
    and s: "\<And>s x. s \<in> set rs \<Longrightarrow> in_segment headers s x \<Longrightarrow> byte_at gm' x = segment_byte img (segment_of headers s) (unat x - unat (pl_address s))"
    using Cons.IH [OF l(1) ready sorted, of "op + 2"] by blast
  have "byte_at gm' x = segment_byte img ?h (unat x - unat ?a)" if "in_segment headers r x" for x
    using that apart o [of x] b [of x] by (auto simp: apart_segments_def)
  moreover have "byte_at gm' x = byte_at gm x" if "\<forall>r \<in> set (r # rs). \<not> in_segment headers r x" for x
    using that o [of x] b [of x] by simp
  ultimately show ?case using gm1(1) gm' l(2) s by auto
qed simp

lemma stacked_free: "stacked gm ms f \<Longrightarrow> m \<in> set ms \<Longrightarrow> in_range (pm_address m) (pm_size m) x \<Longrightarrow> prot_at gm x = None"
proof (induction ms arbitrary: f)
  case (Cons n ms)
  then obtain g l where g: "stacked gm ms g" "unat (pm_size n) \<le> unat l" "\<forall>x. in_range (pm_address n) l x \<longrightarrow> g x = None" by auto
  show ?case
  proof (cases "m = n")
    case True
    then have "g x = None" using g(2,3) Cons.prems(3) by (simp add: in_range_def)
    then show ?thesis using stacked_old [OF g(1), of x] by force
  next
    case False
    then show ?thesis using Cons g(1) by auto
  qed
qed simp

section \<open>Loading\<close>

text \<open>What a successful load promises of the segments of the image.\<close>

definition image_loaded :: "file_image \<Rightarrow> elf_metadata \<Rightarrow> u64 \<Rightarrow> guest_memory \<Rightarrow> guest_memory \<Rightarrow> bool" where
  "image_loaded img md bias gm gm' \<longleftrightarrow>
     (\<forall>h \<in> set (filter is_load (em_program_headers md)).
        \<forall>x. in_range (bias + ph_virtual_address h) (ph_memory_size h) x \<longrightarrow>
          prot_at gm x = None \<and> byte_at gm' x = segment_byte img h (unat x - unat (bias + ph_virtual_address h)) \<and>
          (\<exists>p. prot_at gm' x = Some p \<and> p AND ProtectionFromFlags (ph_flags h) = ProtectionFromFlags (ph_flags h))) \<and>
     (\<forall>x p. prot_at gm x = None \<and> prot_at gm' x = Some p \<and> writes_and_executes p \<longrightarrow>
        (\<exists>h \<in> set (filter is_load (em_program_headers md)). writes_and_executes (ProtectionFromFlags (ph_flags h))))"

definition preserved :: "guest_memory \<Rightarrow> guest_memory \<Rightarrow> bool" where
  "preserved gm gm' \<longleftrightarrow> gm_ok gm' \<and>
     (\<forall>x. prot_at gm x \<noteq> None \<longrightarrow> prot_at gm' x = prot_at gm x \<and> byte_at gm' x = byte_at gm x)"

lemma keeps_preserved: "keeps gm gm' \<Longrightarrow> preserved gm gm'"
  by (simp add: keeps_def preserved_def)

lemma load_ranges_alt:
  "load_ranges headers = map (\<lambda>h. (ph_virtual_address h, ph_virtual_address h + ph_memory_size h)) (filter is_load headers)"
  by (simp add: load_ranges_def is_load_def [abs_def])

lemma planned_apart:
  assumes seg: "segments_ok img md" and hs: "headers = em_program_headers md"
    and rs: "map (segment_of headers) rs = filter is_load headers"
    and pl: "\<forall>r \<in> set rs. range_planned gm bias headers bs r"
  shows "sorted_wrt (apart_segments headers) rs"
proof -
  have "sorted_wrt apart (map (\<lambda>r. (ph_virtual_address (segment_of headers r),
      ph_virtual_address (segment_of headers r) + ph_memory_size (segment_of headers r))) rs)"
  proof -
    have "load_ranges headers = map (\<lambda>h. (ph_virtual_address h, ph_virtual_address h + ph_memory_size h)) (map (segment_of headers) rs)"
      unfolding load_ranges_alt rs ..
    then show ?thesis using seg hs by (simp add: segments_ok_def comp_def)
  qed
  then have "sorted_wrt (\<lambda>r s. apart (ph_virtual_address (segment_of headers r),
      ph_virtual_address (segment_of headers r) + ph_memory_size (segment_of headers r))
      (ph_virtual_address (segment_of headers s), ph_virtual_address (segment_of headers s) + ph_memory_size (segment_of headers s))) rs"
    by (simp add: sorted_wrt_map)
  then show ?thesis
  proof (rule sorted_wrt_mono_rel [rotated])
    fix r s
    let ?r = "segment_of headers r" and ?s = "segment_of headers s"
    assume rs': "r \<in> set rs" "s \<in> set rs"
      and ap: "apart (ph_virtual_address ?r, ph_virtual_address ?r + ph_memory_size ?r) (ph_virtual_address ?s, ph_virtual_address ?s + ph_memory_size ?s)"
    have load: "?r \<in> set (filter is_load headers)" "?s \<in> set (filter is_load headers)" using rs' unfolding rs [symmetric] by simp_all
    have e: "unat (ph_virtual_address h + ph_memory_size h) = unat (ph_virtual_address h) + unat (ph_memory_size h)"
      if "h \<in> set (filter is_load headers)" for h
      using that seg hs by (intro unat_add_exact) (auto simp: segments_ok_def is_load_def)
    have "unat (pl_address r) = unat bias + unat (ph_virtual_address ?r)" "unat (pl_address s) = unat bias + unat (ph_virtual_address ?s)"
      using pl rs' by (simp_all add: range_planned_def Let_def)
    then show "apart_segments headers r s"
      using ap e [OF load(1)] e [OF load(2)] by (auto simp: apart_segments_def in_segment_def apart_def in_range_def word_le_nat_alt)
  qed
qed

lemma planned_ready:
  assumes ok: "gm_ok gm" and k: "keeps gm gm1" and st: "stacked gm (rev ms) (prot_at gm1)"
    and seg: "segments_ok img md" and load: "segment_of (em_program_headers md) r \<in> set (filter is_load (em_program_headers md))"
    and pl: "\<forall>r \<in> set (lp_ranges plan). range_planned gm bias (em_program_headers md) (lp_boundaries plan) r"
    and ms: "plan_mappings gm (lp_ranges plan) (remdups_adj (sort (lp_boundaries plan))) [] = Some ms" and r: "r \<in> set (lp_ranges plan)"
  shows "segment_ready img gm1 (segment_of (em_program_headers md) r) (pl_address r)"
    "in_segment (em_program_headers md) r x \<Longrightarrow> prot_at gm x = None"
    "in_segment (em_program_headers md) r x \<Longrightarrow> \<exists>p. prot_at gm1 x = Some p \<and> p AND pl_protection r = pl_protection r"
proof -
  let ?h = "segment_of (em_program_headers md) r"
  have p: "range_planned gm bias (em_program_headers md) (lp_boundaries plan) r" using pl r by blast
  have cover: "\<exists>m \<in> set (rev ms). in_range (pm_address m) (pm_size m) x \<and> pm_protection m AND pl_protection r = pl_protection r"
    if "in_segment (em_program_headers md) r x" for x
    using segment_covered [OF pl ms r] that by (simp add: in_segment_def)
  show free: "prot_at gm x = None" if "in_segment (em_program_headers md) r x" for x
    using cover [OF that] stacked_free [OF st] by blast
  show mapped: "\<exists>p. prot_at gm1 x = Some p \<and> p AND pl_protection r = pl_protection r" if "in_segment (em_program_headers md) r x" for x
    using cover [OF that] stacked_mapped [OF st] by blast
  have "inside (pl_address r) (ph_memory_size ?h) gm"
  proof -
    have i: "inside (pl_mapping_address r) (pl_mapping_size r) gm" using p by (simp add: range_planned_def Let_def)
    then have "unat (pl_mapping_address r + pl_mapping_size r) = unat (pl_mapping_address r) + unat (pl_mapping_size r)"
      by (rule range_end_unat [OF ok])
    moreover have "0 < unat (ph_memory_size ?h)" using load by (simp add: is_load_def unat_gt_0)
    ultimately show ?thesis using p i by (simp add: range_planned_def Let_def inside_def)
  qed
  moreover have "loc gm1 x = Inl x" if "in_segment (em_program_headers md) r x" for x
    using unmapped_place [OF ok free [OF that]] k by (simp add: keeps_def loc_def)
  moreover have "unat (ph_file_offset ?h) + unat (ph_file_size ?h) \<le> length img" "ph_file_size ?h \<le> ph_memory_size ?h"
    using load seg by (auto simp: segments_ok_def is_load_def)
  moreover have "prot_at gm1 x \<noteq> None" if "in_segment (em_program_headers md) r x" for x using mapped [OF that] by auto
  moreover have "inside a n gm1 = inside a n gm" for a n using k by (simp add: keeps_def)
  ultimately show "segment_ready img gm1 ?h (pl_address r)" by (simp add: segment_ready_def in_segment_def)
qed

text \<open>The outcome of loading the segments of a parsed image.\<close>

definition loaded :: "file_image \<Rightarrow> elf_metadata \<Rightarrow> u64 \<Rightarrow> guest_memory \<Rightarrow> (elf_load_result \<times> guest_memory) option \<Rightarrow> bool" where
  "loaded img md bias gm result \<longleftrightarrow>
     (case result of
        None \<Rightarrow> False
      | Some (r, gm') \<Rightarrow> ld_metadata r = md \<and> preserved gm gm' \<and>
          (if ld_error r = kNoError then image_loaded img md bias gm gm' else prot_at gm' = prot_at gm))"

lemma initialize_loads:
  assumes ok: "gm_ok gm" and g: "\<forall>k. \<not> fault k" "\<forall>k j. host k j" and seg: "segments_ok img md"
    and k: "keeps gm gm1" and st: "stacked gm (rev ms) (prot_at gm1)"
    and pl: "\<forall>r \<in> set (lp_ranges plan). range_planned gm bias (em_program_headers md) (lp_boundaries plan) r"
    and rs: "map (segment_of (em_program_headers md)) (lp_ranges plan) = filter is_load (em_program_headers md)"
    and ms: "plan_mappings gm (lp_ranges plan) (remdups_adj (sort (lp_boundaries plan))) [] = Some ms"
  shows "\<exists>gm2. initialize_all fault host op img (em_program_headers md) ms (lp_ranges plan) gm1 = Some (True, gm2) \<and>
    preserved gm gm2 \<and> image_loaded img md bias gm gm2"
proof -
  let ?hs = "em_program_headers md"
  have load: "segment_of ?hs r \<in> set (filter is_load ?hs)" if "r \<in> set (lp_ranges plan)" for r using that unfolding rs [symmetric] by simp
  note R = planned_ready [OF ok k st seg load pl ms]
  have "\<forall>r \<in> set (lp_ranges plan). segment_ready img gm1 (segment_of ?hs r) (pl_address r)" using R(1) by blast
  moreover have "gm_ok gm1" using k by (simp add: keeps_def)
  ultimately obtain gm2 where gm2: "initialize_all fault host op img ?hs ms (lp_ranges plan) gm1 = Some (True, gm2)" "gm_ok gm2"
    "prot_at gm2 = prot_at gm1" and o: "\<And>x. \<forall>r \<in> set (lp_ranges plan). \<not> in_segment ?hs r x \<Longrightarrow> byte_at gm2 x = byte_at gm1 x"
    and s: "\<And>r x. r \<in> set (lp_ranges plan) \<Longrightarrow> in_segment ?hs r x \<Longrightarrow>
        byte_at gm2 x = segment_byte img (segment_of ?hs r) (unat x - unat (pl_address r))"
    using initialize_all_spec [OF g, of gm1 "lp_ranges plan" img ?hs op ms] planned_apart [OF seg refl rs pl] by blast
  have "preserved gm gm2" unfolding preserved_def
  proof (intro conjI allI impI)
    fix x
    assume x: "prot_at gm x \<noteq> None"
    then have "\<forall>r \<in> set (lp_ranges plan). \<not> in_segment ?hs r x" using R(2) by auto
    then show "prot_at gm2 x = prot_at gm x" "byte_at gm2 x = byte_at gm x" using o gm2(3) k x by (simp_all add: keeps_def)
  qed (rule gm2(2))
  moreover have "image_loaded img md bias gm gm2" unfolding image_loaded_def
  proof (intro conjI ballI allI impI)
    fix h x
    assume h: "h \<in> set (filter is_load ?hs)" and x: "in_range (bias + ph_virtual_address h) (ph_memory_size h) x"
    obtain r where r: "r \<in> set (lp_ranges plan)" "h = segment_of ?hs r" using h unfolding rs [symmetric] by auto
    have p: "range_planned gm bias ?hs (lp_boundaries plan) r" using pl r(1) by blast
    have "unat (pl_address r) < 18446744073709551616" by (rule unat_u64_less)
    then have "unat (bias + ph_virtual_address h) = unat (pl_address r)"
      using p r(2) by (subst unat_add_exact) (simp_all add: range_planned_def Let_def)
    then have a: "pl_address r = bias + ph_virtual_address h" by (simp add: unat_eq_iff)
    then have i: "in_segment ?hs r x" using x r(2) by (simp add: in_segment_def)
    show "prot_at gm x = None" using R(2) [OF r(1) r(1) i] .
    show "byte_at gm2 x = segment_byte img h (unat x - unat (bias + ph_virtual_address h))" using s [OF r(1) i] a r(2) by simp
    have "pl_protection r = ProtectionFromFlags (ph_flags h)" using p r(2) by (simp add: range_planned_def Let_def)
    then show "\<exists>p. prot_at gm2 x = Some p \<and> p AND ProtectionFromFlags (ph_flags h) = ProtectionFromFlags (ph_flags h)"
      using R(3) [OF r(1) r(1) i] gm2(3) by simp
  next
    fix x p
    assume "prot_at gm x = None \<and> prot_at gm2 x = Some p \<and> writes_and_executes p"
    then obtain m where "m \<in> set (rev ms)" "p = pm_protection m" "writes_and_executes p"
      using stacked_new [OF st, of x p] gm2(3) by auto
    then obtain r where r: "r \<in> set (lp_ranges plan)" "writes_and_executes (pl_protection r)"
      using plan_mappings_spec [OF ms] by (auto simp: mapping_ok_def sorted_remdups_adj)
    moreover have "pl_protection r = ProtectionFromFlags (ph_flags (segment_of ?hs r))" using pl r(1) by (simp add: range_planned_def Let_def)
    ultimately show "\<exists>h \<in> set (filter is_load ?hs). writes_and_executes (ProtectionFromFlags (ph_flags h))"
      using load [OF r(1)] by metis
  qed
  ultimately show ?thesis using gm2(1) by blast
qed

lemma LoadSegments_spec:
  assumes ok: "gm_ok gm" and g: "\<forall>k. \<not> fault k" "\<forall>k j. host k j" and seg: "segments_ok img md"
  shows "loaded img md bias gm (LoadSegments fault host img md bias gm)"
proof -
  let ?g = "gm_mapping_granularity gm"
  let ?hs = "em_program_headers md"
  have unchanged: "preserved gm gm" using ok by (simp add: preserved_def)
  obtain e plan where plan: "plan_segments gm bias 0 ?hs new_load_plan = (e, plan)" by fastforce
  show ?thesis
  proof (cases "is_power_of_two ?g \<and> e = kNoError \<and>
      plan_mappings gm (lp_ranges plan) (remdups_adj (sort (lp_boundaries plan))) [] \<noteq> None")
    case False
    then show ?thesis using plan unchanged
      by (auto simp: loaded_def LoadSegments_def Let_def load_result_def is_power_of_two_def)
  next
    case True
    then obtain ms where pow: "is_power_of_two ?g" and e: "e = kNoError"
      and ms: "plan_mappings gm (lp_ranges plan) (remdups_adj (sort (lp_boundaries plan))) [] = Some ms" by auto
    have P: "(\<forall>r \<in> set (lp_ranges plan). range_planned gm bias ?hs (lp_boundaries plan) r) \<and>
        map (segment_of ?hs) (lp_ranges plan) = filter is_load ?hs"
      using plan_segments_spec [OF pow, of bias 0 ?hs new_load_plan plan ?hs] plan e by (simp add: new_load_plan_def)
    obtain b op gm1 where b: "map_all host 0 [] ms gm = (b, op, gm1)" by (cases "map_all host 0 [] ms gm") auto
    have M: "keeps gm gm1 \<and> (if b then stacked gm (rev ms) (prot_at gm1) else prot_at gm1 = prot_at gm)"
    proof -
      have "stacked gm [] (prot_at gm)" by simp
      from map_all_spec [OF ok g(2) keeps_refl [OF ok] this b] show ?thesis unfolding append_Nil2 .
    qed
    have run: "LoadSegments fault host img md bias gm =
        (if b then map_option (\<lambda>(ok, gm2). (load_result (if ok then kNoError else kGuestRangeOutOfRange) md plan, gm2))
             (initialize_all fault host op img ?hs ms (lp_ranges plan) gm1)
         else Some (load_result kGuestMappingConflict md plan, gm1))"
      using pow e plan ms b by (simp add: LoadSegments_def Let_def is_power_of_two_def)
    show ?thesis
    proof (cases b)
      case False
      then show ?thesis using run M keeps_preserved by (auto simp: loaded_def load_result_def)
    next
      case True
      then show ?thesis
        using run M initialize_loads [OF ok g seg _ _ conjunct1 [OF P] conjunct2 [OF P] ms, of gm1 op]
        by (auto simp: loaded_def load_result_def)
    qed
  qed
qed

section \<open>Properties\<close>


lemma small_memory_loads:
  "case LoadExecutable64 (\<lambda>_. False) (\<lambda>_ _. True) sample_image 0 small_memory of
     Some (r, gm) \<Rightarrow> ld_error r = kNoError \<and> ld_loaded_segment_count r = 2 | None \<Rightarrow> False"
  by code_simp


end
