(* ===== verification/Spec2Isabelle.thy ===== *)
theory Spec2Isabelle
  imports Kernel_System Guest_Search Guest_Copy Guest_Initialize Direct_Memory Static_Tls_Layout Module_Plan
    Relocator Elf_Loader
begin

text \<open>
  A verification development of the KajPS5 runtime. The paths below are relative to \<open>src/src/\<close>.

  \<^bold>\<open>The program.\<close> KajPS5 runs guest executables on a host. The loader (\<open>loader/\<close>) parses an executable,
  maps its segments into guest memory, relocates them and plans the start of its modules. Guest memory
  (\<open>core/memory/\<close>) keeps the mapped regions, their protections and the shared mappings. The kernel services
  (\<open>kernel/\<close>) give the guest threads, synchronisation objects, event queues and physical memory; they share
  a handle table and a cooperative scheduler, and a service blocks and wakes threads through the scheduler
  under textual wait keys. Exported functions, native execution and graphics are built on these parts.

  \<^bold>\<open>Conventions.\<close> A class is a record, an enumeration a datatype, \<open>std::uint64_t\<close> the type \<open>u64\<close> of
  64-bit words with wrap-around; \<open>std::int32_t\<close> counts are integers that are proved to stay in range. A
  method is a function from the state to its results and the new state. A call is
  one step: the kernel services hold their mutexes for the whole call and guest memory changes its tables under
  the exclusive lock. Data accesses of several host threads to guest memory at the same time, which the shared
  lock admits, and calls between the release of that lock and the notification of the observer are not modelled.
  Host calls that may fail, and clock readings, are arguments (\<open>host\<close>, \<open>fault\<close>, \<open>clock\<close>, \<open>now\<close>), indexed
  where a method makes several. No definition uses a bound on the number of steps chosen for the model: loops
  are structural recursion or \<open>function\<close>s with a measure. Where termination needs the invariant, an iteration
  that would make no progress gives \<open>None\<close>, and the property says that this value is not reached.

  \<^bold>\<open>Shared theories.\<close>
  \<^item> \<open>Prelude\<close>: machine integers and the facts that turn overflow tests and masks into arithmetic.
  \<^item> \<open>Ordered_Map\<close>: \<open>std::map\<close> as a sorted association list; the locale \<open>dictionary\<close> and its interpretation.
  \<^item> \<open>Segments\<close>: sorted tables of disjoint intervals with lookup, insertion, cutting and coalescing, as the
    guest memory and the direct memory use them.

  \<^bold>\<open>Kernel.\<close>
  \<^item> \<open>Handle_Table\<close> (\<open>kernel/handle_table\<close>, \<open>object.h\<close>, \<open>status.h\<close>): typed objects under 64-bit handles. A
    handle is never issued twice, lookup after insertion and removal is exact; the locale \<open>object_table\<close> is the
    contract of its clients.
  \<^item> \<open>Scheduler\<close>, \<open>Scheduler_Behaviour\<close>, \<open>Wait_Queue\<close> (\<open>kernel/guest_scheduler\<close>): threads, ready queue,
    running thread and blocked threads with deadlines. Selection is first-in first-out, a wake makes exactly
    the right threads ready in order, ready threads progress round-robin, an exit hands over to its joiners.
    The locale \<open>wait_queue\<close> is the contract of the synchronisation services.
  \<^item> \<open>Event_Flag\<close>, \<open>Semaphore\<close>, \<open>Cxa_Guard\<close>, \<open>Event_Queue\<close> (the files of these names in \<open>kernel/\<close>): the
    objects and the services around them; units are conserved, a guard has at most one owner, a set, a signal
    and a trigger reach the waiting threads, a deleted registration stays silent, deadlines saturate.
  \<^item> \<open>Kernel_System\<close> (\<open>kernel/runtime.h\<close>): all these services as one step relation over calls in any
    order. The system invariant holds in every reachable state, wait keys of different services differ, no
    thread waits on an object that is gone, results of joins are stable.
  \<^item> \<open>Direct_Memory\<close> (\<open>kernel/direct_memory\<close>): the physical range as allocations, free ranges and mappings.
    Allocation is first fit, allocations and free ranges partition the range, a release frees exactly its
    range. One property shows a defect: the allocation test wraps around behind the end of an allocation.

  \<^bold>\<open>Guest memory\<close> (\<open>core/memory/guest_memory\<close>, \<open>shared_memory_backing\<close>).
  \<^item> \<open>Shared_Backing\<close>: sparse pages implement a zero-initialised byte array.
  \<^item> \<open>Guest_Memory\<close>, \<open>Guest_Mapping\<close>: the state and its invariant \<open>gm_ok\<close>; \<open>Map\<close>, \<open>Protect\<close>, \<open>Unmap\<close>
    and the checks refine a function from addresses to protections; mapping tokens detect remapping.
  \<^item> \<open>Mutation_Report\<close>, \<open>Guest_Access\<close>, \<open>Guest_Copy\<close>: reads, writes, fills and copies cut a range at the
    borders of shared mappings. They equal their bytewise references, also under aliasing, and every changed
    address is reported to the observer. The locale \<open>piece_writing\<close> holds the loop for writes and fills.
  \<^item> \<open>Guest_Search\<close>, \<open>Guest_Initialize\<close>: the first-fit search, and the writes that ignore protections.

  \<^bold>\<open>Loader.\<close>
  \<^item> \<open>Elf_Types\<close>, \<open>Elf_Parser\<close>, \<open>Elf_Safety\<close> (\<open>loader/elf\<close>): the parser of ELF and SELF images. A read outside
    the image is the value \<open>Fault\<close>; no image of addressable size reaches it, and the loadable segments of a
    parsed image lie in the file and do not overlap in memory.
  \<^item> \<open>Elf_Loader\<close> (\<open>loader/elf.cpp\<close>, \<open>LoadParsedElf64\<close>): loading puts every byte of every segment in
    place or undoes its mappings, and keeps what was mapped before.
  \<^item> \<open>Sce_Symbol\<close>, \<open>Relocator\<close> (\<open>loader/sce_symbol\<close>, \<open>loader/relocator\<close>): symbol references have one
    spelling, which reads back; relocation stores the values of the binary interface or changes nothing. The
    import resolver, an abstract class of the code, is a record of functions.
  \<^item> \<open>Static_Tls_Layout\<close>, \<open>Module_Plan\<close> (the files of these names in \<open>loader/\<close>): thread-local blocks are
    disjoint, aligned and never move; the start order follows the dependencies.

  \<^bold>\<open>Not modelled.\<close> Failing allocations, and the pauses that only the tests use. The services that wrap clocks
  and files of the host (\<open>kernel/clock\<close>, \<open>file\<close>, \<open>virtual_file_system\<close>). The guest's own threads library and
  process lifecycle (\<open>kernel/pthread\<close>, \<open>process_lifecycle\<close>), whose blocking rests on the scheduler above, and
  the services of single libraries (\<open>libc_heap\<close>, \<open>json_value\<close>, \<open>ampr_command_buffer\<close>). The loader's file
  access, registries and traces. Native execution (\<open>cpu/\<close>), which runs machine code in host pages. The exported
  functions (\<open>hle/\<close>), which decode registers and call the services. Graphics (\<open>gpu/\<close>): command streams,
  image layouts, the shader translation, for which neither instruction set has a semantics here, and Vulkan.
  Windows, sessions and the command line (\<open>platform/\<close>, \<open>runtime/\<close>, \<open>app/\<close>).
\<close>

end
